(* ===== verification/Prelude.thy ===== *)
theory Prelude
  imports Main "HOL-Library.Multiset"
begin

text \<open>
  Shared vocabulary of the development.

  \<^item> C++ code can stop in ways a HOL function cannot: a failed \<open>GGML_ASSERT\<close> or
    \<open>GGML_ABORT\<close>, a read outside an array, a signed overflow, a division by zero, a null
    pointer, a thrown exception. Operations that can do so return \<open>fault + 'a\<close>, the type
    \<open>'a res\<close>; \<open>rbind\<close> sequences them and \<open>rfold\<close> is a loop with such a body. Code that may also run
    forever returns \<open>'a run\<close>, where \<open>None\<close> stands for not returning, with \<open>run_bind\<close> and \<open>while_run\<close>.
  \<^item> Unsigned 32-bit counters are natural numbers with the wrap-around written out
    (\<open>u32\<close>, \<open>u64\<close>, \<open>u32_dec\<close>, \<open>u32_sub\<close>); signed 32-bit values are integers with the
    range test \<open>i32_ok\<close>.
  \<^item> \<open>for_cells\<close> is the loop \<open>for (i = 0; i < n; ++i)\<close> whose body reads and writes element
    \<open>i\<close> of a vector and some scalar accumulators.
  \<^item> \<open>std_sort\<close> and \<open>std_priority_queue\<close> are the contracts of the library's sort and priority queue.
\<close>

named_theorems res_simps \<open>rules that take fault-returning programs apart\<close>

section \<open>Faults\<close>

datatype fault =
    GgmlAssert       \<comment> \<open>a failed \<open>GGML_ASSERT\<close>\<close>
  | GgmlAbort        \<comment> \<open>\<open>GGML_ABORT\<close>\<close>
  | OutOfBounds      \<comment> \<open>an array or vector access outside its range\<close>
  | SignedOverflow   \<comment> \<open>a signed addition whose result does not fit\<close>
  | DivByZero
  | NullDeref
  | Thrown string    \<comment> \<open>a C++ exception with its message\<close>

type_synonym 'a res = "fault + 'a"

definition rbind :: "'a res \<Rightarrow> ('a \<Rightarrow> 'b res) \<Rightarrow> 'b res" where
  "rbind m f = (case m of Inl e \<Rightarrow> Inl e | Inr x \<Rightarrow> f x)"

definition rguard :: "bool \<Rightarrow> fault \<Rightarrow> unit res" where
  "rguard b e = (if b then Inr () else Inl e)"

definition rnth :: "'a list \<Rightarrow> nat \<Rightarrow> 'a res" where
  "rnth xs i = (if i < length xs then Inr (xs ! i) else Inl OutOfBounds)"

definition rupd :: "'a list \<Rightarrow> nat \<Rightarrow> 'a \<Rightarrow> 'a list res" where
  "rupd xs i x = (if i < length xs then Inr (xs[i := x]) else Inl OutOfBounds)"

fun rfold :: "('a \<Rightarrow> 's \<Rightarrow> 's res) \<Rightarrow> 'a list \<Rightarrow> 's \<Rightarrow> 's res" where
  "rfold f [] s = Inr s"
| "rfold f (x # xs) s = rbind (f x s) (rfold f xs)"

lemma rbind_simps [simp]: "rbind (Inl e) f = Inl e" "rbind (Inr x) f = f x"
  by (simp_all add: rbind_def)

lemma rbind_Inr_iff [res_simps]: "rbind m f = Inr y \<longleftrightarrow> (\<exists>x. m = Inr x \<and> f x = Inr y)"
  by (cases m) simp_all

lemma rbind_assoc: "rbind (rbind m f) g = rbind m (\<lambda>x. rbind (f x) g)"
  by (cases m) simp_all

lemma rguard_simps [simp]: "rguard True e = Inr ()" "rguard False e = Inl e"
  by (simp_all add: rguard_def)

lemma rguard_Inr_iff [res_simps]: "rguard b e = Inr u \<longleftrightarrow> b"
  by (simp add: rguard_def)

lemma rnth_Inr_iff [res_simps]: "rnth xs i = Inr x \<longleftrightarrow> i < length xs \<and> x = xs ! i"
  by (auto simp: rnth_def)

lemma rnth_in [simp]: "i < length xs \<Longrightarrow> rnth xs i = Inr (xs ! i)"
  by (simp add: rnth_def)

lemma rupd_Inr_iff [res_simps]: "rupd xs i x = Inr ys \<longleftrightarrow> i < length xs \<and> ys = xs[i := x]"
  by (auto simp: rupd_def)

lemma rupd_in [simp]: "i < length xs \<Longrightarrow> rupd xs i x = Inr (xs[i := x])"
  by (simp add: rupd_def)

lemma rfold_append: "rfold f (xs @ ys) s = rbind (rfold f xs s) (rfold f ys)"
proof (induction xs arbitrary: s)
  case Nil
  show ?case by simp
next
  case (Cons x xs)
  then show ?case by (cases "f x s") simp_all
qed

text \<open>A loop whose body keeps an invariant keeps it to its end, and does not fault if the body
  does not.\<close>

lemma rfold_invariant:
  assumes "rfold f xs s = Inr t" and "P s"
    and "\<And>x s t. x \<in> set xs \<Longrightarrow> P s \<Longrightarrow> f x s = Inr t \<Longrightarrow> P t"
  shows "P t"
  using assms
proof (induction xs arbitrary: s)
  case Nil
  then show ?case by simp
next
  case (Cons x xs)
  from Cons.prems(1) obtain u where u: "f x s = Inr u" "rfold f xs u = Inr t"
    by (auto simp: res_simps)
  show ?case
  proof (rule Cons.IH [OF u(2)])
    show "P u" using Cons.prems(2,3) u(1) by auto
  qed (use Cons.prems(3) in auto)
qed

lemma rfold_total:
  assumes "P s" and "\<And>x s. x \<in> set xs \<Longrightarrow> P s \<Longrightarrow> \<exists>t. f x s = Inr t \<and> P t"
  shows "\<exists>t. rfold f xs s = Inr t \<and> P t"
  using assms
proof (induction xs arbitrary: s)
  case Nil
  then show ?case by simp
next
  case (Cons x xs)
  from Cons.prems obtain u where "f x s = Inr u" "P u"
    by (metis list.set_intros(1))
  with Cons show ?case by simp
qed

text \<open>A counting loop with a known state before every iteration.\<close>

lemma rfold_upt_closed:
  assumes "\<And>i. i < n \<Longrightarrow> f i (g i) = Inr (g (Suc i))"
  shows "rfold f [0..<n] (g 0) = Inr (g n)"
  using assms by (induction n) (simp_all add: rfold_append)

lemma rfold_upt_closed_from:
  assumes "a \<le> b" "\<And>i. a \<le> i \<Longrightarrow> i < b \<Longrightarrow> f i (g i) = Inr (g (Suc i))"
  shows "rfold f [a..<b] (g a) = Inr (g b)"
  using assms by (induction rule: nat_induct_at_least) (simp_all add: rfold_append)

text \<open>Writing the elements of a vector one after the other: after \<open>k\<close> writes.\<close>

definition seq_fill :: "(nat \<Rightarrow> 'a) \<Rightarrow> nat \<Rightarrow> 'a list \<Rightarrow> 'a list" where
  "seq_fill f k d = map f [0..<k] @ drop k d"

lemma seq_fill_simps [simp]:
  "seq_fill f 0 d = d"
  "k \<le> length d \<Longrightarrow> length (seq_fill f k d) = length d"
  "k < length d \<Longrightarrow> (seq_fill f k d)[k := f k] = seq_fill f (Suc k) d"
  "p < k \<Longrightarrow> seq_fill f k d ! p = f p"
  "k \<le> p \<Longrightarrow> p < length d \<Longrightarrow> seq_fill f k d ! p = d ! p"
proof -
  show "k < length d \<Longrightarrow> (seq_fill f k d)[k := f k] = seq_fill f (Suc k) d"
    by (simp add: seq_fill_def list_update_append Cons_nth_drop_Suc [symmetric])
qed (simp_all add: seq_fill_def nth_append)

text \<open>A counting loop with an invariant indexed by the iteration.\<close>

lemma rfold_upt_inv:
  assumes "P 0 s" and "\<And>i s. i < n \<Longrightarrow> P i s \<Longrightarrow> \<exists>t. f i s = Inr t \<and> P (Suc i) t"
  shows "\<exists>t. rfold f [0..<n] s = Inr t \<and> P n t"
  using assms
proof (induction n)
  case 0
  then show ?case by simp
next
  case (Suc n)
  then obtain u where u: "rfold f [0..<n] s = Inr u" "P n u" by auto
  then obtain t where "f n u = Inr t" "P (Suc n) t" using Suc.prems(2) by blast
  with u show ?case by (simp add: rfold_append)
qed

section \<open>Fixed-width integers\<close>

definition u32 :: "nat \<Rightarrow> nat" where
  "u32 n = n mod 2 ^ 32"

definition u64 :: "nat \<Rightarrow> nat" where
  "u64 n = n mod 2 ^ 64"

definition u32_sub :: "nat \<Rightarrow> nat \<Rightarrow> nat" where
  "u32_sub a b = (a + (2 ^ 32 - b mod 2 ^ 32)) mod 2 ^ 32"

definition u32_dec :: "nat \<Rightarrow> nat" where
  "u32_dec n = u32_sub n 1"

definition INT32_MAX :: int where
  "INT32_MAX = 2147483647"

definition i32_ok :: "int \<Rightarrow> bool" where
  "i32_ok x \<longleftrightarrow> - 2147483648 \<le> x \<and> x \<le> 2147483647"

text \<open>C++ signed division truncates towards zero.\<close>

definition cpp_div :: "int \<Rightarrow> int \<Rightarrow> int" where
  "cpp_div n d = (if (n < 0) = (d < 0) then \<bar>n\<bar> div \<bar>d\<bar> else - (\<bar>n\<bar> div \<bar>d\<bar>))"

definition i32_div :: "int \<Rightarrow> int \<Rightarrow> int res" where
  "i32_div a b = (if b = 0 then Inl DivByZero
                  else if i32_ok (cpp_div a b) then Inr (cpp_div a b) else Inl SignedOverflow)"

definition i32_add :: "int \<Rightarrow> int \<Rightarrow> int res" where
  "i32_add a b = (if i32_ok (a + b) then Inr (a + b) else Inl SignedOverflow)"

text \<open>Conversion of a \<open>size_t\<close> to \<open>int32_t\<close>.\<close>

definition to_i32 :: "nat \<Rightarrow> int" where
  "to_i32 n = (int n + 2147483648) mod 4294967296 - 2147483648"

lemma to_i32_small [simp]: "n < 2147483648 \<Longrightarrow> to_i32 n = int n"
  by (simp add: to_i32_def)

lemma u32_small [simp]: "n < 2 ^ 32 \<Longrightarrow> u32 n = n"
  by (simp add: u32_def)

lemma u64_small [simp]: "n < 2 ^ 64 \<Longrightarrow> u64 n = n"
  by (simp add: u64_def)

lemma u32_lt: "u32 n < 2 ^ 32"
  by (simp add: u32_def)

lemma u32_sub_le: "b \<le> a \<Longrightarrow> a < 2 ^ 32 \<Longrightarrow> u32_sub a b = a - b"
proof -
  assume ab: "b \<le> a" "a < 2 ^ 32"
  then have "a + (2 ^ 32 - b mod 2 ^ 32) = (a - b) + 2 ^ 32" by simp
  then have "u32_sub a b = (a - b + 2 ^ 32) mod 2 ^ 32" by (simp only: u32_sub_def)
  also have "\<dots> = a - b" using ab by (simp only: mod_add_self2) simp
  finally show ?thesis .
qed

lemma u32_dec_pos [simp]: "0 < n \<Longrightarrow> n < 2 ^ 32 \<Longrightarrow> u32_dec n = n - 1"
  by (simp add: u32_dec_def u32_sub_le)

lemma cpp_div_nonneg: "0 \<le> a \<Longrightarrow> 0 < b \<Longrightarrow> cpp_div a b = a div b"
  by (cases "a = 0") (simp_all add: cpp_div_def)

section \<open>Loops over a vector\<close>

lemma map_f_nth: "map (\<lambda>i. f (xs ! i)) [0..<length xs] = map f xs"
  by (rule nth_equalityI) simp_all

definition for_cells :: "nat \<Rightarrow> (nat \<Rightarrow> 'c \<Rightarrow> 'a \<Rightarrow> 'c \<times> 'a) \<Rightarrow> 'c list \<times> 'a \<Rightarrow> 'c list \<times> 'a" where
  "for_cells n body s =
     fold (\<lambda>i (cs, a). let (c', a') = body i (cs ! i) a in (cs[i := c'], a')) [0..<n] s"

lemma for_cells_0 [simp]: "for_cells 0 body s = s"
  by (simp add: for_cells_def)

lemma for_cells_Suc:
  "for_cells (Suc n) body s =
     (let (cs, a) = for_cells n body s; (c', a') = body n (cs ! n) a in (cs[n := c'], a'))"
  by (simp add: for_cells_def split: prod.split)

text \<open>Iteration \<open>i\<close> sees the cell that was there before the loop.\<close>

lemma for_cells_frame:
  "length (fst (for_cells n body (cs, a))) = length cs \<and>
   (\<forall>j \<ge> n. fst (for_cells n body (cs, a)) ! j = cs ! j)"
proof (induction n)
  case 0
  then show ?case by simp
next
  case (Suc n)
  then show ?case by (auto simp: for_cells_Suc Let_def split: prod.splits)
qed

lemma for_cells_length [simp]: "length (fst (for_cells n body (cs, a))) = length cs"
  by (simp add: for_cells_frame)

text \<open>When the new cell does not depend on the accumulators the loop maps over the vector.\<close>

lemma for_cells_map:
  assumes "n \<le> length cs" and "\<And>i a. i < n \<Longrightarrow> fst (body i (cs ! i) a) = f i (cs ! i)"
  shows "fst (for_cells n body (cs, a)) =
    map (\<lambda>i. f i (cs ! i)) [0..<n] @ drop n cs"
  using assms
proof (induction n)
  case 0
  then show ?case by simp
next
  case (Suc n)
  obtain ds b where ds: "for_cells n body (cs, a) = (ds, b)" by fastforce
  have IH: "ds = map (\<lambda>i. f i (cs ! i)) [0..<n] @ drop n cs"
    using Suc ds by simp
  have n: "n < length cs" using Suc.prems by simp
  then have dn: "ds ! n = cs ! n" by (simp add: IH nth_append)
  have "fst (for_cells (Suc n) body (cs, a)) = ds[n := f n (cs ! n)]"
    using Suc.prems(2) [of n b] by (auto simp: for_cells_Suc ds dn split: prod.splits)
  also have "\<dots> = map (\<lambda>i. f i (cs ! i)) [0..<Suc n] @ drop (Suc n) cs"
    using n by (simp add: IH list_update_append Cons_nth_drop_Suc [symmetric])
  finally show ?case .
qed

text \<open>The invariant rule for such loops: \<open>P i\<close> relates the accumulators to the first \<open>i\<close> cells.\<close>

lemma for_cells_acc:
  assumes "P 0 a"
    and "\<And>i b. i < n \<Longrightarrow> P i b \<Longrightarrow> P (Suc i) (snd (body i (cs ! i) b))"
  shows "P n (snd (for_cells n body (cs, a)))"
  using assms
proof (induction n)
  case 0
  then show ?case by simp
next
  case (Suc n)
  obtain ds b where ds: "for_cells n body (cs, a) = (ds, b)" by fastforce
  have "P n b" using Suc ds by simp
  moreover have "ds ! n = cs ! n"
    using for_cells_frame [of n body cs a] ds by simp
  ultimately show ?case
    using Suc.prems(2) [of n b] by (auto simp: for_cells_Suc ds split: prod.splits)
qed

text \<open>If a loop whose iteration \<open>i\<close> only writes cell \<open>i\<close> ends without a fault, no iteration had a
  reason to fault.\<close>

lemma rfold_cells_needs:
  assumes f: "\<And>i cs a t. f i (cs, a) = Inr t \<Longrightarrow> i < length cs \<Longrightarrow> Q (cs ! i) \<and> (\<exists>x. fst t = cs[i := x])"
    and run: "rfold f [0..<n] (cs, a) = Inr t" and n: "n \<le> length cs"
  shows "\<forall>i < n. Q (cs ! i)"
proof -
  have "(\<forall>i < n. Q (cs ! i)) \<and> length (fst t) = length cs \<and> drop n (fst t) = drop n cs"
    using run n
  proof (induction n arbitrary: t)
    case 0
    then show ?case by auto
  next
    case (Suc n)
    then obtain u where u: "rfold f [0..<n] (cs, a) = Inr u" "f n u = Inr t"
      by (auto simp: rfold_append res_simps)
    then have IH: "\<forall>i < n. Q (cs ! i)" "length (fst u) = length cs" "drop n (fst u) = drop n cs"
      using Suc.IH [OF u(1)] Suc.prems(2) by auto
    have un: "fst u ! n = cs ! n" using IH(2,3) Suc.prems(2) by (metis Suc_le_lessD hd_drop_conv_nth)
    have "Q (fst u ! n) \<and> (\<exists>x. fst t = (fst u)[n := x])"
      using f [of n "fst u" "snd u" t] u(2) IH(2) Suc.prems(2) by simp
    moreover have "drop (Suc n) (fst u) = drop (Suc n) cs" using IH(3) by (metis drop_Suc tl_drop)
    ultimately show ?case using IH un less_Suc_eq by auto
  qed
  then show ?thesis by simp
qed

section \<open>Sorting with a comparator\<close>

definition strict_weak :: "('a \<Rightarrow> 'a \<Rightarrow> bool) \<Rightarrow> 'a set \<Rightarrow> bool" where
  "strict_weak lt A \<longleftrightarrow>
     (\<forall>x\<in>A. \<not> lt x x) \<and>
     (\<forall>x\<in>A. \<forall>y\<in>A. \<forall>z\<in>A. lt x y \<longrightarrow> lt y z \<longrightarrow> lt x z) \<and>
     (\<forall>x\<in>A. \<forall>y\<in>A. \<forall>z\<in>A. \<not> lt x y \<longrightarrow> \<not> lt y z \<longrightarrow> \<not> lt x z)"

text \<open>What \<open>std::sort\<close> promises when its comparator is a strict weak order: the same elements,
  with no element before one that the comparator puts after it.\<close>

locale std_sort =
  fixes srt :: "('a \<Rightarrow> 'a \<Rightarrow> bool) \<Rightarrow> 'a list \<Rightarrow> 'a list"
  assumes srt_perm: "strict_weak lt (set xs) \<Longrightarrow> mset (srt lt xs) = mset xs"
    and srt_sorted: "strict_weak lt (set xs) \<Longrightarrow> sorted_wrt (\<lambda>x y. \<not> lt y x) (srt lt xs)"
begin

lemma srt_set: "strict_weak lt (set xs) \<Longrightarrow> set (srt lt xs) = set xs"
  by (metis srt_perm set_mset_mset)

lemma srt_length: "strict_weak lt (set xs) \<Longrightarrow> length (srt lt xs) = length xs"
  by (metis srt_perm size_mset)

lemma srt_sum: "strict_weak lt (set xs) \<Longrightarrow> sum_list (map f (srt lt xs)) = (sum_list (map f xs) :: nat)"
  by (metis srt_perm mset_map sum_mset_sum_list)

end

text \<open>An executable sort that meets the contract.\<close>

fun ins :: "('a \<Rightarrow> 'a \<Rightarrow> bool) \<Rightarrow> 'a \<Rightarrow> 'a list \<Rightarrow> 'a list" where
  "ins lt x [] = [x]"
| "ins lt x (y # ys) = (if lt y x then y # ins lt x ys else x # y # ys)"

definition ins_sort :: "('a \<Rightarrow> 'a \<Rightarrow> bool) \<Rightarrow> 'a list \<Rightarrow> 'a list" where
  "ins_sort lt xs = foldr (ins lt) xs []"

lemma mset_ins [simp]: "mset (ins lt x ys) = add_mset x (mset ys)"
  by (induction ys) simp_all

lemma set_ins [simp]: "set (ins lt x ys) = insert x (set ys)"
  by (metis mset_ins set_mset_mset set_mset_add_mset_insert)

lemma mset_ins_sort [simp]: "mset (ins_sort lt xs) = mset xs"
  by (induction xs) (simp_all add: ins_sort_def)

lemma set_ins_sort [simp]: "set (ins_sort lt xs) = set xs"
  by (metis mset_ins_sort set_mset_mset)

lemma strict_weak_subset: "strict_weak lt A \<Longrightarrow> B \<subseteq> A \<Longrightarrow> strict_weak lt B"
  unfolding strict_weak_def by blast

lemma strict_weak_asym: "strict_weak lt A \<Longrightarrow> lt x y \<Longrightarrow> x \<in> A \<Longrightarrow> y \<in> A \<Longrightarrow> \<not> lt y x"
  unfolding strict_weak_def by blast

lemma strict_weak_negtrans:
  "strict_weak lt A \<Longrightarrow> \<not> lt x y \<Longrightarrow> \<not> lt y z \<Longrightarrow> x \<in> A \<Longrightarrow> y \<in> A \<Longrightarrow> z \<in> A \<Longrightarrow> \<not> lt x z"
  unfolding strict_weak_def by blast

lemma sorted_ins:
  assumes "strict_weak lt (insert x (set ys))" and "sorted_wrt (\<lambda>a b. \<not> lt b a) ys"
  shows "sorted_wrt (\<lambda>a b. \<not> lt b a) (ins lt x ys)"
  using assms
proof (induction ys)
  case Nil
  show ?case by simp
next
  case (Cons y ys)
  have sw: "strict_weak lt (insert x (set ys))"
    by (rule strict_weak_subset [OF Cons.prems(1)]) auto
  show ?case
  proof (cases "lt y x")
    case True
    then have "\<not> lt x y" by (rule strict_weak_asym [OF Cons.prems(1)]) simp_all
    with True Cons sw show ?thesis by simp
  next
    case False
    have "\<not> lt z x" if z: "z \<in> set ys" for z
    proof -
      have "\<not> lt z y" using Cons.prems(2) z by simp
      then show ?thesis
        by (rule strict_weak_negtrans [OF Cons.prems(1) _ False]) (use z in simp_all)
    qed
    with False Cons.prems(2) show ?thesis by simp
  qed
qed

lemma sorted_ins_sort:
  "strict_weak lt (set xs) \<Longrightarrow> sorted_wrt (\<lambda>a b. \<not> lt b a) (ins_sort lt xs)"
proof (induction xs)
  case Nil
  show ?case by (simp add: ins_sort_def)
next
  case (Cons x xs)
  have "sorted_wrt (\<lambda>a b. \<not> lt b a) (ins_sort lt xs)"
    using Cons strict_weak_subset [of lt "set (x # xs)" "set xs"] by auto
  moreover have "strict_weak lt (insert x (set (ins_sort lt xs)))"
    using Cons.prems by simp
  ultimately show ?case by (simp add: ins_sort_def sorted_ins)
qed

interpretation ins_std: std_sort ins_sort
  by unfold_locales (simp_all add: sorted_ins_sort)

section \<open>Priority queues\<close>

text \<open>What \<open>std::priority_queue\<close> promises: \<open>pop\<close> takes an element out that the comparator puts before no other
  element; which one of several is not said.\<close>

locale std_priority_queue =
  fixes pop :: "('a \<Rightarrow> 'a \<Rightarrow> bool) \<Rightarrow> 'a list \<Rightarrow> 'a \<times> 'a list"
  assumes pop_perm: "strict_weak lt (set q) \<Longrightarrow> q \<noteq> [] \<Longrightarrow> pop lt q = (x, r) \<Longrightarrow> mset q = add_mset x (mset r)"
    and pop_top: "strict_weak lt (set q) \<Longrightarrow> q \<noteq> [] \<Longrightarrow> pop lt q = (x, r) \<Longrightarrow> y \<in> set q \<Longrightarrow> \<not> lt x y"

text \<open>An executable queue that meets the contract.\<close>

definition pop_max :: "('a \<Rightarrow> 'a \<Rightarrow> bool) \<Rightarrow> 'a list \<Rightarrow> 'a \<times> 'a list" where
  "pop_max lt q = (let s = ins_sort lt q in (last s, butlast s))"

lemma pop_max_ok:
  assumes lt: "strict_weak lt (set q)" and q: "q \<noteq> []" and p: "pop_max lt q = (x, r)"
  shows "mset q = add_mset x (mset r)" "y \<in> set q \<Longrightarrow> \<not> lt x y"
proof -
  have ne: "ins_sort lt q \<noteq> []" using q by (metis mset_ins_sort mset_zero_iff)
  have x: "x = last (ins_sort lt q)" "r = butlast (ins_sort lt q)" using p by (simp_all add: pop_max_def Let_def)
  have s: "ins_sort lt q = r @ [x]" unfolding x by (rule append_butlast_last_id [OF ne, symmetric])
  have "mset q = mset (r @ [x])" unfolding s [symmetric] by simp
  then show "mset q = add_mset x (mset r)" by simp
  assume y: "y \<in> set q"
  have "y \<in> set (r @ [x])" using y unfolding s [symmetric] by simp
  moreover have "sorted_wrt (\<lambda>a b. \<not> lt b a) (r @ [x])" using sorted_ins_sort [OF lt] unfolding s .
  moreover have "\<not> lt x x" using lt q unfolding strict_weak_def s [symmetric]
    by (metis \<open>mset q = mset (r @ [x])\<close> in_set_conv_decomp mset_eq_setD)
  ultimately show "\<not> lt x y" by (auto simp: sorted_wrt_append)
qed

interpretation max_queue: std_priority_queue pop_max
  by unfold_locales (auto dest: pop_max_ok)

section \<open>Searching a string\<close>

text \<open>\<open>std::string::find\<close>: the first position at which the pattern occurs.\<close>

fun str_find :: "'a list \<Rightarrow> 'a list \<Rightarrow> nat option" where
  "str_find [] pat = (if pat = [] then Some 0 else None)"
| "str_find (x # xs) pat =
     (if take (length pat) (x # xs) = pat then Some 0 else map_option Suc (str_find xs pat))"

lemma str_find_None: "str_find xs pat = None \<longleftrightarrow> (\<nexists>us vs. xs = us @ pat @ vs)"
proof (induction xs)
  case Nil
  show ?case by auto
next
  case (Cons x xs)
  have "(\<exists>us vs. x # xs = us @ pat @ vs) \<longleftrightarrow>
    take (length pat) (x # xs) = pat \<or> (\<exists>us vs. xs = us @ pat @ vs)" (is "?l = ?r")
  proof
    assume ?l
    then obtain us vs where uv: "x # xs = us @ pat @ vs" by blast
    then show ?r by (cases us) auto
  next
    assume ?r
    then show ?l by (metis append_Cons append_Nil append_take_drop_id)
  qed
  with Cons show ?case by simp
qed

section \<open>Counting\<close>

definition count_if :: "('a \<Rightarrow> bool) \<Rightarrow> 'a list \<Rightarrow> nat" where
  "count_if p xs = length (filter p xs)"

lemma count_if_simps [simp]:
  "count_if p [] = 0"
  "count_if p (x # xs) = (if p x then Suc (count_if p xs) else count_if p xs)"
  "count_if p (xs @ ys) = count_if p xs + count_if p ys"
  by (simp_all add: count_if_def)

lemma count_if_le: "count_if p xs \<le> length xs"
  by (simp add: count_if_def)

lemma count_if_take_Suc:
  "i < length xs \<Longrightarrow> count_if p (take (Suc i) xs) = count_if p (take i xs) + (if p (xs ! i) then 1 else 0)"
  by (simp add: take_Suc_conv_app_nth)

section \<open>Computations that may not return\<close>

text \<open>\<open>None\<close> is a computation that does not return, or whose bound was too small.\<close>

type_synonym 'a run = "'a res option"

definition run_bind :: "'a run \<Rightarrow> ('a \<Rightarrow> 'b run) \<Rightarrow> 'b run" where
  "run_bind m f = (case m of None \<Rightarrow> None | Some (Inl e) \<Rightarrow> Some (Inl e) | Some (Inr x) \<Rightarrow> f x)"

fun run_fold :: "('a \<Rightarrow> 's \<Rightarrow> 's run) \<Rightarrow> 'a list \<Rightarrow> 's \<Rightarrow> 's run" where
  "run_fold f [] s = Some (Inr s)"
| "run_fold f (x # xs) s = run_bind (f x s) (run_fold f xs)"

abbreviation ret :: "'a \<Rightarrow> 'a run" where
  "ret x \<equiv> Some (Inr x)"

abbreviation fail :: "fault \<Rightarrow> 'a run" where
  "fail e \<equiv> Some (Inl e)"

lemma run_bind_simps [simp]:
  "run_bind None f = None" "run_bind (fail e) f = fail e" "run_bind (ret x) f = f x"
  by (simp_all add: run_bind_def)

lemma run_bind_ret_iff [res_simps]: "run_bind m f = ret y \<longleftrightarrow> (\<exists>x. m = ret x \<and> f x = ret y)"
  by (auto simp: run_bind_def split: option.splits sum.splits)

lemma run_bind_Some: "run_bind m f = Some r \<Longrightarrow> (\<exists>e. m = fail e \<and> r = Inl e) \<or> (\<exists>x. m = ret x \<and> f x = Some r)"
  by (auto simp: run_bind_def split: option.splits sum.splits)

text \<open>\<open>f\<close> may be replaced by \<open>g\<close> when \<open>g\<close> returns whatever \<open>f\<close> returns.\<close>

definition run_le :: "'a run \<Rightarrow> 'a run \<Rightarrow> bool" where
  "run_le m m' \<longleftrightarrow> (\<forall>r. m = Some r \<longrightarrow> m' = Some r)"

lemma run_le_refl [simp, intro]: "run_le m m"
  by (simp add: run_le_def)

lemma run_le_bind: "run_le m m' \<Longrightarrow> (\<And>x. run_le (f x) (f' x)) \<Longrightarrow> run_le (run_bind m f) (run_bind m' f')"
  by (auto simp: run_le_def run_bind_def split: option.splits sum.splits)

lemma run_le_fold: "(\<And>x s. run_le (f x s) (f' x s)) \<Longrightarrow> run_le (run_fold f xs s) (run_fold f' xs s)"
proof (induction xs arbitrary: s)
  case Nil
  show ?case by simp
next
  case (Cons x xs)
  then show ?case by (simp add: run_le_bind)
qed

lemma run_fold_cong [fundef_cong]:
  "xs = ys \<Longrightarrow> s = t \<Longrightarrow> (\<And>x s. x \<in> set ys \<Longrightarrow> f x s = g x s) \<Longrightarrow> run_fold f xs s = run_fold g ys t"
proof (induction xs arbitrary: ys s t)
  case Nil
  then show ?case by auto
next
  case (Cons x xs)
  have "run_fold f xs u = run_fold g xs u" for u by (rule Cons.IH) (use Cons.prems in auto)
  with Cons.prems show ?case by (auto simp: run_bind_def split: option.split sum.split)
qed

text \<open>A computation returns, and when it does not end in a fault its result has a property.\<close>

definition run_post :: "'a run \<Rightarrow> ('a \<Rightarrow> bool) \<Rightarrow> bool" where
  "run_post m Q \<longleftrightarrow> m \<noteq> None \<and> (\<forall>x. m = ret x \<longrightarrow> Q x)"

lemma run_post_simps [simp]:
  "run_post (ret x) Q \<longleftrightarrow> Q x" "run_post (fail e) Q" "\<not> run_post None Q"
  by (simp_all add: run_post_def)

lemma run_post_bind: "run_post m R \<Longrightarrow> (\<And>x. R x \<Longrightarrow> run_post (f x) Q) \<Longrightarrow> run_post (run_bind m f) Q"
  by (auto simp: run_post_def run_bind_def split: option.splits sum.splits)

lemma run_post_pure: "(\<And>x. r = Inr x \<Longrightarrow> Q x) \<Longrightarrow> run_post (Some r) Q"
  by (simp add: run_post_def)

lemma run_post_rbind: "(\<And>x. m = Inr x \<Longrightarrow> run_post (Some (f x)) Q) \<Longrightarrow> run_post (Some (rbind m f)) Q"
  by (cases m) auto

lemma run_post_mono: "run_post m R \<Longrightarrow> (\<And>x. R x \<Longrightarrow> Q x) \<Longrightarrow> run_post m Q"
  by (auto simp: run_post_def)

text \<open>A recursive call may stand inside a sequence of computations.\<close>

lemma run_bind_mono [partial_function_mono]:
  fixes B :: "('a \<Rightarrow> 'b option) \<Rightarrow> 'c run"
  assumes "mono_option B" and "\<And>y. mono_option (\<lambda>f. C y f)"
  shows "mono_option (\<lambda>f. run_bind (B f) (\<lambda>y. C y f))"
proof (rule monotoneI)
  fix f g :: "'a \<Rightarrow> 'b option" assume fg: "option.le_fun f g"
  have B: "option_ord (B f) (B g)" using assms(1) by (rule monotoneD) (rule fg)
  have C: "option_ord (C y f) (C y g)" for y using assms(2) by (rule monotoneD) (rule fg)
  show "option_ord (run_bind (B f) (\<lambda>y. C y f)) (run_bind (B g) (\<lambda>y. C y g))"
  proof (cases "B f")
    case None
    then show ?thesis by (simp add: flat_ord_def)
  next
    case (Some r)
    then have "B g = Some r" using B by (simp add: flat_ord_def)
    with Some C show ?thesis by (cases r) (simp_all add: flat_ord_def)
  qed
qed

text \<open>A loop with a condition and a body.\<close>

partial_function (option) while_run :: "('s \<Rightarrow> bool) \<Rightarrow> ('s \<Rightarrow> 's run) \<Rightarrow> 's \<Rightarrow> 's run" where
  "while_run b f s = (if b s then run_bind (f s) (\<lambda>t. while_run b f t) else Some (Inr s))"

lemma while_run_end [simp]: "\<not> b s \<Longrightarrow> while_run b f s = ret s"
  by (simp add: while_run.simps)

lemma while_run_step: "b s \<Longrightarrow> while_run b f s = run_bind (f s) (while_run b f)"
  by (subst while_run.simps) simp

text \<open>It returns if its body does, keeps an invariant and makes a measure smaller.\<close>

lemma while_run_total:
  fixes m :: "'s \<Rightarrow> nat"
  assumes "P s" and "\<And>s. P s \<Longrightarrow> b s \<Longrightarrow> \<exists>t. f s = ret t \<and> P t \<and> m t < m s"
  shows "\<exists>t. while_run b f s = ret t \<and> P t \<and> \<not> b t"
  using assms(1)
proof (induction "m s" arbitrary: s rule: less_induct)
  case less
  show ?case
  proof (cases "b s")
    case True
    with assms(2) less.prems obtain t where t: "f s = ret t" "P t" "m t < m s" by blast
    from less.hyps [OF t(3,2)] t(1) True show ?thesis by (simp add: while_run_step)
  next
    case False
    with less.prems show ?thesis by simp
  qed
qed

text \<open>The same for a body that may fault.\<close>

lemma while_run_post:
  fixes m :: "'s \<Rightarrow> nat"
  assumes "P s" and "\<And>s. P s \<Longrightarrow> b s \<Longrightarrow> run_post (f s) (\<lambda>t. P t \<and> m t < m s)"
  shows "run_post (while_run b f s) (\<lambda>t. P t \<and> \<not> b t)"
  using assms(1)
proof (induction "m s" arbitrary: s rule: less_induct)
  case less
  show ?case
  proof (cases "b s")
    case True
    show ?thesis unfolding while_run_step [of b s f, OF True]
      by (rule run_post_bind [OF assms(2) [OF less.prems True]]) (use less.hyps in blast)
  next
    case False
    with less.prems show ?thesis by simp
  qed
qed

text \<open>It runs forever if its body leads from every state of a set into the set again.\<close>

lemma while_run_diverges:
  assumes "P s" and step: "\<And>s. P s \<Longrightarrow> b s \<and> (\<exists>t. f s = ret t \<and> P t)"
  shows "while_run b f s = None"
proof -
  have "b = b \<longrightarrow> f = f \<longrightarrow> \<not> P u" if "while_run b f u = Some y" for u y
  proof (rule while_run.raw_induct [where P = "\<lambda>b' f' u y. b' = b \<longrightarrow> f' = f \<longrightarrow> \<not> P u", OF _ that], intro impI notI)
    fix rec b' f' u y
    assume rec: "\<And>b' f' u y. rec b' f' u = Some y \<Longrightarrow> b' = b \<longrightarrow> f' = f \<longrightarrow> \<not> P u"
      and run: "(if b' u then run_bind (f' u) (rec b' f') else ret u) = Some y" and e: "b' = b" "f' = f" and u: "P u"
    from step [OF u] obtain t where t: "b u" "f u = ret t" "P t" by blast
    then have "rec b f t = Some y" using run e by simp
    with rec t(3) show False by blast
  qed
  with assms(1) show ?thesis by (metis not_None_eq)
qed

end
