(* ===== verification/Batch.thy ===== *)
theory Batch
  imports Prelude "HOL-Library.List_Lexorder" "HOL-Library.Product_Lexorder"
begin

text \<open>
  Batches of tokens: \<^verbatim>\<open>llama-batch.h\<close> and \<^verbatim>\<open>llama-batch.cpp\<close>.

  A \<open>llama_batch\<close> is what a client submits; \<open>llama_sbatch\<close> cuts it into micro-batches
  (\<open>llama_ubatch\<close>) with \<open>split_simple\<close>, \<open>split_equal\<close> or \<open>split_seq\<close>. A pointer to an array
  is the list of values that can be read from it, a pointer the code compares with
  \<open>nullptr\<close> an option. Floats are only copied here, so they are their bit patterns.
  The \<open>ubuf_\<close> fields are the buffers a micro-batch points into; a write through the
  micro-batch is a write to them.

  \<open>std::sort\<close> does not fix the order of equivalent elements, so the two sorts of
  \<open>from_batch\<close> are arguments (\<open>srt_ids\<close>, \<open>srt_seq\<close>) with the contract \<open>std_sort\<close>.
\<close>

section \<open>Data\<close>

record llama_batch =
  b_n_tokens :: int
  b_token    :: "int list option"
  b_embd     :: "nat list option"
  b_n_embd   :: int
  b_pos      :: "int list option"
  b_n_seq_id :: "int list option"
  b_seq_id   :: "int list list option"
  b_logits   :: "int list option"

record llama_ubatch =
  ub_equal_seqs   :: bool
  ub_n_tokens     :: nat
  ub_n_seq_tokens :: nat
  ub_n_seqs       :: nat
  ub_token        :: "int list option"
  ub_embd         :: "nat list option"
  ub_pos          :: "int list option"
  ub_n_seq_id     :: "int list"
  ub_seq_id       :: "int list option list"
  ub_output       :: "int list"

record llama_sbatch_seq =
  sq_n_seq_id :: int
  sq_seq_id   :: "int list option"
  sq_offset   :: nat
  sq_length   :: nat

record llama_sbatch =
  sb_n_tokens   :: nat
  sb_n_embd     :: nat
  sb_logits_all :: bool
  sb_ids        :: "nat list"
  sb_out_ids    :: "nat list"
  sb_seq        :: "llama_sbatch_seq list"
  sb_batch      :: "llama_batch option"
  ubuf_token    :: "int list"
  ubuf_embd     :: "nat list"
  ubuf_pos      :: "int list"
  ubuf_n_seq_id :: "int list"
  ubuf_seq_id   :: "int list option list"
  ubuf_output   :: "int list"

section \<open>Building a micro-batch\<close>

text \<open>\<open>std::vector::resize\<close> with value-initialised new elements.\<close>

definition vec_resize :: "nat \<Rightarrow> 'a \<Rightarrow> 'a list \<Rightarrow> 'a list" where
  "vec_resize n d xs = take n xs @ replicate (n - length xs) d"

text \<open>The first loop of \<open>reserve_ubatch\<close>: pop the empty sequences at the end.\<close>

fun pop_empty :: "nat \<Rightarrow> llama_sbatch_seq list \<Rightarrow> llama_sbatch_seq list" where
  "pop_empty 0 sq = sq"
| "pop_empty (Suc i) sq = (if sq_length (sq ! i) = 0 then pop_empty i (butlast sq) else sq)"

definition reserve_ubatch :: "llama_sbatch \<Rightarrow> nat \<Rightarrow> bool \<Rightarrow> llama_sbatch \<times> llama_ubatch" where
  "reserve_ubatch sb n_ubatch has_embd =
    (let sb = sb\<lparr>sb_seq := pop_empty (length (sb_seq sb)) (sb_seq sb),
                 ubuf_token := vec_resize (if \<not> has_embd then n_ubatch else 0) 0 (ubuf_token sb),
                 ubuf_embd := vec_resize (if has_embd then sb_n_embd sb * n_ubatch else 0) 0 (ubuf_embd sb),
                 ubuf_pos := vec_resize n_ubatch 0 (ubuf_pos sb),
                 ubuf_n_seq_id := vec_resize n_ubatch 0 (ubuf_n_seq_id sb),
                 ubuf_seq_id := vec_resize n_ubatch None (ubuf_seq_id sb),
                 ubuf_output := vec_resize n_ubatch 0 (ubuf_output sb)\<rparr>
     in (sb, \<lparr>ub_equal_seqs = True, ub_n_tokens = 0, ub_n_seq_tokens = 0, ub_n_seqs = 0,
              ub_token = (if \<not> has_embd then Some (ubuf_token sb) else None),
              ub_embd = (if has_embd then Some (ubuf_embd sb) else None),
              ub_pos = Some (ubuf_pos sb), ub_n_seq_id = ubuf_n_seq_id sb,
              ub_seq_id = ubuf_seq_id sb, ub_output = ubuf_output sb\<rparr>))"

text \<open>A read or write through a pointer that may be null.\<close>

definition deref :: "'a option \<Rightarrow> 'a res" where
  "deref p = (case p of None \<Rightarrow> Inl NullDeref | Some x \<Rightarrow> Inr x)"

text \<open>\<open>dst[base + i] = src[ids[offset + i]]\<close> for \<open>i < length\<close>.\<close>

definition gather :: "nat list \<Rightarrow> nat \<Rightarrow> nat \<Rightarrow> 'a list \<Rightarrow> nat \<Rightarrow> 'a list \<Rightarrow> 'a list res" where
  "gather ids off len src base dst =
     rfold (\<lambda>i d. rbind (rnth ids (off + i)) (\<lambda>id. rbind (rnth src id) (\<lambda>x. rupd d (base + i) x)))
       [0..<len] dst"

text \<open>\<open>memcpy\<close> between two arrays, in elements.\<close>

definition rcopy :: "'a list \<Rightarrow> nat \<Rightarrow> 'a list \<Rightarrow> nat \<Rightarrow> nat \<Rightarrow> 'a list res" where
  "rcopy dst di src si n =
     (if di + n \<le> length dst \<and> si + n \<le> length src
      then Inr (take di dst @ take n (drop si src) @ drop (di + n) dst) else Inl OutOfBounds)"

definition put_token :: "llama_batch \<Rightarrow> nat list \<Rightarrow> llama_sbatch_seq \<Rightarrow> nat \<Rightarrow> llama_ubatch \<Rightarrow> llama_ubatch res" where
  "put_token b ids s len ub =
    (case b_token b of
       None \<Rightarrow> Inr (ub\<lparr>ub_token := None\<rparr>)
     | Some src \<Rightarrow>
         if ub_equal_seqs ub
         then if len = 0 then Inr ub
              else rbind (deref (ub_token ub)) (\<lambda>dst.
                   rbind (gather ids (sq_offset s) len src (ub_n_tokens ub) dst) (\<lambda>d.
                   Inr (ub\<lparr>ub_token := Some d\<rparr>)))
         else Inr (ub\<lparr>ub_token := Some (drop (sq_offset s) src)\<rparr>))"

definition put_embd :: "llama_batch \<Rightarrow> nat \<Rightarrow> nat list \<Rightarrow> llama_sbatch_seq \<Rightarrow> nat \<Rightarrow> llama_ubatch \<Rightarrow> llama_ubatch res" where
  "put_embd b n_embd ids s len ub =
    (case b_embd b of
       None \<Rightarrow> Inr (ub\<lparr>ub_embd := None\<rparr>)
     | Some src \<Rightarrow>
         if ub_equal_seqs ub
         then if len = 0 then Inr ub
              else rbind (deref (ub_embd ub)) (\<lambda>dst.
                   rbind (rfold (\<lambda>i d. rbind (rnth ids (sq_offset s + i)) (\<lambda>id.
                       rcopy d (n_embd * (ub_n_tokens ub + i)) src (n_embd * id) n_embd)) [0..<len] dst) (\<lambda>d.
                   Inr (ub\<lparr>ub_embd := Some d\<rparr>)))
         else Inr (ub\<lparr>ub_embd := Some (drop (n_embd * sq_offset s) src)\<rparr>))"

definition put_pos :: "llama_batch \<Rightarrow> nat list \<Rightarrow> llama_sbatch_seq \<Rightarrow> nat \<Rightarrow> llama_ubatch \<Rightarrow> llama_ubatch res" where
  "put_pos b ids s len ub =
    (if ub_equal_seqs ub
     then if len = 0 then Inr ub
          else rbind (deref (b_pos b)) (\<lambda>src. rbind (deref (ub_pos ub)) (\<lambda>dst.
               rbind (gather ids (sq_offset s) len src (ub_n_tokens ub) dst) (\<lambda>d.
               Inr (ub\<lparr>ub_pos := Some d\<rparr>))))
     else Inr (ub\<lparr>ub_pos := map_option (drop (sq_offset s)) (b_pos b)\<rparr>))"

definition put_seq :: "llama_batch \<Rightarrow> llama_sbatch_seq \<Rightarrow> nat \<Rightarrow> llama_ubatch \<Rightarrow> llama_ubatch res" where
  "put_seq b s len ub =
    (if ub_equal_seqs ub
     then rbind (rupd (ub_n_seq_id ub) (ub_n_seqs ub) (sq_n_seq_id s)) (\<lambda>ns.
          rbind (case sq_seq_id s of None \<Rightarrow> Inr (ub_seq_id ub)
                 | Some p \<Rightarrow> rupd (ub_seq_id ub) (ub_n_seqs ub) (Some p)) (\<lambda>sq.
          Inr (ub\<lparr>ub_n_seq_id := ns, ub_seq_id := sq\<rparr>)))
     else rbind (case b_n_seq_id b of
                   Some l \<Rightarrow> Inr (drop (sq_offset s) l)
                 | None \<Rightarrow> rfold (\<lambda>i d. rupd d (ub_n_seqs ub + i) 1) [0..<len] (ub_n_seq_id ub)) (\<lambda>ns.
          Inr (ub\<lparr>ub_n_seq_id := ns,
                  ub_seq_id := (case b_seq_id b of Some l \<Rightarrow> map Some (drop (sq_offset s) l)
                                | None \<Rightarrow> ub_seq_id ub)\<rparr>)))"

text \<open>The output flags of one micro-batch, and the batch indices they select.\<close>

definition put_output :: "llama_batch \<Rightarrow> bool \<Rightarrow> nat list \<Rightarrow> llama_sbatch_seq \<Rightarrow> nat \<Rightarrow> nat list \<Rightarrow> llama_ubatch
    \<Rightarrow> (nat list \<times> llama_ubatch) res" where
  "put_output b logits_all ids s len out_ids ub =
    (if logits_all then
       rbind (rfold (\<lambda>i (outs, d). rbind (rupd d (ub_n_tokens ub + i) 1) (\<lambda>d.
                rbind (rnth ids (sq_offset s + i)) (\<lambda>id. Inr (outs @ [id], d)))) [0..<len] (out_ids, ub_output ub))
         (\<lambda>(outs, d). Inr (outs, ub\<lparr>ub_output := d\<rparr>))
     else case b_logits b of
       Some lg \<Rightarrow>
         if ub_equal_seqs ub then
           rbind (rfold (\<lambda>i (outs, d). rbind (rnth ids (sq_offset s + i)) (\<lambda>id. rbind (rnth lg id) (\<lambda>is_output.
                    rbind (rupd d (ub_n_tokens ub + i) is_output) (\<lambda>d.
                    Inr (if is_output \<noteq> 0 then outs @ [id] else outs, d))))) [0..<len] (out_ids, ub_output ub))
             (\<lambda>(outs, d). Inr (outs, ub\<lparr>ub_output := d\<rparr>))
         else
           rbind (rfold (\<lambda>i outs. rbind (rnth (drop (sq_offset s) lg) i) (\<lambda>x.
                    Inr (if x \<noteq> 0 then outs @ [sq_offset s + i] else outs))) [0..<len] out_ids)
             (\<lambda>outs. Inr (outs, ub\<lparr>ub_output := drop (sq_offset s) lg\<rparr>))
     | None \<Rightarrow>
         rbind (rfold (\<lambda>i (outs, d). rbind (rnth ids (sq_offset s + i)) (\<lambda>id.
                  let is_last = (if id = length ids - 1 then 1 else 0) in
                  rbind (rupd d (ub_n_tokens ub + i) is_last) (\<lambda>d.
                  Inr (if is_last \<noteq> 0 then outs @ [id] else outs, d)))) [0..<len] (out_ids, ub_output ub))
           (\<lambda>(outs, d). Inr (outs, ub\<lparr>ub_output := d\<rparr>)))"

text \<open>Writes through the micro-batch's pointers are visible in the buffers they point into.\<close>

definition sync_buffers :: "llama_ubatch \<Rightarrow> llama_sbatch \<Rightarrow> llama_sbatch" where
  "sync_buffers ub sb =
    (if ub_equal_seqs ub
     then sb\<lparr>ubuf_token := (case ub_token ub of Some t \<Rightarrow> t | None \<Rightarrow> ubuf_token sb),
             ubuf_embd := (case ub_embd ub of Some t \<Rightarrow> t | None \<Rightarrow> ubuf_embd sb),
             ubuf_pos := (case ub_pos ub of Some t \<Rightarrow> t | None \<Rightarrow> ubuf_pos sb),
             ubuf_n_seq_id := ub_n_seq_id ub, ubuf_seq_id := ub_seq_id ub, ubuf_output := ub_output ub\<rparr>
     else sb\<lparr>ubuf_n_seq_id := (case sb_batch sb of
               Some b \<Rightarrow> (if b_n_seq_id b = None then ub_n_seq_id ub else ubuf_n_seq_id sb)
             | None \<Rightarrow> ubuf_n_seq_id sb),
             ubuf_output := (case sb_batch sb of
               Some b \<Rightarrow> (if sb_logits_all sb \<or> b_logits b = None then ub_output ub else ubuf_output sb)
             | None \<Rightarrow> ubuf_output sb)\<rparr>)"

text \<open>\<open>add_seq_to_ubatch\<close>; the sequence argument is a reference to element \<open>k\<close> of \<open>seq\<close>.\<close>

definition add_seq_to_ubatch :: "llama_sbatch \<Rightarrow> llama_ubatch \<Rightarrow> nat \<Rightarrow> nat \<Rightarrow> (llama_sbatch \<times> llama_ubatch) res" where
  "add_seq_to_ubatch sb ub k len =
    (case sb_batch sb of None \<Rightarrow> Inl GgmlAssert | Some b \<Rightarrow>
     rbind (rnth (sb_seq sb) k) (\<lambda>s.
     rbind (rguard (len \<le> sq_length s) GgmlAssert) (\<lambda>_.
     rbind (rguard (sq_n_seq_id s = 0 \<or> ub_n_seqs ub = 0 \<or> len = ub_n_tokens ub div ub_n_seqs ub) GgmlAssert) (\<lambda>_.
     rbind (rguard ((sq_n_seq_id s \<noteq> 0) = ub_equal_seqs ub) GgmlAssert) (\<lambda>_.
     rbind (put_token b (sb_ids sb) s len ub) (\<lambda>ub.
     rbind (put_embd b (sb_n_embd sb) (sb_ids sb) s len ub) (\<lambda>ub.
     rbind (put_pos b (sb_ids sb) s len ub) (\<lambda>ub.
     rbind (put_seq b s len ub) (\<lambda>ub.
     rbind (put_output b (sb_logits_all sb) (sb_ids sb) s len (sb_out_ids sb) ub) (\<lambda>(out_ids, ub).
     let ub = (if ub_n_tokens ub = 0 \<and> ub_n_seqs ub = 0
               then ub\<lparr>ub_n_seq_tokens := (if ub_equal_seqs ub then len else 1)\<rparr> else ub);
         ub = ub\<lparr>ub_n_tokens := ub_n_tokens ub + len,
                 ub_n_seqs := ub_n_seqs ub + (if ub_equal_seqs ub then 1 else len)\<rparr>;
         sb = sync_buffers ub sb;
         sb = sb\<lparr>sb_out_ids := out_ids,
                 sb_seq := (sb_seq sb)[k := s\<lparr>sq_offset := sq_offset s + len, sq_length := sq_length s - len\<rparr>],
                 sb_n_tokens := sb_n_tokens sb - len\<rparr>
     in rbind (rguard (ub_n_tokens ub = ub_n_seq_tokens ub * ub_n_seqs ub) GgmlAssert) (\<lambda>_.
        Inr (sb, ub))))))))))))"

section \<open>The three splits\<close>

definition has_embd :: "llama_sbatch \<Rightarrow> bool res" where
  "has_embd sb = (case sb_batch sb of None \<Rightarrow> Inl NullDeref | Some b \<Rightarrow> Inr (b_embd b \<noteq> None))"

definition split_simple :: "llama_sbatch \<Rightarrow> nat \<Rightarrow> (llama_sbatch \<times> llama_ubatch) res" where
  "split_simple sb n_ubatch =
    rbind (has_embd sb) (\<lambda>he.
    let n_ubatch = (if sb_n_tokens sb < n_ubatch then sb_n_tokens sb else n_ubatch);
        (sb, ub) = reserve_ubatch sb n_ubatch he;
        ub = ub\<lparr>ub_equal_seqs := False\<rparr>
    in (case sb_seq sb of
          [] \<Rightarrow> Inr (sb, ub)
        | s # rest \<Rightarrow>
            let len = (if sq_length s < n_ubatch then sq_length s else n_ubatch) in
            rbind (rguard (length (sb_seq sb) = 1 \<and> sq_n_seq_id s = 0) GgmlAssert) (\<lambda>_.
            add_seq_to_ubatch sb ub 0 len)))"

fun split_equal_loop :: "nat \<Rightarrow> nat \<Rightarrow> nat \<Rightarrow> nat \<Rightarrow> llama_sbatch \<Rightarrow> llama_ubatch \<Rightarrow> (llama_sbatch \<times> llama_ubatch) res" where
  "split_equal_loop 0 n_ubatch len n_in sb ub = Inr (sb, ub)"
| "split_equal_loop (Suc i) n_ubatch len n_in sb ub =
     rbind (rnth (sb_seq sb) i) (\<lambda>s.
     rbind (rguard (sq_length s > 0) GgmlAssert) (\<lambda>_.
     let len = (if len = 0 then (if sq_length s < n_ubatch then sq_length s else n_ubatch) else len) in
     rbind (add_seq_to_ubatch sb ub i len) (\<lambda>(sb, ub).
     let n_in = n_in + len in
     if sq_n_seq_id s > 1 then Inr (sb, ub)
     else if len + n_in > n_ubatch then Inr (sb, ub)
     else split_equal_loop i n_ubatch len n_in sb ub)))"

definition split_equal :: "llama_sbatch \<Rightarrow> nat \<Rightarrow> (llama_sbatch \<times> llama_ubatch) res" where
  "split_equal sb n_ubatch =
    rbind (has_embd sb) (\<lambda>he.
    let n_ubatch = (if sb_n_tokens sb < n_ubatch then sb_n_tokens sb else n_ubatch);
        (sb, ub) = reserve_ubatch sb n_ubatch he
    in (case sb_seq sb of
          [] \<Rightarrow> Inr (sb, ub)
        | s # rest \<Rightarrow>
            rbind (rguard (sq_n_seq_id s > 0) GgmlAssert) (\<lambda>_.
            split_equal_loop (length (sb_seq sb)) n_ubatch 0 0 sb ub)))"

definition split_seq :: "llama_sbatch \<Rightarrow> nat \<Rightarrow> (llama_sbatch \<times> llama_ubatch) res" where
  "split_seq sb n_ubatch =
    rbind (has_embd sb) (\<lambda>he.
    let n_ubatch = (if sb_n_tokens sb < n_ubatch then sb_n_tokens sb else n_ubatch);
        (sb, ub) = reserve_ubatch sb n_ubatch he
    in (if sb_seq sb = [] then Inr (sb, ub)
        else let s = last (sb_seq sb);
                 len = (if sq_length s < n_ubatch then sq_length s else n_ubatch) in
             rbind (rguard (sq_n_seq_id s > 0) GgmlAssert) (\<lambda>_.
             add_seq_to_ubatch sb ub (length (sb_seq sb) - 1) len)))"

section \<open>Sorting a batch into sequences\<close>

definition batch_n_seq :: "llama_batch \<Rightarrow> nat \<Rightarrow> int" where
  "batch_n_seq b a = (case b_n_seq_id b of Some l \<Rightarrow> l ! a | None \<Rightarrow> 1)"

text \<open>The loop of the comparator over the sequence ids: the first difference decides.\<close>

fun seq_ids_less :: "int list \<Rightarrow> int list \<Rightarrow> nat \<Rightarrow> bool option" where
  "seq_ids_less (x # xs) (y # ys) (Suc n) = (if x \<noteq> y then Some (x < y) else seq_ids_less xs ys n)"
| "seq_ids_less _ _ _ = None"

definition ids_less :: "llama_batch \<Rightarrow> nat \<Rightarrow> nat \<Rightarrow> bool" where
  "ids_less b a c =
    (if batch_n_seq b a = batch_n_seq b c then
       (case (case b_seq_id b of Some l \<Rightarrow> seq_ids_less (l ! a) (l ! c) (nat (batch_n_seq b a)) | None \<Rightarrow> None) of
          Some r \<Rightarrow> r
        | None \<Rightarrow> (case b_pos b of Some p \<Rightarrow> p ! a < p ! c | None \<Rightarrow> a < c))
     else batch_n_seq b a > batch_n_seq b c)"

definition seq_less :: "llama_sbatch_seq \<Rightarrow> llama_sbatch_seq \<Rightarrow> bool" where
  "seq_less a b = (if sq_n_seq_id a = sq_n_seq_id b then sq_length a > sq_length b
                   else sq_n_seq_id a < sq_n_seq_id b)"

text \<open>The comparison of a token's sequence ids with those of the last run.\<close>

definition same_seq :: "int \<Rightarrow> int list \<Rightarrow> llama_sbatch_seq \<Rightarrow> bool res" where
  "same_seq n_seqs seq_ids lst =
    (if n_seqs \<noteq> sq_n_seq_id lst then Inr False
     else rfold (\<lambda>j same. if \<not> same then Inr False
            else rbind (rnth seq_ids j) (\<lambda>x. rbind (deref (sq_seq_id lst)) (\<lambda>l. rbind (rnth l j) (\<lambda>y. Inr (x = y)))))
          [0..<nat n_seqs] True)"

definition init_seq_step :: "llama_batch \<Rightarrow> nat list \<Rightarrow> nat \<Rightarrow> llama_sbatch_seq list \<times> bool \<Rightarrow> (llama_sbatch_seq list \<times> bool) res" where
  "init_seq_step b ids i st =
    (case st of (sq, has_last) \<Rightarrow>
     rbind (rnth ids i) (\<lambda>bi.
     rbind (deref (b_n_seq_id b)) (\<lambda>ns. rbind (rnth ns bi) (\<lambda>n_seqs.
     rbind (deref (b_seq_id b)) (\<lambda>ss. rbind (rnth ss bi) (\<lambda>seq_ids.
     rbind (if has_last then same_seq n_seqs seq_ids (last sq) else Inr False) (\<lambda>same.
     if same then Inr (butlast sq @ [(last sq)\<lparr>sq_length := sq_length (last sq) + 1\<rparr>], True)
     else Inr (sq @ [\<lparr>sq_n_seq_id = n_seqs, sq_seq_id = Some seq_ids, sq_offset = i, sq_length = 1\<rparr>], True))))))))"

definition from_batch :: "((nat \<Rightarrow> nat \<Rightarrow> bool) \<Rightarrow> nat list \<Rightarrow> nat list) \<Rightarrow>
    ((llama_sbatch_seq \<Rightarrow> llama_sbatch_seq \<Rightarrow> bool) \<Rightarrow> llama_sbatch_seq list \<Rightarrow> llama_sbatch_seq list) \<Rightarrow>
    llama_sbatch \<Rightarrow> llama_batch \<Rightarrow> nat \<Rightarrow> bool \<Rightarrow> bool \<Rightarrow> llama_sbatch res" where
  "from_batch srt_ids srt_seq sb batch n_embd simple_split logits_all =
    rbind (rguard (b_n_tokens batch \<ge> 0) GgmlAssert) (\<lambda>_.
    let n = nat (b_n_tokens batch);
        sb = sb\<lparr>sb_batch := Some batch, sb_n_embd := n_embd, sb_logits_all := logits_all,
                sb_n_tokens := n, sb_ids := [0..<n], sb_out_ids := []\<rparr>
    in if simple_split
       then Inr (sb\<lparr>sb_seq := [\<lparr>sq_n_seq_id = 0, sq_seq_id = None, sq_offset = 0, sq_length = n\<rparr>]\<rparr>)
       else let ids = srt_ids (ids_less batch) (sb_ids sb) in
            rbind (rfold (init_seq_step batch ids) [0..<n] (sb_seq sb, False)) (\<lambda>(sq, _).
            Inr (sb\<lparr>sb_ids := ids, sb_seq := srt_seq seq_less sq\<rparr>)))"

section \<open>Completing a client's batch\<close>

definition llama_batch_allocr :: "llama_batch \<Rightarrow> int \<Rightarrow> llama_batch res" where
  "llama_batch_allocr b p0 =
    rbind (rguard (b_n_tokens b > 0) GgmlAssert) (\<lambda>_.
    let n = nat (b_n_tokens b) in
    rbind (case b_pos b of Some p \<Rightarrow> Inr (Some p)
           | None \<Rightarrow> rbind (rfold (\<lambda>i xs. rbind (i32_add (int i) p0) (\<lambda>x. Inr (xs @ [x]))) [0..<n] []) (\<lambda>p. Inr (Some p))) (\<lambda>pos.
    Inr (b\<lparr>b_pos := pos,
           b_n_seq_id := (case b_n_seq_id b of Some l \<Rightarrow> Some l | None \<Rightarrow> Some (replicate n 1)),
           b_seq_id := (case b_seq_id b of Some l \<Rightarrow> Some l | None \<Rightarrow> Some (replicate n [0])),
           b_logits := (case b_logits b of Some l \<Rightarrow> Some l
                        | None \<Rightarrow> Some ((replicate n 0)[n - 1 := 1]))\<rparr>)))"

definition llama_batch_get_one :: "int list \<Rightarrow> int \<Rightarrow> llama_batch" where
  "llama_batch_get_one tokens n_tokens =
     \<lparr>b_n_tokens = n_tokens, b_token = Some tokens, b_embd = None, b_n_embd = 0,
      b_pos = None, b_n_seq_id = None, b_seq_id = None, b_logits = None\<rparr>"

section \<open>Correctness of one step\<close>

text \<open>The batch indices a sequence still has to deliver, and those of the whole \<open>llama_sbatch\<close>.\<close>

definition seq_rest :: "nat list \<Rightarrow> llama_sbatch_seq \<Rightarrow> nat list" where
  "seq_rest ids s = take (sq_length s) (drop (sq_offset s) ids)"

definition sb_rest :: "llama_sbatch \<Rightarrow> nat list" where
  "sb_rest sb = concat (map (seq_rest (sb_ids sb)) (sb_seq sb))"

text \<open>A completed batch of \<open>n\<close> tokens: one of tokens and embeddings, positions and sequence ids for
  every token, every array long enough.\<close>

definition batch_ok :: "llama_batch \<Rightarrow> nat \<Rightarrow> nat \<Rightarrow> bool" where
  "batch_ok b n n_embd \<longleftrightarrow>
     (case b_token b of Some t \<Rightarrow> n \<le> length t \<and> b_embd b = None | None \<Rightarrow> True) \<and>
     (case b_embd b of Some e \<Rightarrow> n_embd * n \<le> length e | None \<Rightarrow> True) \<and>
     (case b_pos b of Some p \<Rightarrow> n \<le> length p | None \<Rightarrow> False) \<and>
     (case b_n_seq_id b of Some l \<Rightarrow> n \<le> length l \<and> (\<forall>x \<in> set (take n l). x > 0) | None \<Rightarrow> False) \<and>
     (case (b_n_seq_id b, b_seq_id b) of
        (Some l, Some q) \<Rightarrow> n \<le> length q \<and> (\<forall>i < n. int (length (q ! i)) = l ! i) | _ \<Rightarrow> False) \<and>
     (case b_logits b of Some l \<Rightarrow> n \<le> length l | None \<Rightarrow> True)"

text \<open>Which batch indices get an output row.\<close>

definition wants_output :: "llama_batch \<Rightarrow> bool \<Rightarrow> nat \<Rightarrow> nat \<Rightarrow> bool" where
  "wants_output b logits_all n k \<longleftrightarrow>
     logits_all \<or> (case b_logits b of Some lg \<Rightarrow> lg ! k \<noteq> 0 | None \<Rightarrow> k = n - 1)"

text \<open>The state between two splits: indices in range, every run inside the index vector, the token
  counter equal to what the runs still hold.\<close>

definition sb_inv :: "llama_sbatch \<Rightarrow> bool" where
  "sb_inv sb \<longleftrightarrow>
     (\<exists>b. sb_batch sb = Some b \<and> batch_ok b (length (sb_ids sb)) (sb_n_embd sb)) \<and>
     (\<forall>id \<in> set (sb_ids sb). id < length (sb_ids sb)) \<and>
     (\<forall>s \<in> set (sb_seq sb). sq_length s > 0 \<longrightarrow> sq_offset s + sq_length s \<le> length (sb_ids sb)) \<and>
     sum_list (map sq_length (sb_seq sb)) = sb_n_tokens sb"

lemma length_vec_resize [simp]: "length (vec_resize n d xs) = n"
  by (simp add: vec_resize_def)

lemma length_seq_rest:
  "sq_offset s + sq_length s \<le> length ids \<Longrightarrow> length (seq_rest ids s) = sq_length s"
  by (simp add: seq_rest_def)

lemma seq_rest_empty [simp]: "sq_length s = 0 \<Longrightarrow> seq_rest ids s = []"
  by (simp add: seq_rest_def)

lemma splice_step:
  assumes "base + Suc i \<le> length dst" and "length ys = i"
  shows "(take base dst @ ys @ drop (base + i) dst)[base + i := x] =
    take base dst @ (ys @ [x]) @ drop (base + Suc i) dst"
proof -
  have "drop (base + i) dst = dst ! (base + i) # drop (base + Suc i) dst"
    using assms(1) by (simp add: Cons_nth_drop_Suc)
  with assms show ?thesis by (simp add: list_update_append)
qed

lemma gather_eq:
  assumes "off + len \<le> length ids" "base + len \<le> length dst" "\<forall>id \<in> set ids. id < length src"
  shows "gather ids off len src base dst =
    Inr (take base dst @ map (\<lambda>id. src ! id) (take len (drop off ids)) @ drop (base + len) dst)"
proof -
  let ?g = "\<lambda>i. take base dst @ map (\<lambda>id. src ! id) (take i (drop off ids)) @ drop (base + i) dst"
  have "rfold (\<lambda>i d. rbind (rnth ids (off + i)) (\<lambda>id. rbind (rnth src id) (\<lambda>x. rupd d (base + i) x)))
      [0..<len] (?g 0) = Inr (?g len)"
  proof (rule rfold_upt_closed)
    fix i assume i: "i < len"
    with assms show "rbind (rnth ids (off + i)) (\<lambda>id. rbind (rnth src id) (\<lambda>x. rupd (?g i) (base + i) x)) = Inr (?g (Suc i))"
      by (simp add: splice_step take_Suc_conv_app_nth)
  qed
  then show ?thesis by (simp add: gather_def)
qed

text \<open>A loop that writes \<open>v id\<close> for every index and collects the indices with \<open>w id\<close>.\<close>

lemma out_loop_eq:
  assumes "off + len \<le> length ids" "base + len \<le> length dst"
    and f: "\<And>i outs d. i < len \<Longrightarrow> f i (outs, d) = rbind (rupd d (base + i) (v (ids ! (off + i)))) (\<lambda>d.
      Inr (outs @ (if w (ids ! (off + i)) then [ids ! (off + i)] else []), d))"
  shows "rfold f [0..<len] (outs, dst) = Inr (outs @ filter w (take len (drop off ids)),
      take base dst @ map v (take len (drop off ids)) @ drop (base + len) dst)"
proof -
  let ?g = "\<lambda>i. (outs @ filter w (take i (drop off ids)),
      take base dst @ map v (take i (drop off ids)) @ drop (base + i) dst)"
  have "rfold f [0..<len] (?g 0) = Inr (?g len)"
  proof (rule rfold_upt_closed)
    fix i assume "i < len"
    with assms(1,2) show "f i (?g i) = Inr (?g (Suc i))"
      by (simp add: f splice_step take_Suc_conv_app_nth)
  qed
  then show ?thesis by simp
qed

text \<open>The output loop in its four forms collects exactly the wanted indices, in order.\<close>

lemma put_output_simple:
  assumes "\<not> la" "b_logits b = Some lg" "\<not> ub_equal_seqs ub" "ids = [0..<n]" "n \<le> length lg" "sq_offset s + len \<le> n"
  shows "put_output b la ids s len outs ub =
      Inr (outs @ filter (wants_output b la n) (take len (drop (sq_offset s) ids)), ub\<lparr>ub_output := drop (sq_offset s) lg\<rparr>)"
proof -
  let ?o = "\<lambda>i. outs @ filter (wants_output b la n) (take i (drop (sq_offset s) ids))"
  have "rfold (\<lambda>i outs. rbind (rnth (drop (sq_offset s) lg) i) (\<lambda>x.
      Inr (if x \<noteq> 0 then outs @ [sq_offset s + i] else outs))) [0..<len] (?o 0) = Inr (?o len)"
  proof (rule rfold_upt_closed)
    fix i assume "i < len"
    with assms show "rbind (rnth (drop (sq_offset s) lg) i) (\<lambda>x.
      Inr (if x \<noteq> 0 then ?o i @ [sq_offset s + i] else ?o i)) = Inr (?o (Suc i))"
      by (simp add: wants_output_def take_Suc_conv_app_nth)
  qed
  with assms(1-3) show ?thesis by (simp add: put_output_def)
qed

lemma put_output_eq:
  assumes off: "sq_offset s + len \<le> length ids" and cap: "ub_n_tokens ub + len \<le> length (ub_output ub)"
    and rng: "\<forall>id \<in> set ids. id < length ids"
    and lgs: "case b_logits b of Some l \<Rightarrow> length ids \<le> length l | None \<Rightarrow> True"
    and idn: "\<not> ub_equal_seqs ub \<Longrightarrow> ids = [0..<length ids]"
  shows "\<exists>d. put_output b la ids s len outs ub =
      Inr (outs @ filter (wants_output b la (length ids)) (take len (drop (sq_offset s) ids)), ub\<lparr>ub_output := d\<rparr>) \<and>
    len \<le> length d \<and> (ub_equal_seqs ub \<longrightarrow> length d = length (ub_output ub)) \<and>
    (ub_equal_seqs ub \<or> ub_n_tokens ub = 0 \<longrightarrow>
      (\<forall>i < len. d ! (ub_n_tokens ub + i) \<noteq> 0 \<longleftrightarrow> wants_output b la (length ids) (ids ! (sq_offset s + i))))"
proof -
  have lg: "ids ! (sq_offset s + i) < length l" if "b_logits b = Some l" "i < len" for i l
    using off rng lgs that nth_mem [of "sq_offset s + i" ids] by fastforce
  let ?d = "\<lambda>v. take (ub_n_tokens ub) (ub_output ub) @ map v (take len (drop (sq_offset s) ids)) @
      drop (ub_n_tokens ub + len) (ub_output ub)"
  note loop = out_loop_eq [OF off cap, where w = "wants_output b la (length ids)" and outs = outs]
  show ?thesis
  proof (cases "la \<or> b_logits b = None \<or> ub_equal_seqs ub")
    case False
    then obtain l where "\<not> la" "b_logits b = Some l" "\<not> ub_equal_seqs ub" by auto
    moreover have "ids ! (sq_offset s + i) = sq_offset s + i" if "i < len" for i
      using idn calculation(3) off that by (metis add_less_cancel_left less_le_trans nth_upt plus_nat.add_0)
    ultimately show ?thesis using off lgs idn
      by (intro exI [of _ "drop (sq_offset s) l"]) (auto simp: put_output_simple wants_output_def)
  next
    case True
    then consider "la" | "\<not> la" "b_logits b = None" | l where "\<not> la" "b_logits b = Some l" "ub_equal_seqs ub"
      by auto
    then have "\<exists>v. (\<forall>k. v k \<noteq> 0 \<longleftrightarrow> wants_output b la (length ids) k) \<and> put_output b la ids s len outs ub =
        Inr (outs @ filter (wants_output b la (length ids)) (take len (drop (sq_offset s) ids)), ub\<lparr>ub_output := ?d v\<rparr>)"
    proof cases
      case 1
      then show ?thesis
        unfolding put_output_def
        by (intro exI [of _ "\<lambda>_. 1"], subst loop [where v = "\<lambda>_. 1"]) (use off in \<open>auto simp: wants_output_def\<close>)
    next
      case 2
      then show ?thesis
        unfolding put_output_def
        by (intro exI [of _ "\<lambda>k. if k = length ids - 1 then 1 else 0"], subst loop [where v = "\<lambda>k. if k = length ids - 1 then 1 else 0"])
          (use off in \<open>auto simp: wants_output_def Let_def\<close>)
    next
      case 3
      have f: "rfold (\<lambda>i (outs, d). rbind (rnth ids (sq_offset s + i)) (\<lambda>id. rbind (rnth l id) (\<lambda>is_output.
            rbind (rupd d (ub_n_tokens ub + i) is_output) (\<lambda>d.
            Inr (if is_output \<noteq> 0 then outs @ [id] else outs, d))))) [0..<len] (outs, ub_output ub) =
          Inr (outs @ filter (wants_output b la (length ids)) (take len (drop (sq_offset s) ids)), ?d (\<lambda>k. l ! k))"
        by (rule loop) (use off lg [OF 3(2)] 3 in \<open>simp add: wants_output_def\<close>)
      from 3 show ?thesis by (intro exI [of _ "\<lambda>k. l ! k"]) (auto simp: put_output_def f wants_output_def)
    qed
    then obtain v where v: "\<forall>k. v k \<noteq> 0 \<longleftrightarrow> wants_output b la (length ids) k" "put_output b la ids s len outs ub =
        Inr (outs @ filter (wants_output b la (length ids)) (take len (drop (sq_offset s) ids)), ub\<lparr>ub_output := ?d v\<rparr>)" by blast
    have "?d v ! (ub_n_tokens ub + i) = v (ids ! (sq_offset s + i))" if "i < len" for i
      using off cap that by (simp add: nth_append)
    with off cap v show ?thesis by (intro exI [of _ "?d v"]) simp
  qed
qed

text \<open>The arrays of a micro-batch of capacity \<open>cap\<close>, and what it means that its first tokens are
  those with batch indices \<open>dn\<close>.\<close>

definition ub_cap :: "llama_batch \<Rightarrow> nat \<Rightarrow> nat \<Rightarrow> llama_ubatch \<Rightarrow> bool" where
  "ub_cap b n_embd cap ub \<longleftrightarrow>
     (b_token b \<noteq> None \<longrightarrow> (\<exists>t. ub_token ub = Some t \<and> length t = cap)) \<and>
     (b_embd b \<noteq> None \<longrightarrow> (\<exists>e. ub_embd ub = Some e \<and> length e = n_embd * cap)) \<and>
     (\<exists>p. ub_pos ub = Some p \<and> length p = cap) \<and>
     length (ub_n_seq_id ub) = cap \<and> length (ub_seq_id ub) = cap \<and> length (ub_output ub) = cap"

definition delivers :: "llama_batch \<Rightarrow> nat \<Rightarrow> llama_ubatch \<Rightarrow> nat list \<Rightarrow> bool" where
  "delivers b n_embd ub dn \<longleftrightarrow>
     length dn = ub_n_tokens ub \<and>
     (\<forall>src. b_token b = Some src \<longrightarrow> (\<exists>t. ub_token ub = Some t \<and> take (length dn) t = map ((!) src) dn)) \<and>
     (\<forall>src. b_embd b = Some src \<longrightarrow> (\<exists>e. ub_embd ub = Some e \<and>
        take (n_embd * length dn) e = concat (map (\<lambda>k. take n_embd (drop (n_embd * k) src)) dn))) \<and>
     (\<forall>src. b_pos b = Some src \<longrightarrow> (\<exists>p. ub_pos ub = Some p \<and> take (length dn) p = map ((!) src) dn))"

lemma gather_take:
  assumes "off + len \<le> length ids" "base + len \<le> length dst" "\<forall>id \<in> set ids. id < length src"
    and "length dn = base" "take base dst = map ((!) src) dn"
  shows "\<exists>d. gather ids off len src base dst = Inr d \<and> length d = length dst \<and>
    take (base + len) d = map ((!) src) (dn @ take len (drop off ids))"
  using assms by (simp add: gather_eq)

lemma embd_loop:
  assumes off: "off + len \<le> length ids" and cap: "n_embd * (base + len) \<le> length dst"
    and rng: "\<forall>id \<in> set ids. n_embd * (id + 1) \<le> length src"
    and dn: "length dn = base" "take (n_embd * base) dst = concat (map (\<lambda>k. take n_embd (drop (n_embd * k) src)) dn)"
  shows "\<exists>d. rfold (\<lambda>i d. rbind (rnth ids (off + i)) (\<lambda>id.
        rcopy d (n_embd * (base + i)) src (n_embd * id) n_embd)) [0..<len] dst = Inr d \<and> length d = length dst \<and>
    take (n_embd * (base + len)) d =
      concat (map (\<lambda>k. take n_embd (drop (n_embd * k) src)) (dn @ take len (drop off ids)))"
  using off cap
proof (induction len)
  case 0
  then show ?case using dn by simp
next
  case (Suc len)
  let ?row = "\<lambda>k. take n_embd (drop (n_embd * k) src)"
  let ?k = "ids ! (off + len)"
  have "n_embd * (base + len) \<le> n_embd * (base + Suc len)" by simp
  with Suc.prems have le: "off + len \<le> length ids" "n_embd * (base + len) \<le> length dst" by linarith+
  obtain d where d: "rfold (\<lambda>i d. rbind (rnth ids (off + i)) (\<lambda>id.
        rcopy d (n_embd * (base + i)) src (n_embd * id) n_embd)) [0..<len] dst = Inr d" "length d = length dst"
    "take (n_embd * (base + len)) d = concat (map ?row (dn @ take len (drop off ids)))"
    using Suc.IH [OF le] by blast
  have k: "n_embd * (?k + 1) \<le> length src" using rng Suc.prems(1) by simp
  have row: "length (?row ?k) = n_embd" using k by (simp add: algebra_simps)
  let ?d = "take (n_embd * (base + len)) d @ ?row ?k @ drop (n_embd * (base + len) + n_embd) d"
  have cp: "rcopy d (n_embd * (base + len)) src (n_embd * ?k) n_embd = Inr ?d"
    using Suc.prems d(2) k by (simp add: rcopy_def algebra_simps)
  have "length ?d = length dst" using row Suc.prems d(2) by (simp add: algebra_simps)
  moreover have "take (n_embd * (base + Suc len)) ?d = take (n_embd * (base + len)) d @ ?row ?k"
    using row Suc.prems d(2) by (simp add: algebra_simps)
  ultimately show ?case using Suc.prems(1) d(1,3) cp by (simp add: rfold_append take_Suc_conv_app_nth)
qed

lemma put_token_ok:
  assumes "batch_ok b (length ids) ne" "ub_cap b ne cap ub" "delivers b ne ub dn" "ub_equal_seqs ub"
    and "sq_offset s + len \<le> length ids" "\<forall>id \<in> set ids. id < length ids" "ub_n_tokens ub + len \<le> cap" "0 < len"
  shows "\<exists>t. put_token b ids s len ub = Inr (ub\<lparr>ub_token := t\<rparr>) \<and>
    (\<forall>src. b_token b = Some src \<longrightarrow> (\<exists>d. t = Some d \<and> length d = cap \<and>
       take (length dn + len) d = map ((!) src) (dn @ take len (drop (sq_offset s) ids))))"
proof (cases "b_token b")
  case None
  then show ?thesis by (auto simp: put_token_def)
next
  case (Some src)
  from assms Some obtain t where t: "ub_token ub = Some t" "length t = cap" "take (length dn) t = map ((!) src) dn"
    by (auto simp: ub_cap_def delivers_def)
  have "\<forall>id \<in> set ids. id < length src"
    using assms(1,6) Some by (fastforce simp: batch_ok_def)
  with gather_take [of "sq_offset s" len ids "ub_n_tokens ub" t src dn] t assms
  obtain d where "gather ids (sq_offset s) len src (ub_n_tokens ub) t = Inr d" "length d = cap"
    "take (ub_n_tokens ub + len) d = map ((!) src) (dn @ take len (drop (sq_offset s) ids))"
    by (auto simp: delivers_def)
  with Some t assms show ?thesis by (auto simp: put_token_def deref_def delivers_def)
qed

lemma put_pos_ok:
  assumes "batch_ok b (length ids) ne" "ub_cap b ne cap ub" "delivers b ne ub dn" "ub_equal_seqs ub"
    and "sq_offset s + len \<le> length ids" "\<forall>id \<in> set ids. id < length ids" "ub_n_tokens ub + len \<le> cap" "0 < len"
  shows "\<exists>d src. put_pos b ids s len ub = Inr (ub\<lparr>ub_pos := Some d\<rparr>) \<and> b_pos b = Some src \<and> length d = cap \<and>
       take (length dn + len) d = map ((!) src) (dn @ take len (drop (sq_offset s) ids))"
proof -
  from assms obtain src where src: "b_pos b = Some src" "length ids \<le> length src"
    by (auto simp: batch_ok_def split: option.splits)
  with assms obtain t where t: "ub_pos ub = Some t" "length t = cap" "take (length dn) t = map ((!) src) dn"
    by (auto simp: ub_cap_def delivers_def)
  have "\<forall>id \<in> set ids. id < length src" using assms(6) src by fastforce
  with gather_take [of "sq_offset s" len ids "ub_n_tokens ub" t src dn] t assms
  obtain d where "gather ids (sq_offset s) len src (ub_n_tokens ub) t = Inr d" "length d = cap"
    "take (ub_n_tokens ub + len) d = map ((!) src) (dn @ take len (drop (sq_offset s) ids))"
    by (auto simp: delivers_def)
  with src t assms show ?thesis by (auto simp: put_pos_def deref_def delivers_def)
qed

lemma put_embd_ok:
  assumes "batch_ok b (length ids) ne" "ub_cap b ne cap ub" "delivers b ne ub dn" "ub_equal_seqs ub"
    and "sq_offset s + len \<le> length ids" "\<forall>id \<in> set ids. id < length ids" "ub_n_tokens ub + len \<le> cap" "0 < len"
  shows "\<exists>t. put_embd b ne ids s len ub = Inr (ub\<lparr>ub_embd := t\<rparr>) \<and>
    (\<forall>src. b_embd b = Some src \<longrightarrow> (\<exists>d. t = Some d \<and> length d = ne * cap \<and>
       take (ne * (length dn + len)) d =
         concat (map (\<lambda>k. take ne (drop (ne * k) src)) (dn @ take len (drop (sq_offset s) ids)))))"
proof (cases "b_embd b")
  case None
  then show ?thesis by (auto simp: put_embd_def)
next
  case (Some src)
  from assms Some obtain t where t: "ub_embd ub = Some t" "length t = ne * cap"
    "take (ne * length dn) t = concat (map (\<lambda>k. take ne (drop (ne * k) src)) dn)"
    by (auto simp: ub_cap_def delivers_def)
  have rng: "ne * (k + 1) \<le> length src" if "k \<in> set ids" for k
  proof -
    have "k + 1 \<le> length ids" using that assms(6) by fastforce
    then have "ne * (k + 1) \<le> ne * length ids" by (rule mult_le_mono2)
    with assms(1) Some show ?thesis by (simp add: batch_ok_def)
  qed
  have dn: "length dn = ub_n_tokens ub" using assms(3) by (simp add: delivers_def)
  have "ne * (ub_n_tokens ub + len) \<le> length t" using t(2) assms(7) by simp
  with embd_loop [of "sq_offset s" len ids ne "ub_n_tokens ub" t src dn] assms(5) rng t dn Some assms(4,8)
  show ?thesis by (auto simp: put_embd_def deref_def)
qed

text \<open>The separate loops of \<open>add_seq_to_ubatch\<close> touch different arrays.\<close>

lemma put_commute:
  "put_embd b ne ids s len (ub\<lparr>ub_token := t\<rparr>) = rbind (put_embd b ne ids s len ub) (\<lambda>u. Inr (u\<lparr>ub_token := t\<rparr>))"
  "put_pos b ids s len (ub\<lparr>ub_token := t\<rparr>) = rbind (put_pos b ids s len ub) (\<lambda>u. Inr (u\<lparr>ub_token := t\<rparr>))"
  "put_pos b ids s len (ub\<lparr>ub_embd := e\<rparr>) = rbind (put_pos b ids s len ub) (\<lambda>u. Inr (u\<lparr>ub_embd := e\<rparr>))"
  by (cases ub; simp add: put_embd_def put_pos_def rbind_assoc split: option.split)+

lemma put_seq_ok:
  assumes "length (ub_n_seq_id ub) = cap" "length (ub_seq_id ub) = cap" "ub_n_seqs ub < cap" "ub_equal_seqs ub"
  shows "\<exists>ns sq. put_seq b s len ub = Inr (ub\<lparr>ub_n_seq_id := ns, ub_seq_id := sq\<rparr>) \<and> length ns = cap \<and> length sq = cap"
proof -
  let ?ns = "(ub_n_seq_id ub)[ub_n_seqs ub := sq_n_seq_id s]"
  let ?sq = "case sq_seq_id s of None \<Rightarrow> ub_seq_id ub | Some p \<Rightarrow> (ub_seq_id ub)[ub_n_seqs ub := Some p]"
  from assms have "put_seq b s len ub = Inr (ub\<lparr>ub_n_seq_id := ?ns, ub_seq_id := ?sq\<rparr>)"
    by (simp add: put_seq_def split: option.split)
  moreover from assms have "length ?ns = cap" "length ?sq = cap" by (simp_all split: option.split)
  ultimately show ?thesis by blast
qed

definition advance :: "nat \<Rightarrow> llama_sbatch_seq \<Rightarrow> llama_sbatch_seq" where
  "advance len s = s\<lparr>sq_offset := sq_offset s + len, sq_length := sq_length s - len\<rparr>"

lemma sync_buffers_keeps [simp]:
  "sb_seq (sync_buffers ub sb) = sb_seq sb" "sb_ids (sync_buffers ub sb) = sb_ids sb"
  "sb_n_tokens (sync_buffers ub sb) = sb_n_tokens sb" "sb_batch (sync_buffers ub sb) = sb_batch sb"
  "sb_n_embd (sync_buffers ub sb) = sb_n_embd sb" "sb_logits_all (sync_buffers ub sb) = sb_logits_all sb"
  by (simp_all add: sync_buffers_def)

text \<open>The part of the state no split changes.\<close>

definition same_frame :: "llama_sbatch \<Rightarrow> llama_sbatch \<Rightarrow> bool" where
  "same_frame sb sb' \<longleftrightarrow> sb_ids sb' = sb_ids sb \<and> sb_batch sb' = sb_batch sb \<and>
     sb_n_embd sb' = sb_n_embd sb \<and> sb_logits_all sb' = sb_logits_all sb"

definition wanted :: "llama_sbatch \<Rightarrow> nat \<Rightarrow> bool" where
  "wanted sb k \<longleftrightarrow> (case sb_batch sb of Some b \<Rightarrow> wants_output b (sb_logits_all sb) (length (sb_ids sb)) k | None \<Rightarrow> False)"

lemma add_seq_equal:
  assumes inv: "sb_inv sb" "sb_batch sb = Some b" and k: "k < length (sb_seq sb)" "s = sb_seq sb ! k"
    and len: "0 < len" "len \<le> sq_length s" and nz: "sq_n_seq_id s \<noteq> 0"
    and ub: "ub_cap b (sb_n_embd sb) cap ub" "delivers b (sb_n_embd sb) ub dn" "ub_equal_seqs ub"
    and cap: "ub_n_tokens ub + len \<le> cap"
    and cnt: "ub_n_tokens ub = ub_n_seqs ub * len" "ub_n_seqs ub > 0 \<Longrightarrow> ub_n_seq_tokens ub = len"
  defines "new \<equiv> take len (drop (sq_offset s) (sb_ids sb))"
  shows "\<exists>sb' ub'. add_seq_to_ubatch sb ub k len = Inr (sb', ub') \<and>
    ub_cap b (sb_n_embd sb) cap ub' \<and> delivers b (sb_n_embd sb) ub' (dn @ new) \<and> ub_equal_seqs ub' \<and>
    ub_n_seqs ub' = Suc (ub_n_seqs ub) \<and> ub_n_seq_tokens ub' = len \<and> ub_n_tokens ub' = ub_n_tokens ub + len \<and>
    same_frame sb sb' \<and> sb_seq sb' = (sb_seq sb)[k := advance len s] \<and>
    sb_n_tokens sb' = sb_n_tokens sb - len \<and> sb_out_ids sb' = sb_out_ids sb @ filter (wanted sb) new"
proof -
  let ?ids = "sb_ids sb" and ?ne = "sb_n_embd sb"
  have ok: "batch_ok b (length ?ids) ?ne" and rng: "\<forall>id \<in> set ?ids. id < length ?ids"
    using inv by (auto simp: sb_inv_def)
  have "sq_offset s + sq_length s \<le> length ?ids"
    using inv(1) k len by (auto simp: sb_inv_def)
  with len have off: "sq_offset s + len \<le> length ?ids" by simp
  note pre = ok ub off rng cap len(1)
  obtain t where t: "put_token b ?ids s len ub = Inr (ub\<lparr>ub_token := t\<rparr>)"
    "\<And>src. b_token b = Some src \<Longrightarrow> \<exists>d. t = Some d \<and> length d = cap \<and> take (length dn + len) d = map ((!) src) (dn @ new)"
    using put_token_ok [OF pre] by (auto simp: new_def)
  obtain e where e: "put_embd b ?ne ?ids s len ub = Inr (ub\<lparr>ub_embd := e\<rparr>)"
    "\<And>src. b_embd b = Some src \<Longrightarrow> \<exists>d. e = Some d \<and> length d = ?ne * cap \<and>
       take (?ne * (length dn + len)) d = concat (map (\<lambda>k. take ?ne (drop (?ne * k) src)) (dn @ new))"
    using put_embd_ok [OF pre] by (auto simp: new_def)
  obtain p src where p: "put_pos b ?ids s len ub = Inr (ub\<lparr>ub_pos := Some p\<rparr>)" "b_pos b = Some src" "length p = cap"
    "take (length dn + len) p = map ((!) src) (dn @ new)"
    using put_pos_ok [OF pre] by (auto simp: new_def)
  have n1: "ub_n_seqs ub < cap"
  proof -
    have "ub_n_seqs ub * 1 \<le> ub_n_seqs ub * len" using len(1) by (intro mult_le_mono2) simp
    with cap cnt(1) len(1) show ?thesis by linarith
  qed
  define ub1 where "ub1 = ub\<lparr>ub_token := t, ub_embd := e, ub_pos := Some p\<rparr>"
  have n2: "length (ub_n_seq_id ub1) = cap" "length (ub_seq_id ub1) = cap" "ub_n_seqs ub1 < cap" "ub_equal_seqs ub1"
    using ub n1 by (simp_all add: ub1_def ub_cap_def)
  then obtain ns sq where q: "put_seq b s len ub1 = Inr (ub1\<lparr>ub_n_seq_id := ns, ub_seq_id := sq\<rparr>)"
    "length ns = cap" "length sq = cap"
    using put_seq_ok [of ub1 cap b s len] by blast
  define ub2 where "ub2 = ub1\<lparr>ub_n_seq_id := ns, ub_seq_id := sq\<rparr>"
  have w: "wanted sb = wants_output b (sb_logits_all sb) (length ?ids)"
    by (rule ext) (simp add: wanted_def inv(2))
  have ub2: "ub_n_tokens ub2 = ub_n_tokens ub" "length (ub_output ub2) = cap" "ub_equal_seqs ub2"
    using ub by (simp_all add: ub2_def ub1_def ub_cap_def)
  have lgs: "case b_logits b of Some l \<Rightarrow> length ?ids \<le> length l | None \<Rightarrow> True"
    using ok by (simp add: batch_ok_def)
  obtain d where d: "put_output b (sb_logits_all sb) ?ids s len (sb_out_ids sb) ub2 =
      Inr (sb_out_ids sb @ filter (wanted sb) new, ub2\<lparr>ub_output := d\<rparr>)" "length d = cap"
    using put_output_eq [of s len ?ids ub2 b "sb_logits_all sb" "sb_out_ids sb"] off rng cap lgs ub2
    unfolding w new_def by auto
  have puts: "put_embd b ?ne ?ids s len (ub\<lparr>ub_token := t\<rparr>) = Inr (ub\<lparr>ub_token := t, ub_embd := e\<rparr>)"
    "put_pos b ?ids s len (ub\<lparr>ub_token := t, ub_embd := e\<rparr>) = Inr ub1"
    by (simp_all add: put_commute e p ub1_def)
  have ln: "length new = len" "length dn = ub_n_tokens ub" using off ub(2) by (simp_all add: new_def delivers_def)
  define ub3 where "ub3 = (if ub_n_seqs ub = 0 then ub2\<lparr>ub_output := d, ub_n_seq_tokens := len\<rparr> else ub2\<lparr>ub_output := d\<rparr>)
      \<lparr>ub_n_tokens := ub_n_tokens ub + len, ub_n_seqs := Suc (ub_n_seqs ub)\<rparr>"
  define sb3 where "sb3 = (sync_buffers ub3 sb)\<lparr>sb_out_ids := sb_out_ids sb @ filter (wanted sb) new,
      sb_seq := (sb_seq sb)[k := advance len s], sb_n_tokens := sb_n_tokens sb - len\<rparr>"
  have f2: "ub_n_tokens ub2 = ub_n_tokens ub" "ub_n_seqs ub2 = ub_n_seqs ub" "ub_equal_seqs ub2"
    "ub_n_seq_tokens ub2 = ub_n_seq_tokens ub"
    using ub(3) by (simp_all add: ub2_def ub1_def)
  have r: "rnth (sb_seq sb) k = Inr s" using k by simp
  have q': "put_seq b s len ub1 = Inr ub2" using q(1) by (simp add: ub2_def)
  have fin: "ub_n_seqs ub3 = Suc (ub_n_seqs ub)" "ub_n_tokens ub3 = ub_n_tokens ub + len" "ub_n_seq_tokens ub3 = len"
    "ub_equal_seqs ub3"
    using cnt(2) f2 by (auto simp: ub3_def)
  have sum: "ub_n_tokens ub + len = len * Suc (ub_n_seqs ub)" using cnt(1) by simp
  have "add_seq_to_ubatch sb ub k len = Inr (sb3, ub3)"
  proof (cases "ub_n_seqs ub = 0")
    case True
    with cnt(1) show ?thesis unfolding add_seq_to_ubatch_def sb3_def ub3_def advance_def
      by (simp add: inv(2) r len(2) nz ub(3) t(1) puts q' d(1) f2 Let_def)
  next
    case False
    then have g: "ub_n_tokens ub div ub_n_seqs ub = len" using cnt(1) by simp
    from False cnt(2) sum show ?thesis unfolding add_seq_to_ubatch_def sb3_def ub3_def advance_def
      by (simp add: inv(2) r len(2) nz ub(3) t(1) puts q' d(1) f2 Let_def g)
  qed
  moreover have "ub_cap b ?ne cap ub3" using t e p q d ub
    by (auto simp: ub_cap_def ub3_def ub2_def ub1_def)
  moreover have "delivers b ?ne ub3 (dn @ new)" using t(2) e(2) p ln
    by (fastforce simp: delivers_def ub3_def ub2_def ub1_def)
  moreover have "same_frame sb sb3" by (simp add: same_frame_def sb3_def)
  ultimately show ?thesis using fin
    by (intro exI [of _ sb3] exI [of _ ub3]) (simp add: sb3_def)
qed

section \<open>Progress of a split\<close>

text \<open>From \<open>sb\<close> to \<open>sb'\<close> the micro-batch grew from \<open>dn\<close> to \<open>dn'\<close>: what it got is what the
  sequences lost, and the output indices among it were recorded in order.\<close>

definition progress :: "llama_sbatch \<Rightarrow> nat list \<Rightarrow> llama_sbatch \<Rightarrow> nat list \<Rightarrow> bool" where
  "progress sb dn sb' dn' \<longleftrightarrow> same_frame sb sb' \<and> sb_inv sb' \<and>
     (\<exists>new. dn' = dn @ new \<and> mset (sb_rest sb) = mset new + mset (sb_rest sb') \<and>
        sb_n_tokens sb = sb_n_tokens sb' + length new \<and>
        sb_out_ids sb' = sb_out_ids sb @ filter (wanted sb) new)"

lemma wanted_frame: "same_frame sb sb' \<Longrightarrow> wanted sb' = wanted sb"
  by (rule ext) (simp add: wanted_def same_frame_def split: option.split)

lemma progress_trans: "progress sb dn sb1 dn1 \<Longrightarrow> progress sb1 dn1 sb2 dn2 \<Longrightarrow> progress sb dn sb2 dn2"
  by (auto simp: progress_def wanted_frame) (simp add: same_frame_def)

lemma seq_rest_advance:
  assumes "sq_offset s + sq_length s \<le> length ids" "len \<le> sq_length s"
  shows "seq_rest ids s = take len (drop (sq_offset s) ids) @ seq_rest ids (advance len s)"
proof -
  have "seq_rest ids s = take len (drop (sq_offset s) ids) @ take (sq_length s - len) (drop len (drop (sq_offset s) ids))"
    using assms(2) unfolding seq_rest_def by (metis le_add_diff_inverse take_add)
  then show ?thesis by (simp add: seq_rest_def advance_def add.commute)
qed

lemma advance_simps [simp]:
  "sq_n_seq_id (advance len s) = sq_n_seq_id s" "sq_seq_id (advance len s) = sq_seq_id s"
  "sq_offset (advance len s) = sq_offset s + len" "sq_length (advance len s) = sq_length s - len"
  by (simp_all add: advance_def)

lemma update_split: "k < length xs \<Longrightarrow> xs = take k xs @ xs ! k # drop (Suc k) xs \<and>
    xs[k := y] = take k xs @ y # drop (Suc k) xs"
  by (simp add: id_take_nth_drop upd_conv_take_nth_drop)

lemma advance_progress:
  assumes inv: "sb_inv sb" and k: "k < length (sb_seq sb)" "s = sb_seq sb ! k" and len: "0 < len" "len \<le> sq_length s"
    and sb': "same_frame sb sb'" "sb_seq sb' = (sb_seq sb)[k := advance len s]" "sb_n_tokens sb' = sb_n_tokens sb - len"
      "sb_out_ids sb' = sb_out_ids sb @ filter (wanted sb) new" and new: "new = take len (drop (sq_offset s) (sb_ids sb))"
  shows "progress sb dn sb' (dn @ new)"
proof -
  let ?ids = "sb_ids sb" and ?xs = "sb_seq sb"
  have off: "sq_offset s + sq_length s \<le> length ?ids" using inv k len by (auto simp: sb_inv_def)
  obtain as bs where xs: "?xs = as @ s # bs" and ys: "sb_seq sb' = as @ advance len s # bs"
    using update_split [OF k(1), of "advance len s"] k(2) sb'(2) by metis
  have sum: "sum_list (map sq_length ?xs) = sb_n_tokens sb" using inv by (simp add: sb_inv_def)
  have rest: "mset (sb_rest sb) = mset new + mset (sb_rest sb')"
    using seq_rest_advance [OF off len(2)] sb'(1) by (simp add: sb_rest_def xs ys same_frame_def new)
  have "length new = len" using off len(2) by (simp add: new)
  moreover have "len \<le> sb_n_tokens sb" using sum len(2) by (simp add: xs)
  moreover have "sb_inv sb'"
    using inv sb'(1,3) sum off len unfolding sb_inv_def same_frame_def xs ys by auto
  ultimately show ?thesis using sb' rest by (simp add: progress_def)
qed

text \<open>Runs are ordered: fewer sequence ids first, longer runs first among equals; so the run at the
  end of the vector is the shortest of the most shared ones.\<close>

definition seq_order :: "llama_sbatch \<Rightarrow> bool" where
  "seq_order sb \<longleftrightarrow> sorted_wrt (\<lambda>x y. \<not> seq_less y x) (sb_seq sb) \<and> (\<forall>s \<in> set (sb_seq sb). sq_n_seq_id s > 0)"

lemma pop_empty_snoc:
  "pop_empty (length (xs @ [s])) (xs @ [s]) = (if sq_length s = 0 then pop_empty (length xs) xs else xs @ [s])"
  by (simp add: nth_append)

lemma pop_empty_split:
  "\<exists>zs. sq = pop_empty (length sq) sq @ zs \<and> (\<forall>s \<in> set zs. sq_length s = 0) \<and>
     (pop_empty (length sq) sq \<noteq> [] \<longrightarrow> sq_length (last (pop_empty (length sq) sq)) > 0)"
proof (induction sq rule: rev_induct)
  case Nil
  show ?case by simp
next
  case (snoc s xs)
  then obtain zs where zs: "xs = pop_empty (length xs) xs @ zs" "\<forall>s \<in> set zs. sq_length s = 0"
    "pop_empty (length xs) xs \<noteq> [] \<longrightarrow> sq_length (last (pop_empty (length xs) xs)) > 0" by blast
  show ?case
  proof (cases "sq_length s = 0")
    case True
    show ?thesis
      unfolding pop_empty_snoc using True zs by (intro exI [of _ "zs @ [s]"]) auto
  next
    case False
    then show ?thesis unfolding pop_empty_snoc by simp
  qed
qed

lemma reserve_ubatch_props:
  assumes inv: "sb_inv sb" "sb_batch sb = Some b" and r: "reserve_ubatch sb cap (b_embd b \<noteq> None) = (sb1, ub)"
  shows "same_frame sb sb1" "sb_inv sb1" "sb_rest sb1 = sb_rest sb" "sb_n_tokens sb1 = sb_n_tokens sb"
    "sb_out_ids sb1 = sb_out_ids sb" "seq_order sb \<Longrightarrow> seq_order sb1"
    "sb_seq sb1 \<noteq> [] \<Longrightarrow> sq_length (last (sb_seq sb1)) > 0"
    "ub_cap b (sb_n_embd sb) cap ub" "delivers b (sb_n_embd sb) ub []" "ub_equal_seqs ub" "ub_n_seqs ub = 0" "ub_n_tokens ub = 0"
proof -
  let ?p = "pop_empty (length (sb_seq sb)) (sb_seq sb)"
  obtain zs where zs: "sb_seq sb = ?p @ zs" "\<forall>s \<in> set zs. sq_length s = 0"
    "?p \<noteq> [] \<longrightarrow> sq_length (last ?p) > 0" using pop_empty_split by blast
  have seq1: "sb_seq sb1 = ?p" using r by (auto simp: reserve_ubatch_def Let_def)
  have z0: "sum_list (map sq_length zs) = 0" "concat (map (seq_rest (sb_ids sb)) zs) = []"
    using zs(2) by (induction zs) simp_all
  show fr: "same_frame sb sb1" and "sb_n_tokens sb1 = sb_n_tokens sb" "sb_out_ids sb1 = sb_out_ids sb"
    using r by (auto simp: reserve_ubatch_def Let_def same_frame_def)
  then show "sb_rest sb1 = sb_rest sb"
    using z0(2) unfolding sb_rest_def seq1 by (subst (2) zs(1)) (simp add: same_frame_def)
  have "sum_list (map sq_length (sb_seq sb)) = sum_list (map sq_length ?p)" by (subst zs(1)) (simp add: z0)
  moreover have "set ?p \<subseteq> set (sb_seq sb)" by (subst (2) zs(1)) simp
  ultimately show "sb_inv sb1"
    using inv(1) fr \<open>sb_n_tokens sb1 = sb_n_tokens sb\<close> unfolding sb_inv_def seq1 same_frame_def by auto
  show "seq_order sb1" if "seq_order sb"
    using that unfolding seq_order_def seq1 by (subst (asm) (1 2) zs(1)) (simp add: sorted_wrt_append)
  show "sq_length (last (sb_seq sb1)) > 0" if "sb_seq sb1 \<noteq> []" using that zs(3) seq1 by simp
  show "ub_cap b (sb_n_embd sb) cap ub" "delivers b (sb_n_embd sb) ub []" "ub_equal_seqs ub" "ub_n_seqs ub = 0" "ub_n_tokens ub = 0"
    using r inv by (auto simp: reserve_ubatch_def Let_def ub_cap_def delivers_def sb_inv_def batch_ok_def split: option.splits)
qed

section \<open>Correctness of the splits\<close>

text \<open>The micro-batch under construction: \<open>dn\<close> delivered so far, whole sequences of \<open>len\<close> tokens.\<close>

definition building :: "llama_batch \<Rightarrow> nat \<Rightarrow> nat \<Rightarrow> nat \<Rightarrow> llama_ubatch \<Rightarrow> nat list \<Rightarrow> bool" where
  "building b ne cap len ub dn \<longleftrightarrow> ub_cap b ne cap ub \<and> delivers b ne ub dn \<and> ub_equal_seqs ub \<and>
     ub_n_tokens ub = ub_n_seqs ub * len \<and> (ub_n_seqs ub > 0 \<longrightarrow> ub_n_seq_tokens ub = len)"

lemma add_seq_progress:
  assumes inv: "sb_inv sb" "sb_batch sb = Some b" and k: "k < length (sb_seq sb)" "s = sb_seq sb ! k"
    and len: "0 < len" "len \<le> sq_length s" and nz: "sq_n_seq_id s \<noteq> 0"
    and bld: "building b (sb_n_embd sb) cap len ub dn" and cap: "ub_n_tokens ub + len \<le> cap"
  shows "\<exists>sb' ub' dn'. add_seq_to_ubatch sb ub k len = Inr (sb', ub') \<and> progress sb dn sb' dn' \<and>
    building b (sb_n_embd sb) cap len ub' dn' \<and> ub_n_seqs ub' = Suc (ub_n_seqs ub) \<and> ub_n_tokens ub' = ub_n_tokens ub + len \<and>
    sb_seq sb' = (sb_seq sb)[k := advance len s]"
proof -
  define new where "new = take len (drop (sq_offset s) (sb_ids sb))"
  obtain sb' ub' where st: "add_seq_to_ubatch sb ub k len = Inr (sb', ub')"
    "ub_cap b (sb_n_embd sb) cap ub'" "delivers b (sb_n_embd sb) ub' (dn @ new)" "ub_equal_seqs ub'"
    "ub_n_seqs ub' = Suc (ub_n_seqs ub)" "ub_n_seq_tokens ub' = len" "ub_n_tokens ub' = ub_n_tokens ub + len"
    "same_frame sb sb'" "sb_seq sb' = (sb_seq sb)[k := advance len s]"
    "sb_n_tokens sb' = sb_n_tokens sb - len" "sb_out_ids sb' = sb_out_ids sb @ filter (wanted sb) new"
    using add_seq_equal [OF inv k len nz, of cap ub dn] bld cap unfolding building_def new_def by auto
  have "progress sb dn sb' (dn @ new)"
    by (rule advance_progress [OF inv(1) k len st(8-11)]) (simp add: new_def)
  moreover have "building b (sb_n_embd sb) cap len ub' (dn @ new)"
    using st bld by (simp add: building_def)
  ultimately show ?thesis using st(1,5,7,9) by blast
qed

lemma split_equal_loop_ok:
  assumes "sb_inv sb" "sb_batch sb = Some b" "i \<le> length (sb_seq sb)"
    and "\<forall>s \<in> set (take i (sb_seq sb)). sq_n_seq_id s > 0 \<and> len \<le> sq_length s" "0 < len"
    and "building b (sb_n_embd sb) cap len ub dn" "n_in = ub_n_tokens ub" "ub_n_tokens ub + len \<le> cap"
  shows "\<exists>sb' ub' dn' j. split_equal_loop i cap len n_in sb ub = Inr (sb', ub') \<and>
    (i > 0 \<longrightarrow> progress sb dn sb' dn') \<and> (i = 0 \<longrightarrow> sb' = sb \<and> ub' = ub \<and> dn' = dn) \<and>
    building b (sb_n_embd sb) cap len ub' dn' \<and> ub_n_tokens ub' \<le> cap \<and> ub_n_seqs ub' \<ge> ub_n_seqs ub + (if i = 0 then 0 else 1) \<and> j \<le> i \<and>
    sb_seq sb' = take j (sb_seq sb) @ map (advance len) (drop j (take i (sb_seq sb))) @ drop i (sb_seq sb)"
  using assms
proof (induction i arbitrary: sb ub dn n_in)
  case 0
  then show ?case by auto
next
  case (Suc i)
  let ?s = "sb_seq sb ! i"
  have i: "i < length (sb_seq sb)" using Suc.prems(3) by simp
  then have s: "?s \<in> set (take (Suc i) (sb_seq sb))" by (simp add: take_Suc_conv_app_nth)
  with Suc.prems(4,5) have s': "sq_n_seq_id ?s > 0" "len \<le> sq_length ?s" "sq_length ?s > 0" by auto
  obtain sb1 ub1 dn1 where st: "add_seq_to_ubatch sb ub i len = Inr (sb1, ub1)" "progress sb dn sb1 dn1"
    "building b (sb_n_embd sb) cap len ub1 dn1" "ub_n_seqs ub1 = Suc (ub_n_seqs ub)" "ub_n_tokens ub1 = ub_n_tokens ub + len"
    "sb_seq sb1 = (sb_seq sb)[i := advance len ?s]"
    using add_seq_progress [OF Suc.prems(1,2) i refl Suc.prems(5) s'(2) _ Suc.prems(6,8)] s'(1) by auto
  have seq1: "sb_seq sb1 = take i (sb_seq sb) @ advance len ?s # drop (Suc i) (sb_seq sb)"
    using update_split [OF i] st(6) by metis
  show ?case
  proof (cases "sq_n_seq_id ?s > 1 \<or> len + (n_in + len) > cap")
    case True
    then have "split_equal_loop (Suc i) cap len n_in sb ub = Inr (sb1, ub1)"
      using i s' st(1) Suc.prems(5) by (auto simp: Let_def)
    with st seq1 Suc.prems(8) i show ?thesis
      by (intro exI [of _ sb1] exI [of _ ub1] exI [of _ dn1] exI [of _ i]) (simp add: take_Suc_conv_app_nth)
  next
    case False
    then have lp: "split_equal_loop (Suc i) cap len n_in sb ub = split_equal_loop i cap len (n_in + len) sb1 ub1"
      using i s' st(1) Suc.prems(5) by (simp add: Let_def)
    have f: "sb_inv sb1" "sb_batch sb1 = Some b" "sb_n_embd sb1 = sb_n_embd sb"
      using st(2) Suc.prems(2) by (simp_all add: progress_def same_frame_def)
    have tk: "take i (sb_seq sb1) = take i (sb_seq sb)" using seq1 i by simp
    have pre: "i \<le> length (sb_seq sb1)" "\<forall>s \<in> set (take i (sb_seq sb1)). sq_n_seq_id s > 0 \<and> len \<le> sq_length s"
      using seq1 i Suc.prems(4) set_take_subset_set_take [of i "Suc i" "sb_seq sb"] tk by auto
    from Suc.IH [OF f(1,2) pre Suc.prems(5), of ub1 dn1 "n_in + len"] st(3,5) f(3) False Suc.prems(7)
    obtain sb2 ub2 dn2 j where r: "split_equal_loop i cap len (n_in + len) sb1 ub1 = Inr (sb2, ub2)"
      "i > 0 \<longrightarrow> progress sb1 dn1 sb2 dn2" "i = 0 \<longrightarrow> sb2 = sb1 \<and> ub2 = ub1 \<and> dn2 = dn1"
      "building b (sb_n_embd sb) cap len ub2 dn2" "ub_n_tokens ub2 \<le> cap" "ub_n_seqs ub2 \<ge> ub_n_seqs ub1" "j \<le> i"
      "sb_seq sb2 = take j (sb_seq sb1) @ map (advance len) (drop j (take i (sb_seq sb1))) @ drop i (sb_seq sb1)"
      by auto
    have "progress sb dn sb2 dn2" using st(2) r(2,3) by (cases "i = 0") (auto intro: progress_trans)
    moreover have "sb_seq sb2 = take j (sb_seq sb) @ map (advance len) (drop j (take (Suc i) (sb_seq sb))) @ drop (Suc i) (sb_seq sb)"
      using r(7,8) tk seq1 i by (simp add: take_Suc_conv_app_nth min_def)
    ultimately show ?thesis using lp r st(4)
      by (intro exI [of _ sb2] exI [of _ ub2] exI [of _ dn2] exI [of _ j]) simp
  qed
qed

text \<open>What every split promises: the micro-batch holds the tokens the sequences lost, no more than
  asked for, at least one while any are left, in equally long sequences; the outputs were recorded.\<close>

definition split_post :: "llama_sbatch \<Rightarrow> nat \<Rightarrow> llama_sbatch \<Rightarrow> llama_ubatch \<Rightarrow> bool" where
  "split_post sb n_ubatch sb' ub \<longleftrightarrow>
     (\<exists>b dn. sb_batch sb = Some b \<and> progress sb [] sb' dn \<and> delivers b (sb_n_embd sb) ub dn) \<and>
     ub_n_tokens ub = ub_n_seqs ub * ub_n_seq_tokens ub \<and> ub_n_tokens ub \<le> n_ubatch \<and>
     (sb_n_tokens sb > 0 \<longrightarrow> ub_n_tokens ub > 0)"

lemma seq_less_advance:
  "\<not> seq_less y x \<Longrightarrow> \<not> seq_less (advance len y) x"
  "\<not> seq_less y x \<Longrightarrow> \<not> seq_less (advance len y) (advance len x)"
  by (auto simp: seq_less_def split: if_splits)

lemma seq_order_advance:
  assumes "seq_order sb" "sb_seq sb' = take j (sb_seq sb) @ map (advance len) (drop j (sb_seq sb))"
  shows "seq_order sb'"
proof -
  let ?xs = "sb_seq sb"
  have srt: "sorted_wrt (\<lambda>x y. \<not> seq_less y x) (take j ?xs @ drop j ?xs)"
    using assms(1) by (simp add: seq_order_def)
  then have "sorted_wrt (\<lambda>x y. \<not> seq_less y x) (sb_seq sb')"
    unfolding assms(2) sorted_wrt_append sorted_wrt_map
    by (auto simp: seq_less_advance intro: sorted_wrt_mono_rel [rotated])
  moreover have "\<forall>s \<in> set (sb_seq sb'). sq_n_seq_id s > 0"
    using assms(1) set_take_subset [of j ?xs] set_drop_subset [of j ?xs]
    unfolding assms(2) seq_order_def by auto
  ultimately show ?thesis by (simp add: seq_order_def)
qed

lemma progress_reserve:
  assumes "same_frame sb sb1" "sb_rest sb1 = sb_rest sb" "sb_n_tokens sb1 = sb_n_tokens sb" "sb_out_ids sb1 = sb_out_ids sb"
    and "progress sb1 dn sb2 dn2"
  shows "progress sb dn sb2 dn2"
  using assms by (auto simp: progress_def wanted_frame) (simp add: same_frame_def)

lemma progress_refl: "same_frame sb sb1 \<Longrightarrow> sb_inv sb1 \<Longrightarrow> sb_rest sb1 = sb_rest sb \<Longrightarrow>
    sb_n_tokens sb1 = sb_n_tokens sb \<Longrightarrow> sb_out_ids sb1 = sb_out_ids sb \<Longrightarrow> progress sb dn sb1 dn"
  by (simp add: progress_def)

text \<open>Taking from the last run: the whole of \<open>split_seq\<close>, and the first iteration of \<open>split_equal\<close>.\<close>

lemma last_run:
  assumes inv: "sb_inv sb" and ord: "seq_order sb" and ne: "sb_seq sb \<noteq> []" "sq_length (last (sb_seq sb)) > 0" and cap: "0 < cap"
  defines "s \<equiv> last (sb_seq sb)"
  defines "len \<equiv> (if sq_length s < cap then sq_length s else cap)"
  shows "0 < len" "len \<le> sq_length s" "len \<le> cap" "sq_n_seq_id s > 0"
    "s = sb_seq sb ! (length (sb_seq sb) - 1)" "length (sb_seq sb) - 1 < length (sb_seq sb)"
    "sq_n_seq_id s \<le> 1 \<Longrightarrow> \<forall>x \<in> set (sb_seq sb). sq_n_seq_id x > 0 \<and> len \<le> sq_length x"
proof -
  show lens: "0 < len" "len \<le> sq_length s" "len \<le> cap" using ne cap by (auto simp: len_def s_def)
  show pos: "sq_n_seq_id s > 0" using ord ne by (simp add: seq_order_def s_def)
  show "s = sb_seq sb ! (length (sb_seq sb) - 1)" "length (sb_seq sb) - 1 < length (sb_seq sb)"
    using ne by (simp_all add: s_def last_conv_nth)
  show "\<forall>x \<in> set (sb_seq sb). sq_n_seq_id x > 0 \<and> len \<le> sq_length x" if "sq_n_seq_id s \<le> 1"
  proof
    fix x assume x: "x \<in> set (sb_seq sb)"
    have ap: "sb_seq sb = butlast (sb_seq sb) @ [s]" using ne by (simp add: s_def)
    have "sorted_wrt (\<lambda>x y. \<not> seq_less y x) (butlast (sb_seq sb) @ [s])"
      using ord ap by (simp add: seq_order_def)
    then have "x = s \<or> \<not> seq_less s x" using x by (subst (asm) ap) (auto simp: sorted_wrt_append)
    moreover have "sq_n_seq_id x > 0" using ord x by (simp add: seq_order_def)
    ultimately show "sq_n_seq_id x > 0 \<and> len \<le> sq_length x"
      using lens pos that by (auto simp: seq_less_def split: if_splits)
  qed
qed

lemma split_equal_first:
  "split_equal_loop (Suc i) cap 0 n_in sb ub =
   (if i < length (sb_seq sb) then
      split_equal_loop (Suc i) cap (if sq_length (sb_seq sb ! i) < cap then sq_length (sb_seq sb ! i) else cap) n_in sb ub
    else Inl OutOfBounds)"
  by (auto simp: rnth_def Let_def)

text \<open>A split whose work after \<open>reserve_ubatch\<close> goes well satisfies the contract.\<close>

lemma split_postI:
  assumes inv: "sb_inv sb" "sb_batch sb = Some b" "seq_order sb"
    and r: "reserve_ubatch sb cap (b_embd b \<noteq> None) = (sb1, ub)" and cap: "cap \<le> n_ubatch" "sb_n_tokens sb > 0 \<Longrightarrow> 0 < cap"
    and body: "\<And>s len. sb_seq sb1 \<noteq> [] \<Longrightarrow> 0 < cap \<Longrightarrow> s = last (sb_seq sb1) \<Longrightarrow>
      len = (if sq_length s < cap then sq_length s else cap) \<Longrightarrow>
      \<exists>sb2 ub2 dn j. run = Inr (sb2, ub2) \<and> progress sb1 [] sb2 dn \<and> building b (sb_n_embd sb) cap len ub2 dn \<and>
        ub_n_tokens ub2 \<le> cap \<and> ub_n_seqs ub2 > 0 \<and> sb_seq sb2 = take j (sb_seq sb1) @ map (advance len) (drop j (sb_seq sb1))"
    and empty: "sb_seq sb1 = [] \<Longrightarrow> run = Inr (sb1, ub)"
  shows "\<exists>sb' ub'. run = Inr (sb', ub') \<and> split_post sb n_ubatch sb' ub' \<and> sb_inv sb' \<and> seq_order sb'"
proof (cases "sb_seq sb1 = []")
  case True
  note rp = reserve_ubatch_props [OF inv(1,2) r]
  have "sb_n_tokens sb = 0" using rp(2,4) True by (simp add: sb_inv_def)
  moreover have "progress sb [] sb1 []" by (rule progress_refl) (use rp in auto)
  ultimately have "split_post sb n_ubatch sb1 ub"
    using rp(9-12) inv(2) unfolding split_post_def by (metis less_irrefl mult_0 zero_le)
  with rp(2,6) empty [OF True] inv(3) show ?thesis by auto
next
  case False
  note rp = reserve_ubatch_props [OF inv(1,2) r]
  define len where "len = (if sq_length (last (sb_seq sb1)) < cap then sq_length (last (sb_seq sb1)) else cap)"
  have "sb_n_tokens sb > 0"
    using rp(2,4) rp(7) [OF False] False last_in_set [OF False] member_le_sum_list [of "sq_length (last (sb_seq sb1))" "map sq_length (sb_seq sb1)"]
    by (fastforce simp: sb_inv_def)
  then have cp: "0 < cap" by (rule cap(2))
  have "0 < len" using last_run(1) [OF rp(2) rp(6) [OF inv(3)] False rp(7) [OF False] cp] by (simp add: len_def)
  obtain sb2 ub2 dn j where st: "run = Inr (sb2, ub2)" "progress sb1 [] sb2 dn" "building b (sb_n_embd sb) cap len ub2 dn"
    "ub_n_tokens ub2 \<le> cap" "ub_n_seqs ub2 > 0" "sb_seq sb2 = take j (sb_seq sb1) @ map (advance len) (drop j (sb_seq sb1))"
    using body [OF False cp refl len_def] by blast
  have "progress sb [] sb2 dn" by (rule progress_reserve [OF rp(1,3,4,5) st(2)])
  then have "split_post sb n_ubatch sb2 ub2"
    using st(3-5) inv(2) cap(1) \<open>0 < len\<close> by (auto simp: split_post_def building_def)
  moreover have "sb_inv sb2" using st(2) by (simp add: progress_def)
  ultimately show ?thesis using st(1) seq_order_advance [OF rp(6) [OF inv(3)] st(6)] by blast
qed

lemma building_start:
  assumes "sb_inv sb" "sb_batch sb = Some b" "reserve_ubatch sb cap (b_embd b \<noteq> None) = (sb1, ub)"
  shows "building b (sb_n_embd sb1) cap len ub []" "sb_n_embd sb1 = sb_n_embd sb" "sb_batch sb1 = Some b"
  using reserve_ubatch_props [OF assms] assms(2) by (simp_all add: building_def same_frame_def)

lemma split_equal_ok:
  assumes inv: "sb_inv sb" "seq_order sb" "0 < n_ubatch"
  shows "\<exists>sb' ub. split_equal sb n_ubatch = Inr (sb', ub) \<and> split_post sb n_ubatch sb' ub \<and> sb_inv sb' \<and> seq_order sb'"
proof -
  obtain b where b: "sb_batch sb = Some b" using inv by (auto simp: sb_inv_def)
  define cap where "cap = (if sb_n_tokens sb < n_ubatch then sb_n_tokens sb else n_ubatch)"
  obtain sb1 ub where r: "reserve_ubatch sb cap (b_embd b \<noteq> None) = (sb1, ub)" by fastforce
  note rp = reserve_ubatch_props [OF inv(1) b r] and bs = building_start [OF inv(1) b r]
  have eq: "split_equal sb n_ubatch = (case sb_seq sb1 of [] \<Rightarrow> Inr (sb1, ub)
      | s # rest \<Rightarrow> rbind (rguard (sq_n_seq_id s > 0) GgmlAssert) (\<lambda>_. split_equal_loop (length (sb_seq sb1)) cap 0 0 sb1 ub))"
    unfolding split_equal_def cap_def has_embd_def b using r by (simp add: Let_def cap_def)
  show ?thesis
  proof (rule split_postI [OF inv(1) b inv(2) r])
    fix s len
    assume ne: "sb_seq sb1 \<noteq> []" and cp: "0 < cap" and s: "s = last (sb_seq sb1)"
      and len: "len = (if sq_length s < cap then sq_length s else cap)"
    note lr = last_run [OF rp(2) rp(6) [OF inv(2)] ne rp(7) [OF ne] cp, folded s, folded len]
    define i where "i = length (sb_seq sb1) - 1"
    have i: "length (sb_seq sb1) = Suc i" using ne by (simp add: i_def)
    have hd: "sq_n_seq_id (hd (sb_seq sb1)) > 0" using rp(6) [OF inv(2)] ne by (simp add: seq_order_def)
    have run: "split_equal sb n_ubatch = split_equal_loop (Suc i) cap len 0 sb1 ub"
      unfolding eq using ne hd i lr(5) i_def len split_equal_first [of i cap 0 sb1 ub] by (cases "sb_seq sb1") auto
    show "\<exists>sb2 ub2 dn j. split_equal sb n_ubatch = Inr (sb2, ub2) \<and> progress sb1 [] sb2 dn \<and>
        building b (sb_n_embd sb) cap len ub2 dn \<and> ub_n_tokens ub2 \<le> cap \<and> ub_n_seqs ub2 > 0 \<and>
        sb_seq sb2 = take j (sb_seq sb1) @ map (advance len) (drop j (sb_seq sb1))"
    proof (cases "sq_n_seq_id s \<le> 1")
      case True
      have all: "\<forall>x \<in> set (take (Suc i) (sb_seq sb1)). sq_n_seq_id x > 0 \<and> len \<le> sq_length x"
        using lr(7) [OF True] i by simp
      have "0 < Suc i" "Suc i \<le> length (sb_seq sb1)" "ub_n_tokens ub + len \<le> cap" using i rp(12) lr(3) by simp_all
      with split_equal_loop_ok [OF rp(2) bs(3) _ all lr(1) bs(1) refl] show ?thesis
        unfolding run using rp(12) bs(2) i by fastforce
    next
      case False
      have "sq_n_seq_id s \<noteq> 0" "ub_n_tokens ub + len \<le> cap" using lr(3,4) rp(12) by simp_all
      with add_seq_progress [OF rp(2) bs(3) lr(6,5,1,2) _ bs(1)]
      obtain sb2 ub2 dn where st: "add_seq_to_ubatch sb1 ub i len = Inr (sb2, ub2)" "progress sb1 [] sb2 dn"
        "building b (sb_n_embd sb1) cap len ub2 dn" "ub_n_seqs ub2 = Suc (ub_n_seqs ub)" "ub_n_tokens ub2 = ub_n_tokens ub + len"
        "sb_seq sb2 = (sb_seq sb1)[i := advance len s]" unfolding i_def by auto
      have si: "sb_seq sb1 ! i = s" using lr(5) by (simp add: i_def)
      have "split_equal_loop (Suc i) cap len 0 sb1 ub = Inr (sb2, ub2)"
        using i si st(1) lr(1,2) False by (simp add: Let_def)
      moreover have "sb_seq sb2 = take i (sb_seq sb1) @ map (advance len) (drop i (sb_seq sb1))"
        using st(6) si i update_split [of i "sb_seq sb1" "advance len s"] by (simp add: Cons_nth_drop_Suc [symmetric])
      ultimately show ?thesis unfolding run using st bs(2) rp(12) lr(3) by auto
    qed
  qed (use eq in \<open>auto simp: cap_def inv(3)\<close>)
qed

lemma split_seq_ok:
  assumes inv: "sb_inv sb" "seq_order sb" "0 < n_ubatch"
  shows "\<exists>sb' ub. split_seq sb n_ubatch = Inr (sb', ub) \<and> split_post sb n_ubatch sb' ub \<and> sb_inv sb' \<and> seq_order sb'"
proof -
  obtain b where b: "sb_batch sb = Some b" using inv by (auto simp: sb_inv_def)
  define cap where "cap = (if sb_n_tokens sb < n_ubatch then sb_n_tokens sb else n_ubatch)"
  obtain sb1 ub where r: "reserve_ubatch sb cap (b_embd b \<noteq> None) = (sb1, ub)" by fastforce
  note rp = reserve_ubatch_props [OF inv(1) b r] and bs = building_start [OF inv(1) b r]
  have eq: "split_seq sb n_ubatch = (if sb_seq sb1 = [] then Inr (sb1, ub)
      else let s = last (sb_seq sb1); len = (if sq_length s < cap then sq_length s else cap) in
        rbind (rguard (sq_n_seq_id s > 0) GgmlAssert) (\<lambda>_. add_seq_to_ubatch sb1 ub (length (sb_seq sb1) - 1) len))"
    unfolding split_seq_def has_embd_def b using r by (simp add: Let_def cap_def)
  show ?thesis
  proof (rule split_postI [OF inv(1) b inv(2) r])
    fix s len
    assume ne: "sb_seq sb1 \<noteq> []" and cp: "0 < cap" and s: "s = last (sb_seq sb1)"
      and len: "len = (if sq_length s < cap then sq_length s else cap)"
    note lr = last_run [OF rp(2) rp(6) [OF inv(2)] ne rp(7) [OF ne] cp, folded s, folded len]
    define i where "i = length (sb_seq sb1) - 1"
    have "sq_n_seq_id s \<noteq> 0" "ub_n_tokens ub + len \<le> cap" using lr(3,4) rp(12) by simp_all
    with add_seq_progress [OF rp(2) bs(3) lr(6,5,1,2) _ bs(1)]
    obtain sb2 ub2 dn where st: "add_seq_to_ubatch sb1 ub i len = Inr (sb2, ub2)" "progress sb1 [] sb2 dn"
      "building b (sb_n_embd sb1) cap len ub2 dn" "ub_n_seqs ub2 = Suc (ub_n_seqs ub)" "ub_n_tokens ub2 = ub_n_tokens ub + len"
      "sb_seq sb2 = (sb_seq sb1)[i := advance len s]" unfolding i_def by auto
    have "split_seq sb n_ubatch = Inr (sb2, ub2)"
      unfolding eq using ne lr(4) st(1) by (simp add: Let_def s [symmetric] len [symmetric] i_def)
    moreover have "sb_seq sb2 = take i (sb_seq sb1) @ map (advance len) (drop i (sb_seq sb1))"
      using st(6) lr(5,6) update_split [of i "sb_seq sb1" "advance len s"] by (simp add: i_def Cons_nth_drop_Suc [symmetric])
    ultimately show "\<exists>sb2 ub2 dn j. split_seq sb n_ubatch = Inr (sb2, ub2) \<and> progress sb1 [] sb2 dn \<and>
        building b (sb_n_embd sb) cap len ub2 dn \<and> ub_n_tokens ub2 \<le> cap \<and> ub_n_seqs ub2 > 0 \<and>
        sb_seq sb2 = take j (sb_seq sb1) @ map (advance len) (drop j (sb_seq sb1))"
      using st bs(2) rp(12) lr(3) by auto
  qed (use eq in \<open>auto simp: cap_def inv(3)\<close>)
qed

section \<open>Correctness of \<open>from_batch\<close>\<close>

text \<open>The comparator orders batch indices by a key: shared prompts first, then the sequence ids,
  then the position.\<close>

definition ids_key :: "llama_batch \<Rightarrow> nat \<Rightarrow> int \<times> int list \<times> int" where
  "ids_key b a = (- batch_n_seq b a, the (b_seq_id b) ! a, the (b_pos b) ! a)"

lemma seq_ids_less_eq:
  "length xs = n \<Longrightarrow> length ys = n \<Longrightarrow> seq_ids_less xs ys n = (if xs = ys then None else Some (xs < ys))"
proof (induction xs arbitrary: ys n)
  case Nil
  then show ?case by simp
next
  case (Cons x xs)
  then obtain y ys' m where "ys = y # ys'" "n = Suc m" "length ys' = m" "length xs = m"
    by (cases ys) auto
  with Cons.IH show ?case by auto
qed

lemma ids_less_key:
  assumes "batch_ok b n ne" "a < n" "c < n"
  shows "ids_less b a c \<longleftrightarrow> ids_key b a < ids_key b c"
proof -
  from assms(1) obtain l q p where b: "b_n_seq_id b = Some l" "b_seq_id b = Some q" "b_pos b = Some p"
    "\<forall>i < n. int (length (q ! i)) = l ! i"
    by (auto simp: batch_ok_def split: option.splits)
  then have len: "length (q ! a) = nat (l ! a)" "length (q ! c) = nat (l ! c)"
    using assms(2,3) by (metis nat_int)+
  show ?thesis
  proof (cases "l ! a = l ! c")
    case True
    with len have "seq_ids_less (q ! a) (q ! c) (nat (l ! a)) = (if q ! a = q ! c then None else Some (q ! a < q ! c))"
      by (intro seq_ids_less_eq) simp_all
    with True b show ?thesis by (auto simp: ids_less_def ids_key_def batch_n_seq_def)
  next
    case False
    with b show ?thesis by (auto simp: ids_less_def ids_key_def batch_n_seq_def)
  qed
qed

lemma strict_weak_key: "(\<And>x y. x \<in> A \<Longrightarrow> y \<in> A \<Longrightarrow> lt x y \<longleftrightarrow> f x < (f y :: 'k::linorder)) \<Longrightarrow> strict_weak lt A"
  unfolding strict_weak_def by (fastforce dest: order.strict_trans)

lemma strict_weak_ids: "batch_ok b n ne \<Longrightarrow> strict_weak (ids_less b) (set [0..<n])"
  by (rule strict_weak_key [where f = "ids_key b"]) (simp add: ids_less_key)

lemma strict_weak_seq: "strict_weak seq_less A"
  by (rule strict_weak_key [where f = "\<lambda>s. (sq_n_seq_id s, - int (sq_length s))"]) (auto simp: seq_less_def)

text \<open>The runs built from the first \<open>i\<close> sorted indices: they cover them in order, and every token of a
  run has exactly the run's sequence ids.\<close>

definition run_ok :: "llama_batch \<Rightarrow> nat list \<Rightarrow> llama_sbatch_seq \<Rightarrow> bool" where
  "run_ok b ids s \<longleftrightarrow> sq_n_seq_id s > 0 \<and> sq_length s > 0 \<and> sq_offset s + sq_length s \<le> length ids \<and>
     (\<exists>l. sq_seq_id s = Some l \<and> int (length l) = sq_n_seq_id s \<and>
        (\<forall>k \<in> set (seq_rest ids s). the (b_seq_id b) ! k = l))"

definition runs_inv :: "llama_batch \<Rightarrow> nat list \<Rightarrow> llama_sbatch_seq list \<Rightarrow> nat \<Rightarrow> llama_sbatch_seq list \<times> bool \<Rightarrow> bool" where
  "runs_inv b ids old i st \<longleftrightarrow> (\<exists>rs. st = (old @ rs, rs \<noteq> []) \<and> (rs \<noteq> [] \<longleftrightarrow> i > 0) \<and>
     concat (map (seq_rest ids) rs) = take i ids \<and> sum_list (map sq_length rs) = i \<and>
     (\<forall>s \<in> set rs. run_ok b ids s) \<and> (rs \<noteq> [] \<longrightarrow> sq_offset (last rs) + sq_length (last rs) = i))"

lemma same_seq_eq:
  assumes "sq_seq_id lst = Some l" "int (length l) = sq_n_seq_id lst" "int (length xs) = n"
  shows "same_seq n xs lst = Inr (xs = l)"
proof (cases "n = sq_n_seq_id lst")
  case False
  with assms show ?thesis by (auto simp: same_seq_def)
next
  case True
  then have len: "length l = length xs" "nat n = length xs" using assms by auto
  let ?f = "\<lambda>j same. if \<not> same then Inr False
      else rbind (rnth xs j) (\<lambda>x. rbind (deref (sq_seq_id lst)) (\<lambda>l. rbind (rnth l j) (\<lambda>y. Inr (x = y))))"
  have "rfold ?f [0..<length xs] (take 0 xs = take 0 l) = Inr (take (length xs) xs = take (length xs) l)"
    by (rule rfold_upt_closed) (use assms(1) len in \<open>auto simp: deref_def take_Suc_conv_app_nth\<close>)
  then show ?thesis using True len by (simp add: same_seq_def)
qed

lemma seq_rest_grow:
  assumes "sq_offset s + sq_length s < length ids"
  shows "seq_rest ids (s\<lparr>sq_length := Suc (sq_length s)\<rparr>) = seq_rest ids s @ [ids ! (sq_offset s + sq_length s)]"
  using assms by (simp add: seq_rest_def take_Suc_conv_app_nth)

lemma init_seq_step_ok:
  assumes ok: "batch_ok b (length ids) ne" and rng: "\<forall>k \<in> set ids. k < length ids"
    and i: "i < length ids" and inv: "runs_inv b ids old i st"
  shows "\<exists>st'. init_seq_step b ids i st = Inr st' \<and> runs_inv b ids old (Suc i) st'"
proof -
  from inv obtain rs where rs: "st = (old @ rs, rs \<noteq> [])" "(rs \<noteq> []) = (i > 0)"
    "concat (map (seq_rest ids) rs) = take i ids" "sum_list (map sq_length rs) = i"
    "\<forall>s \<in> set rs. run_ok b ids s" "rs \<noteq> [] \<longrightarrow> sq_offset (last rs) + sq_length (last rs) = i"
    by (auto simp: runs_inv_def)
  let ?k = "ids ! i"
  have k: "?k < length ids" using rng i by simp
  from ok obtain l q where b: "b_n_seq_id b = Some l" "b_seq_id b = Some q" "length ids \<le> length l" "length ids \<le> length q"
    "\<forall>x \<in> set (take (length ids) l). x > 0" "int (length (q ! ?k)) = l ! ?k"
    using k by (auto simp: batch_ok_def split: option.splits)
  have pos: "l ! ?k > 0" using b(3,5) k by (metis in_set_conv_nth length_take min.absorb2 nth_take)
  let ?new = "\<lparr>sq_n_seq_id = l ! ?k, sq_seq_id = Some (q ! ?k), sq_offset = i, sq_length = 1\<rparr> :: llama_sbatch_seq"
  let ?grown = "(last rs)\<lparr>sq_length := Suc (sq_length (last rs))\<rparr>"
  have step: "init_seq_step b ids i st = rbind (if rs \<noteq> [] then same_seq (l ! ?k) (q ! ?k) (last (old @ rs)) else Inr False) (\<lambda>same.
      if same then Inr (butlast (old @ rs) @ [(last (old @ rs))\<lparr>sq_length := sq_length (last (old @ rs)) + 1\<rparr>], True)
      else Inr ((old @ rs) @ [?new], True))"
    using i k b by (simp add: init_seq_step_def rs(1) deref_def)
  show ?thesis
  proof (cases "rs \<noteq> [] \<and> Some (q ! ?k) = sq_seq_id (last rs)")
    case True
    then have lst: "run_ok b ids (last rs)" "sq_offset (last rs) + sq_length (last rs) = i" using rs(5,6) by auto
    then have same: "same_seq (l ! ?k) (q ! ?k) (last rs) = Inr True"
      using True b(6) by (auto simp: run_ok_def same_seq_eq)
    have bl: "rs = butlast rs @ [last rs]" using True by simp
    have grow: "seq_rest ids ?grown = seq_rest ids (last rs) @ [?k]" using seq_rest_grow [of "last rs" ids] lst(2) i by simp
    have "run_ok b ids ?grown"
      using lst True i b(2) unfolding run_ok_def grow by auto
    moreover have "concat (map (seq_rest ids) (butlast rs @ [?grown])) = take (Suc i) ids"
    proof -
      have "concat (map (seq_rest ids) (butlast rs @ [last rs])) = take i ids" using rs(3) bl by metis
      then show ?thesis by (simp add: grow take_Suc_conv_app_nth [OF i])
    qed
    moreover have "sum_list (map sq_length (butlast rs @ [?grown])) = Suc i"
    proof -
      have "sum_list (map sq_length (butlast rs @ [last rs])) = i" using rs(4) bl by metis
      then show ?thesis by simp
    qed
    moreover have "\<forall>s \<in> set (butlast rs). run_ok b ids s" using rs(5) by (meson in_set_butlastD)
    ultimately have "runs_inv b ids old (Suc i) (old @ butlast rs @ [?grown], True)"
      using lst(2) by (auto simp: runs_inv_def intro!: exI [of _ "butlast rs @ [?grown]"])
    with step same True show ?thesis by (simp add: butlast_append)
  next
    case False
    have "same_seq (l ! ?k) (q ! ?k) (last rs) = Inr False" if ne: "rs \<noteq> []"
    proof -
      from ne rs(5) have "run_ok b ids (last rs)" by simp
      then obtain m where m: "sq_seq_id (last rs) = Some m" "int (length m) = sq_n_seq_id (last rs)"
        by (auto simp: run_ok_def)
      from same_seq_eq [OF m b(6)] m(1) ne False show ?thesis by auto
    qed
    then have st: "init_seq_step b ids i st = Inr (old @ (rs @ [?new]), True)" using step by simp
    have "run_ok b ids ?new" using i b pos by (simp add: run_ok_def seq_rest_def take_Suc_conv_app_nth)
    then have "runs_inv b ids old (Suc i) (old @ (rs @ [?new]), True)"
      using rs(3-5) i by (auto simp: runs_inv_def seq_rest_def take_Suc_conv_app_nth intro!: exI [of _ "rs @ [?new]"])
    with st show ?thesis by blast
  qed
qed

text \<open>The state a context leaves behind: only finished runs.\<close>

definition drained :: "llama_sbatch \<Rightarrow> bool" where
  "drained sb \<longleftrightarrow> (\<forall>s \<in> set (sb_seq sb). sq_length s = 0 \<and> sq_n_seq_id s > 0)"

text \<open>Every run holds the tokens of exactly one set of sequences, in order of position.\<close>

definition runs_sorted :: "llama_batch \<Rightarrow> llama_sbatch \<Rightarrow> bool" where
  "runs_sorted b sb \<longleftrightarrow> (\<forall>s \<in> set (sb_seq sb). sq_length s > 0 \<longrightarrow>
     (\<forall>k \<in> set (seq_rest (sb_ids sb) s). Some (the (b_seq_id b) ! k) = sq_seq_id s) \<and>
     sorted (map ((!) (the (b_pos b))) (seq_rest (sb_ids sb) s)))"

lemma run_positions:
  assumes ok: "batch_ok b n ne" and rng: "\<forall>k \<in> set ids. k < n" and srt: "sorted_wrt (\<lambda>x y. \<not> ids_less b y x) ids"
    and run: "run_ok b ids s"
  shows "sorted (map ((!) (the (b_pos b))) (seq_rest ids s))"
proof -
  let ?r = "seq_rest ids s"
  have sub: "set ?r \<subseteq> set ids" unfolding seq_rest_def by (meson in_set_takeD in_set_dropD subsetI)
  from run obtain l where l: "\<forall>k \<in> set ?r. the (b_seq_id b) ! k = l" by (auto simp: run_ok_def)
  from ok obtain m q where b: "b_n_seq_id b = Some m" "b_seq_id b = Some q" "\<forall>i < n. int (length (q ! i)) = m ! i"
    by (auto simp: batch_ok_def split: option.splits)
  have "sorted_wrt (\<lambda>x y. \<not> ids_less b y x) ?r"
    using srt unfolding seq_rest_def by (intro sorted_wrt_take sorted_wrt_drop)
  then have "sorted_wrt (\<lambda>x y. the (b_pos b) ! x \<le> the (b_pos b) ! y) ?r"
  proof (rule sorted_wrt_mono_rel [rotated])
    fix x y assume xy: "x \<in> set ?r" "y \<in> set ?r" "\<not> ids_less b y x"
    then have "x < n" "y < n" "q ! x = q ! y" using sub rng l b(2) by auto
    moreover from this have "m ! x = m ! y" using b(3) by metis
    ultimately have "\<not> ids_key b y < ids_key b x" using xy(3) ids_less_key [OF ok] by simp
    with \<open>q ! x = q ! y\<close> \<open>m ! x = m ! y\<close> b show "the (b_pos b) ! x \<le> the (b_pos b) ! y"
      by (simp add: ids_key_def batch_n_seq_def)
  qed
  then show ?thesis by (simp add: sorted_wrt_map)
qed

lemma from_batch_ok:
  assumes srt: "std_sort srt_ids" "std_sort srt_seq" and ok: "batch_ok b n ne" and n: "b_n_tokens b = int n" and old: "drained sb"
  shows "\<exists>sb'. from_batch srt_ids srt_seq sb b ne False la = Inr sb' \<and> sb_inv sb' \<and> seq_order sb' \<and>
    mset (sb_rest sb') = mset [0..<n] \<and> sb_n_tokens sb' = n \<and> sb_out_ids sb' = [] \<and> runs_sorted b sb' \<and>
    sb_batch sb' = Some b \<and> sb_logits_all sb' = la \<and> length (sb_ids sb') = n \<and> sb_n_embd sb' = ne"
proof -
  define ids where "ids = srt_ids (ids_less b) [0..<n]"
  note sw = strict_weak_ids [OF ok]
  have perm: "mset ids = mset [0..<n]" and srtd: "sorted_wrt (\<lambda>x y. \<not> ids_less b y x) ids"
    unfolding ids_def using std_sort.srt_perm [OF srt(1) sw] std_sort.srt_sorted [OF srt(1) sw] .
  have len: "length ids = n" using perm by (metis diff_zero length_upt size_mset)
  have st: "set ids = {0..<n}" using perm by (metis set_mset_mset set_upt)
  then have rng: "\<forall>k \<in> set ids. k < length ids" using len by simp
  have ok': "batch_ok b (length ids) ne" using ok len by simp
  have "\<exists>st. rfold (init_seq_step b ids) [0..<n] (sb_seq sb, False) = Inr st \<and> runs_inv b ids (sb_seq sb) n st"
    by (rule rfold_upt_inv) (use init_seq_step_ok [OF ok' rng] len in \<open>auto simp: runs_inv_def\<close>)
  then obtain rs hl where run: "rfold (init_seq_step b ids) [0..<n] (sb_seq sb, False) = Inr (sb_seq sb @ rs, hl)"
    "concat (map (seq_rest ids) rs) = ids" "sum_list (map sq_length rs) = n" "\<forall>s \<in> set rs. run_ok b ids s"
    using len unfolding runs_inv_def by (metis order.refl take_all)
  define sq where "sq = srt_seq seq_less (sb_seq sb @ rs)"
  note sq = std_sort.srt_set [OF srt(2) strict_weak_seq] std_sort.srt_sorted [OF srt(2) strict_weak_seq]
    std_sort.srt_sum [OF srt(2) strict_weak_seq] std_sort.srt_perm [OF srt(2) strict_weak_seq]
  have set_sq: "set sq = set (sb_seq sb) \<union> set rs" by (simp add: sq_def sq(1))
  have z: "sum_list (map sq_length (sb_seq sb)) = 0" "\<forall>s \<in> set (sb_seq sb). seq_rest ids s = []"
    using old unfolding drained_def by (induction "sb_seq sb") simp_all
  define sb' where "sb' = sb\<lparr>sb_batch := Some b, sb_n_embd := ne, sb_logits_all := la, sb_n_tokens := n,
      sb_ids := ids, sb_out_ids := [], sb_seq := sq\<rparr>"
  have eq: "from_batch srt_ids srt_seq sb b ne False la = Inr sb'"
    using run(1) by (simp add: from_batch_def n ids_def [symmetric] sq_def sb'_def)
  have "mset (concat (map (seq_rest ids) sq)) = mset (concat (map (seq_rest ids) (sb_seq sb @ rs)))"
    unfolding mset_concat map_map sq_def using sq(4) by (metis mset_map sum_mset_sum_list)
  also have "\<dots> = mset ids" using z(2) run(2) by (simp add: concat_eq_Nil_conv)
  finally have rest: "mset (sb_rest sb') = mset [0..<n]" using perm by (simp add: sb_rest_def sb'_def)
  have "sb_inv sb'" using ok' rng old run(3,4) z(1) set_sq len sq(3) [of sq_length]
    unfolding sb_inv_def sb'_def drained_def run_ok_def by (auto simp: sq_def)
  moreover have "seq_order sb'" using sq(2) set_sq old run(4)
    unfolding seq_order_def sb'_def drained_def run_ok_def by (auto simp: sq_def)
  moreover have "runs_sorted b sb'"
  proof -
    have "run_ok b ids s" if "s \<in> set sq" "sq_length s > 0" for s
      using that set_sq old run(4) by (auto simp: drained_def)
    moreover have "\<forall>k \<in> set ids. k < n" using st by simp
    ultimately show ?thesis unfolding runs_sorted_def sb'_def
      using run_positions [OF ok _ srtd] by (fastforce simp: run_ok_def)
  qed
  ultimately show ?thesis using eq rest len by (intro exI [of _ sb']) (simp add: sb'_def)
qed

end
