(* ===== verification/Hparams.thy ===== *)
theory Hparams
  imports Prelude
begin

text \<open>
  Model hyper-parameters: the accessors of \<^verbatim>\<open>llama-hparams.cpp\<close> over the fields of
  \<open>llama_hparams\<close> they read. Arrays of \<open>LLAMA_MAX_LAYERS\<close> entries are lists; an accessor
  called with a layer index that is not below \<open>n_layer\<close> aborts. Products of 32-bit
  values wrap.
\<close>

definition LLAMA_MAX_LAYERS :: nat where
  "LLAMA_MAX_LAYERS = 512"

record llama_hparams =
  hp_n_embd            :: nat
  hp_n_layer           :: nat
  hp_n_embd_head_k     :: nat
  hp_n_embd_head_v     :: nat
  hp_n_head_arr        :: "nat list"
  hp_n_head_kv_arr     :: "nat list"
  hp_n_ff_arr          :: "nat list"
  hp_n_bskcn_arr       :: "nat list list"
  hp_cross_attn_layers :: "nat list"
  hp_wkv_head_size     :: nat
  hp_token_shift_count :: nat
  hp_ssm_d_conv        :: nat
  hp_ssm_d_inner       :: nat
  hp_ssm_d_state       :: nat
  hp_n_vocab           :: nat
  hp_n_swa             :: nat
  hp_n_rel_attn_bkts   :: nat
  hp_causal_attn       :: bool
  hp_use_alibi         :: bool

text \<open>\<open>std::array\<close> fields have \<open>LLAMA_MAX_LAYERS\<close> entries and the loader refuses more layers.\<close>

definition hparams_ok :: "llama_hparams \<Rightarrow> bool" where
  "hparams_ok hp \<longleftrightarrow> hp_n_layer hp \<le> LLAMA_MAX_LAYERS \<and>
     length (hp_n_head_arr hp) = LLAMA_MAX_LAYERS \<and> length (hp_n_head_kv_arr hp) = LLAMA_MAX_LAYERS \<and>
     length (hp_n_ff_arr hp) = LLAMA_MAX_LAYERS \<and> length (hp_cross_attn_layers hp) = LLAMA_MAX_LAYERS \<and>
     length (hp_n_bskcn_arr hp) = 4 \<and> (\<forall>xs \<in> set (hp_n_bskcn_arr hp). length xs = LLAMA_MAX_LAYERS)"

definition layer_nth :: "llama_hparams \<Rightarrow> nat list \<Rightarrow> nat \<Rightarrow> nat res" where
  "layer_nth hp arr il = (if il < hp_n_layer hp then rnth arr il else Inl GgmlAbort)"

definition n_head :: "llama_hparams \<Rightarrow> nat \<Rightarrow> nat res" where
  "n_head hp il = layer_nth hp (hp_n_head_arr hp) il"

definition n_head_kv :: "llama_hparams \<Rightarrow> nat \<Rightarrow> nat res" where
  "n_head_kv hp il = layer_nth hp (hp_n_head_kv_arr hp) il"

definition n_ff :: "llama_hparams \<Rightarrow> nat \<Rightarrow> nat res" where
  "n_ff hp il = layer_nth hp (hp_n_ff_arr hp) il"

definition n_gqa :: "llama_hparams \<Rightarrow> nat \<Rightarrow> nat res" where
  "n_gqa hp il = rbind (n_head hp il) (\<lambda>h. rbind (n_head_kv hp il) (\<lambda>hk.
     if hk = 0 then Inr 0 else Inr (h div hk)))"

definition n_embd_k_gqa :: "llama_hparams \<Rightarrow> nat \<Rightarrow> nat res" where
  "n_embd_k_gqa hp il = rbind (n_head_kv hp il) (\<lambda>hk. Inr (u32 (hp_n_embd_head_k hp * hk)))"

definition n_embd_v_gqa :: "llama_hparams \<Rightarrow> nat \<Rightarrow> nat res" where
  "n_embd_v_gqa hp il = rbind (n_head_kv hp il) (\<lambda>hk. Inr (u32 (hp_n_embd_head_v hp * hk)))"

definition n_embd_k_s :: "llama_hparams \<Rightarrow> nat" where
  "n_embd_k_s hp =
     (if hp_wkv_head_size hp \<noteq> 0 then u32 (hp_token_shift_count hp * hp_n_embd hp)
      else u32 ((if hp_ssm_d_conv hp > 0 then hp_ssm_d_conv hp - 1 else 0) * hp_ssm_d_inner hp))"

definition n_embd_v_s :: "llama_hparams \<Rightarrow> nat" where
  "n_embd_v_s hp =
     (if hp_wkv_head_size hp \<noteq> 0 then u32 (hp_n_embd hp * hp_wkv_head_size hp)
      else u32 (hp_ssm_d_state hp * hp_ssm_d_inner hp))"

definition n_bskcn :: "llama_hparams \<Rightarrow> nat \<Rightarrow> nat \<Rightarrow> bool res" where
  "n_bskcn hp n il =
     (if il < hp_n_layer hp
      then rbind (rnth (hp_n_bskcn_arr hp) n) (\<lambda>row. rbind (rnth row il) (\<lambda>x. Inr (x > 0)))
      else Inl GgmlAbort)"

definition cross_attention_layers :: "llama_hparams \<Rightarrow> nat \<Rightarrow> bool" where
  "cross_attention_layers hp il \<longleftrightarrow> il \<in> set (hp_cross_attn_layers hp)"

text \<open>The accessors abort exactly on a layer the model does not have, and are 32-bit values.\<close>

lemma layer_nth_ok:
  "length arr = LLAMA_MAX_LAYERS \<Longrightarrow> hp_n_layer hp \<le> LLAMA_MAX_LAYERS \<Longrightarrow>
   layer_nth hp arr il = (if il < hp_n_layer hp then Inr (arr ! il) else Inl GgmlAbort)"
  by (simp add: layer_nth_def)

lemma n_embd_gqa_cases:
  assumes "hparams_ok hp"
  shows "n_embd_k_gqa hp il = (if il < hp_n_layer hp then Inr (u32 (hp_n_embd_head_k hp * hp_n_head_kv_arr hp ! il)) else Inl GgmlAbort)"
    and "n_embd_v_gqa hp il = (if il < hp_n_layer hp then Inr (u32 (hp_n_embd_head_v hp * hp_n_head_kv_arr hp ! il)) else Inl GgmlAbort)"
  using assms by (simp_all add: hparams_ok_def n_embd_k_gqa_def n_embd_v_gqa_def n_head_kv_def layer_nth_ok)

text \<open>Grouped-query attention: the query heads of a layer split evenly over its key/value heads
  when their number divides them.\<close>

lemma n_gqa_mult:
  assumes "hparams_ok hp" "il < hp_n_layer hp" "hp_n_head_kv_arr hp ! il dvd hp_n_head_arr hp ! il"
    and "hp_n_head_kv_arr hp ! il \<noteq> 0"
  shows "\<exists>g. n_gqa hp il = Inr g \<and> g * hp_n_head_kv_arr hp ! il = hp_n_head_arr hp ! il"
  using assms by (simp add: n_gqa_def n_head_def n_head_kv_def hparams_ok_def layer_nth_ok)

text \<open>Hyper-parameters of a small transformer, for examples.\<close>

definition hp_of :: "nat \<Rightarrow> nat \<Rightarrow> nat \<Rightarrow> llama_hparams" where
  "hp_of layers heads dim = \<lparr>hp_n_embd = heads * dim, hp_n_layer = layers, hp_n_embd_head_k = dim, hp_n_embd_head_v = dim,
     hp_n_head_arr = replicate LLAMA_MAX_LAYERS heads, hp_n_head_kv_arr = replicate LLAMA_MAX_LAYERS heads,
     hp_n_ff_arr = replicate LLAMA_MAX_LAYERS 0, hp_n_bskcn_arr = replicate 4 (replicate LLAMA_MAX_LAYERS 0),
     hp_cross_attn_layers = replicate LLAMA_MAX_LAYERS 0, hp_wkv_head_size = 0, hp_token_shift_count = 0,
     hp_ssm_d_conv = 0, hp_ssm_d_inner = 0, hp_ssm_d_state = 0, hp_n_vocab = 2,
     hp_n_swa = 0, hp_n_rel_attn_bkts = 0, hp_causal_attn = True, hp_use_alibi = False\<rparr>"

end
