(* ===== verification/KvCache.thy ===== *)
theory KvCache
  imports Batch Hparams
begin

text \<open>
  The key/value cache: \<^verbatim>\<open>llama-kv-cache.h\<close> and \<^verbatim>\<open>llama-kv-cache.cpp\<close>.

  A cache is a vector of cells; a cell has a position, a pending shift and the set of sequences
  that see it. Transformer models use one cell per token, recurrent models (\<open>recurrent\<close>) one
  per sequence, found through \<open>tail\<close>. Backend buffers are the bytes they hold.

  The loops of the source run over \<open>i < size\<close> and index \<open>cells\<close>; \<open>for_cells\<close> is that
  loop. An index taken from data (a sequence id, a tail) is checked: out of range is
  \<open>OutOfBounds\<close>.
\<close>

named_theorems kv_defs \<open>definitions of the cache operations\<close>

section \<open>Data\<close>

record llama_kv_cell =
  c_pos    :: int
  c_delta  :: int
  c_src    :: int
  c_tail   :: int
  c_seq_id :: "int set"

definition new_cell :: llama_kv_cell where
  "new_cell = \<lparr>c_pos = -1, c_delta = 0, c_src = -1, c_tail = -1, c_seq_id = {}\<rparr>"

definition has_seq_id :: "llama_kv_cell \<Rightarrow> int \<Rightarrow> bool" where
  "has_seq_id c k \<longleftrightarrow> k \<in> c_seq_id c"

definition is_empty_cell :: "llama_kv_cell \<Rightarrow> bool" where
  "is_empty_cell c \<longleftrightarrow> c_seq_id c = {}"

definition is_same_seq :: "llama_kv_cell \<Rightarrow> llama_kv_cell \<Rightarrow> bool" where
  "is_same_seq c d \<longleftrightarrow> c_seq_id c = c_seq_id d"

type_synonym buffer = "nat list"

text \<open>A key or value tensor of a layer, as far as the cache shapes it: its element type and its
  dimensions.\<close>

record kv_tensor =
  kt_type :: nat
  kt_ne   :: "nat list"

record llama_kv_cache =
  kv_has_shift :: bool
  kv_do_defrag :: bool
  kv_recurrent :: bool
  kv_v_trans   :: bool
  kv_can_shift :: bool
  kv_head      :: nat
  kv_size      :: nat
  kv_used      :: nat
  kv_n         :: nat
  kv_cells     :: "llama_kv_cell list"
  kv_bufs      :: "buffer list"
  kv_k_l       :: "kv_tensor list"
  kv_v_l       :: "kv_tensor list"

definition total_size :: "llama_kv_cache \<Rightarrow> nat" where
  "total_size c = fold (\<lambda>b s. s + length b) (kv_bufs c) 0"

definition max_pos :: "llama_kv_cache \<Rightarrow> int" where
  "max_pos c = fold (\<lambda>x m. max m (c_pos x)) (kv_cells c) (-1)"

record llama_kv_cache_slot_info =
  si_begin :: nat
  si_end   :: nat
  si_found :: bool

definition slot_failed :: llama_kv_cache_slot_info where
  "slot_failed = \<lparr>si_begin = 0, si_end = 0, si_found = False\<rparr>"

definition slot_flag :: "bool \<Rightarrow> llama_kv_cache_slot_info" where
  "slot_flag f = \<lparr>si_begin = 0, si_end = 0, si_found = f\<rparr>"

definition slot_range :: "nat \<Rightarrow> nat \<Rightarrow> llama_kv_cache_slot_info" where
  "slot_range b e = \<lparr>si_begin = b, si_end = e, si_found = True\<rparr>"

definition llama_kv_cache_get_padding :: "bool \<Rightarrow> nat" where
  "llama_kv_cache_get_padding flash_attn = (if flash_attn then 256 else 32)"

text \<open>Negative bounds stand for the whole range.\<close>

definition norm_p0 :: "int \<Rightarrow> int" where "norm_p0 p = (if p < 0 then 0 else p)"
definition norm_p1 :: "int \<Rightarrow> int" where "norm_p1 p = (if p < 0 then INT32_MAX else p)"

section \<open>Finding a slot: recurrent models\<close>

text \<open>The pass over the sequence ids of the micro-batch: an id that becomes shared leaves its
  old cell. The flag is the early return for an id that does not fit; what was changed before
  it stays changed.\<close>

definition rec_unshare :: "nat \<Rightarrow> int \<Rightarrow> llama_kv_cache \<Rightarrow> llama_kv_cache res" where
  "rec_unshare j k c =
     (if j = 0 then Inr c
      else rbind (rnth (kv_cells c) (nat k)) (\<lambda>sq.
        if c_tail sq < 0 then Inr c
        else rbind (rnth (kv_cells c) (nat (c_tail sq))) (\<lambda>cell.
          let t = nat (c_tail sq);
              ids = c_seq_id cell - {k};
              cs = (kv_cells c)[t := cell\<lparr>c_seq_id := ids\<rparr>];
              cs = cs[nat k := (cs ! nat k)\<lparr>c_tail := -1\<rparr>]
          in Inr (if ids = {}
                  then c\<lparr>kv_cells := cs[t := (cs ! t)\<lparr>c_pos := -1, c_src := -1\<rparr>], kv_used := u32_dec (kv_used c)\<rparr>
                  else c\<lparr>kv_cells := cs\<rparr>))))"

definition ub_seq :: "llama_ubatch \<Rightarrow> nat \<Rightarrow> nat \<Rightarrow> int res" where
  "ub_seq ub s j = rbind (rnth (ub_seq_id ub) s) (\<lambda>p. rbind (deref p) (\<lambda>l. rnth l j))"

definition rec_check_id :: "llama_ubatch \<Rightarrow> nat \<Rightarrow> nat \<Rightarrow> bool \<times> llama_kv_cache \<Rightarrow> (bool \<times> llama_kv_cache) res" where
  "rec_check_id ub s j st = (case st of (ok, c) \<Rightarrow>
     if \<not> ok then Inr (ok, c)
     else rbind (ub_seq ub s j) (\<lambda>k.
          if k < 0 \<or> k \<ge> int (kv_size c) then Inr (False, c)
          else rbind (rec_unshare j k c) (\<lambda>c. Inr (True, c))))"

definition rec_check_seq :: "llama_ubatch \<Rightarrow> nat \<Rightarrow> bool \<times> llama_kv_cache \<Rightarrow> (bool \<times> llama_kv_cache) res" where
  "rec_check_seq ub s st =
     (if \<not> fst st then Inr st
      else rbind (rnth (ub_n_seq_id ub) s) (\<lambda>n. rfold (rec_check_id ub s) [0..<nat n] st))"

definition rec_check :: "llama_ubatch \<Rightarrow> llama_kv_cache \<Rightarrow> (bool \<times> llama_kv_cache) res" where
  "rec_check ub c = rfold (rec_check_seq ub) [0..<ub_n_seqs ub] (True, c)"

text \<open>The search for the next empty cell: at most \<open>size\<close> probes, wrapping at the end.\<close>

fun next_empty :: "nat \<Rightarrow> llama_kv_cell list \<Rightarrow> nat \<Rightarrow> nat \<Rightarrow> nat res" where
  "next_empty 0 cs sz k = Inr k"
| "next_empty (Suc i) cs sz k =
     (let k = (if k \<ge> sz then k - sz else k) in
      rbind (rnth cs k) (\<lambda>cell. if is_empty_cell cell then Inr k else next_empty i cs sz (k + 1)))"

record rec_state =
  r_cells :: "llama_kv_cell list"
  r_next  :: nat
  r_min   :: int
  r_max   :: int

definition rec_place :: "llama_ubatch \<Rightarrow> nat \<Rightarrow> nat \<Rightarrow> rec_state \<Rightarrow> rec_state res" where
  "rec_place ub sz s st =
    rbind (ub_seq ub s 0) (\<lambda>k.
    rbind (rguard (0 \<le> k) OutOfBounds) (\<lambda>_.
    rbind (rnth (r_cells st) (nat k)) (\<lambda>seq_meta.
    rbind (if c_tail seq_meta \<ge> 0
           then rbind (rnth (r_cells st) (nat (c_tail seq_meta))) (\<lambda>cell.
                rbind (rguard (has_seq_id cell k) GgmlAssert) (\<lambda>_. Inr (card (c_seq_id cell) = 1)))
           else Inr False) (\<lambda>has_cell.
    rbind (if has_cell then Inr st
           else
             rbind (rnth (r_cells st) (r_next st)) (\<lambda>empty_cell.
             rbind (rguard (is_empty_cell empty_cell) GgmlAssert) (\<lambda>_.
             let cs = (if c_tail seq_meta \<ge> 0
                       then let t = nat (c_tail seq_meta); orig = r_cells st ! t;
                                cs = (r_cells st)[r_next st := empty_cell\<lparr>c_pos := c_pos orig, c_src := c_src orig\<rparr>];
                                cs = cs[t := (cs ! t)\<lparr>c_seq_id := c_seq_id (cs ! t) - {k}\<rparr>]
                            in cs[r_next st := (cs ! r_next st)\<lparr>c_seq_id := insert k (c_seq_id (cs ! r_next st))\<rparr>]
                       else r_cells st);
                 cs = cs[nat k := (cs ! nat k)\<lparr>c_tail := int (r_next st)\<rparr>]
             in if s + 1 < ub_n_seqs ub
                then rbind (next_empty sz cs sz (r_next st + 1)) (\<lambda>ne. Inr (st\<lparr>r_cells := cs, r_next := ne\<rparr>))
                else Inr (st\<lparr>r_cells := cs\<rparr>)))) (\<lambda>st.
    let tl = c_tail (r_cells st ! nat k) in
    Inr (st\<lparr>r_min := (if r_min st > tl then tl else r_min st),
            r_max := (if r_max st < tl then tl else r_max st)\<rparr>))))))"

text \<open>Redirect the tails of a set of sequences.\<close>

definition set_tails :: "int set \<Rightarrow> int \<Rightarrow> llama_kv_cell list \<Rightarrow> llama_kv_cell list res" where
  "set_tails ks t cs =
     (if \<forall>k \<in> ks. 0 \<le> k \<and> k < int (length cs)
      then Inr (map (\<lambda>(i, c). if int i \<in> ks then c\<lparr>c_tail := t\<rparr> else c) (zip [0..<length cs] cs))
      else Inl OutOfBounds)"

definition rec_gather :: "llama_ubatch \<Rightarrow> int \<Rightarrow> nat \<Rightarrow> llama_kv_cell list \<Rightarrow> llama_kv_cell list res" where
  "rec_gather ub mn s cs =
    rbind (ub_seq ub s 0) (\<lambda>k.
    rbind (rguard (0 \<le> k \<and> 0 \<le> int s + mn) OutOfBounds) (\<lambda>_.
    rbind (rnth cs (nat k)) (\<lambda>sm.
    let dst = int s + mn; src = c_tail sm in
    if dst = src then Inr cs
    else rbind (rguard (0 \<le> src) OutOfBounds) (\<lambda>_.
         rbind (rnth cs (nat dst)) (\<lambda>d. rbind (rnth cs (nat src)) (\<lambda>sc.
         let cs = cs[nat dst := d\<lparr>c_pos := c_pos sc, c_src := c_src sc, c_seq_id := c_seq_id sc\<rparr>];
             cs = cs[nat src := sc\<lparr>c_pos := c_pos d, c_src := c_src d, c_seq_id := c_seq_id d\<rparr>]
         in rbind (set_tails (c_seq_id d) src cs) (\<lambda>cs. set_tails (c_seq_id sc) dst cs)))))))"

definition rec_set_pos :: "llama_ubatch \<Rightarrow> int \<Rightarrow> nat \<Rightarrow> llama_kv_cell list \<Rightarrow> llama_kv_cell list res" where
  "rec_set_pos ub mn s cs =
    rbind (deref (ub_pos ub)) (\<lambda>ps.
    rbind (rguard (0 < ub_n_seq_tokens ub \<and> 0 \<le> int s + mn) OutOfBounds) (\<lambda>_.
    rbind (rnth ps (ub_n_seq_tokens ub * s + ub_n_seq_tokens ub - 1)) (\<lambda>last_pos.
    let cell_id = nat (int s + mn) in
    rbind (rnth cs cell_id) (\<lambda>cell.
    rbind (rnth (ub_n_seq_id ub) s) (\<lambda>n.
    rfold (\<lambda>j cs. rbind (ub_seq ub s j) (\<lambda>k.
        rbind (rguard (0 \<le> k) OutOfBounds) (\<lambda>_.
        let cs = cs[cell_id := (cs ! cell_id)\<lparr>c_seq_id := insert k (c_seq_id (cs ! cell_id))\<rparr>] in
        rbind (rnth cs (nat k)) (\<lambda>sm. Inr (cs[nat k := sm\<lparr>c_tail := int cell_id\<rparr>])))))
      [0..<nat n] (cs[cell_id := cell\<lparr>c_pos := last_pos, c_seq_id := {}\<rparr>]))))))"

definition find_slot_recurrent :: "llama_kv_cache \<Rightarrow> llama_ubatch \<Rightarrow> (llama_kv_cache_slot_info \<times> llama_kv_cache) res" where
  "find_slot_recurrent c ub =
    rbind (rguard (ub_equal_seqs ub) GgmlAssert) (\<lambda>_.
    rbind (rec_check ub c) (\<lambda>(ok, c).
       if \<not> ok then Inr (slot_failed, c)
       else rbind (next_empty (kv_size c) (kv_cells c) (kv_size c) (kv_head c)) (\<lambda>ne.
       rbind (rfold (rec_place ub (kv_size c)) [0..<ub_n_seqs ub]
                \<lparr>r_cells = kv_cells c, r_next = ne, r_min = int (kv_size c) - 1, r_max = 0\<rparr>) (\<lambda>st.
       rbind (rfold (rec_gather ub (r_min st)) [0..<ub_n_seqs ub] (r_cells st)) (\<lambda>cs.
       rbind (rfold (rec_set_pos ub (r_min st)) [0..<ub_n_seqs ub] cs) (\<lambda>cs.
       let n = nat ((r_max st - r_min st + 1) mod 2 ^ 32) in
       Inr (slot_flag (n \<ge> ub_n_seqs ub),
            c\<lparr>kv_cells := cs, kv_head := nat (r_min st), kv_n := n,
              kv_used := count_if (\<lambda>x. \<not> is_empty_cell x) cs\<rparr>)))))))"

section \<open>Finding a slot: one cell per token\<close>

text \<open>The first occupied cell of a window, as the inner \<open>for\<close> of the search finds it.\<close>

definition first_used :: "llama_kv_cell list \<Rightarrow> nat \<Rightarrow> nat \<Rightarrow> nat option" where
  "first_used cs head n = find (\<lambda>i. c_pos (cs ! (head + i)) \<ge> 0) [0..<n]"

text \<open>\<open>while (true)\<close> of the search; the result is the head it stops at and whether it found a slot.
  That the loop ends is \<open>find_slot_loop_total\<close>.\<close>

partial_function (option) find_slot_loop ::
    "llama_kv_cell list \<Rightarrow> nat \<Rightarrow> nat \<Rightarrow> nat \<Rightarrow> nat \<Rightarrow> (nat \<times> bool) option" where
  "find_slot_loop cs sz n head n_tested =
     (if u32 (head + n) > sz then find_slot_loop cs sz n 0 (u32 (n_tested + u32_sub sz head))
      else case first_used cs head n of
             None \<Rightarrow> Some (head, True)
           | Some i \<Rightarrow>
               if u32 (n_tested + (i + 1)) \<ge> sz then Some (u32 (head + (i + 1)), False)
               else find_slot_loop cs sz n (u32 (head + (i + 1))) (u32 (n_tested + (i + 1))))"

text \<open>Filling the slot.\<close>

definition fill_cell :: "llama_ubatch \<Rightarrow> nat \<Rightarrow> nat \<Rightarrow> nat \<Rightarrow> llama_kv_cell list \<Rightarrow> llama_kv_cell list res" where
  "fill_cell ub head s i cs =
    (let k = s * ub_n_seq_tokens ub + i in
     rbind (deref (ub_pos ub)) (\<lambda>ps. rbind (rnth ps k) (\<lambda>p.
     rbind (rnth cs (head + k)) (\<lambda>cell.
     rbind (rnth (ub_n_seq_id ub) s) (\<lambda>n.
     rfold (\<lambda>j cs. rbind (ub_seq ub s j) (\<lambda>x.
         Inr (cs[head + k := (cs ! (head + k))\<lparr>c_seq_id := insert x (c_seq_id (cs ! (head + k)))\<rparr>])))
       [0..<nat n] (cs[head + k := cell\<lparr>c_pos := p\<rparr>]))))))"

definition fill_slot :: "llama_ubatch \<Rightarrow> nat \<Rightarrow> llama_kv_cell list \<Rightarrow> llama_kv_cell list res" where
  "fill_slot ub head cs =
     rfold (\<lambda>s cs. rfold (fill_cell ub head s) [0..<ub_n_seq_tokens ub] cs) [0..<ub_n_seqs ub] cs"

definition llama_kv_cache_find_slot :: "llama_kv_cache \<Rightarrow> llama_ubatch \<Rightarrow> (llama_kv_cache_slot_info \<times> llama_kv_cache) res" where
  "llama_kv_cache_find_slot c ub =
    (if kv_recurrent c then find_slot_recurrent c ub
     else if ub_n_tokens ub > kv_size c then Inr (slot_failed, c)
     else case find_slot_loop (kv_cells c) (kv_size c) (ub_n_tokens ub) (kv_head c) 0 of
            None \<Rightarrow> Inl (Thrown ''no return'')
          | Some (head, False) \<Rightarrow> Inr (slot_failed, c\<lparr>kv_head := head\<rparr>)
          | Some (head, True) \<Rightarrow>
              rbind (fill_slot ub head (kv_cells c)) (\<lambda>cs.
              Inr (slot_range head (head + ub_n_tokens ub),
                   c\<lparr>kv_cells := cs, kv_head := head, kv_used := u32 (kv_used c + ub_n_tokens ub)\<rparr>)))"

section \<open>Queries\<close>

fun cell_max :: "llama_kv_cell list \<Rightarrow> nat \<Rightarrow> nat" where
  "cell_max cs 0 = 0"
| "cell_max cs (Suc i) = (if c_pos (cs ! i) \<ge> 0 \<and> \<not> is_empty_cell (cs ! i) then Suc i else cell_max cs i)"

definition llama_kv_cache_cell_max :: "llama_kv_cache \<Rightarrow> nat" where
  "llama_kv_cache_cell_max c = cell_max (kv_cells c) (kv_size c)"

definition llama_kv_cache_seq_pos_max :: "llama_kv_cache \<Rightarrow> int \<Rightarrow> int" where
  "llama_kv_cache_seq_pos_max c k =
     fold (\<lambda>i r. if has_seq_id (kv_cells c ! i) k then max r (c_pos (kv_cells c ! i)) else r) [0..<kv_size c] 0"

definition llama_get_kv_cache_token_count :: "llama_kv_cache \<Rightarrow> nat" where
  "llama_get_kv_cache_token_count c = fold (\<lambda>i r. r + card (c_seq_id (kv_cells c ! i))) [0..<kv_size c] 0"

definition llama_get_kv_cache_used_cells :: "llama_kv_cache \<Rightarrow> nat" where
  "llama_get_kv_cache_used_cells c = kv_used c"

definition llama_kv_cache_can_shift :: "llama_kv_cache \<Rightarrow> bool" where
  "llama_kv_cache_can_shift c = kv_can_shift c"

section \<open>Operations on sequences\<close>

definition llama_kv_cache_clear :: "llama_kv_cache \<Rightarrow> llama_kv_cache" where
  "llama_kv_cache_clear c =
     c\<lparr>kv_cells := fst (for_cells (kv_size c)
          (\<lambda>i x u. (x\<lparr>c_pos := -1, c_seq_id := {}, c_src := -1, c_tail := -1\<rparr>, u)) (kv_cells c, ())),
       kv_head := 0, kv_used := 0, kv_bufs := map (map (\<lambda>_. 0)) (kv_bufs c)\<rparr>"

text \<open>The checks a recurrent cache makes before a removal: \<open>None\<close> is \<open>return false\<close>.\<close>

definition seq_rm_recurrent :: "llama_kv_cache \<Rightarrow> int \<Rightarrow> int \<Rightarrow> int \<Rightarrow> llama_kv_cache option res" where
  "seq_rm_recurrent c k p0 p1 =
    (if k \<ge> int (kv_size c) then Inr None
     else if 0 \<le> k then
       rbind (rnth (kv_cells c) (nat k)) (\<lambda>sm.
       if c_tail sm \<ge> 0 then
         rbind (rnth (kv_cells c) (nat (c_tail sm))) (\<lambda>cell.
         if (0 < p0 \<and> p0 \<le> c_pos cell) \<or> (0 < p1 \<and> p1 \<le> c_pos cell) then Inr None
         else if p0 \<le> c_pos cell \<and> c_pos cell < p1
              then Inr (Some (c\<lparr>kv_cells := (kv_cells c)[nat k := sm\<lparr>c_tail := -1\<rparr>]\<rparr>))
              else Inr (Some c))
       else Inr (Some c))
     else if p0 \<noteq> p1 \<and> (p0 \<noteq> 0 \<or> p1 \<noteq> INT32_MAX) then Inr None
     else Inr (Some c))"

definition seq_rm_body :: "nat \<Rightarrow> int \<Rightarrow> int \<Rightarrow> int \<Rightarrow> nat \<Rightarrow> llama_kv_cell \<Rightarrow> nat \<times> nat \<Rightarrow> llama_kv_cell \<times> nat \<times> nat" where
  "seq_rm_body sz k p0 p1 i x acc = (case acc of (used, new_head) \<Rightarrow>
     if c_pos x \<ge> p0 \<and> c_pos x < p1 \<and> (k < 0 \<or> has_seq_id x k) then
       let y = x\<lparr>c_seq_id := (if k < 0 then {} else c_seq_id x - {k})\<rparr> in
       if is_empty_cell y
       then (y\<lparr>c_pos := -1, c_src := -1\<rparr>, if c_pos y \<ge> 0 then u32_dec used else used,
             if new_head = sz then i else new_head)
       else (y, used, new_head)
     else (x, used, new_head))"

definition seq_rm_loop :: "llama_kv_cache \<Rightarrow> int \<Rightarrow> int \<Rightarrow> int \<Rightarrow> llama_kv_cache" where
  "seq_rm_loop c k p0 p1 =
    (case for_cells (kv_size c) (seq_rm_body (kv_size c) k p0 p1) (kv_cells c, kv_used c, kv_size c) of
       (cs, used, new_head) \<Rightarrow>
         c\<lparr>kv_cells := cs, kv_used := used,
           kv_head := (if new_head \<noteq> kv_size c \<and> new_head < kv_head c then new_head else kv_head c)\<rparr>)"

definition llama_kv_cache_seq_rm :: "llama_kv_cache \<Rightarrow> int \<Rightarrow> int \<Rightarrow> int \<Rightarrow> (bool \<times> llama_kv_cache) res" where
  "llama_kv_cache_seq_rm c k p0 p1 =
    (let p0 = norm_p0 p0; p1 = norm_p1 p1 in
     rbind (if kv_recurrent c then seq_rm_recurrent c k p0 p1 else Inr (Some c)) (\<lambda>oc.
     Inr (case oc of None \<Rightarrow> (False, c) | Some c \<Rightarrow> (True, seq_rm_loop c k p0 p1))))"

definition seq_cp_recurrent :: "llama_kv_cache \<Rightarrow> int \<Rightarrow> int \<Rightarrow> llama_kv_cache res" where
  "seq_cp_recurrent c src dst =
    (if 0 \<le> dst \<and> dst < int (kv_size c) \<and> 0 \<le> src \<and> src < int (kv_size c) then
       rbind (rnth (kv_cells c) (nat dst)) (\<lambda>td.
       rbind (if c_tail td \<ge> 0 then
                rbind (rnth (kv_cells c) (nat (c_tail td))) (\<lambda>cell.
                let t = nat (c_tail td);
                    cs = (kv_cells c)[t := cell\<lparr>c_seq_id := c_seq_id cell - {dst}\<rparr>];
                    cs = cs[nat dst := (cs ! nat dst)\<lparr>c_tail := -1\<rparr>]
                in Inr (if c_seq_id cell - {dst} = {}
                        then c\<lparr>kv_cells := cs[t := (cs ! t)\<lparr>c_pos := -1, c_delta := -1, c_src := -1\<rparr>], kv_used := u32_dec (kv_used c)\<rparr>
                        else c\<lparr>kv_cells := cs\<rparr>))
              else Inr c) (\<lambda>c.
       rbind (rnth (kv_cells c) (nat src)) (\<lambda>ts.
       if c_tail ts \<ge> 0 then
         rbind (rnth (kv_cells c) (nat (c_tail ts))) (\<lambda>cell.
         let t = nat (c_tail ts);
             cs = (kv_cells c)[t := cell\<lparr>c_seq_id := insert dst (c_seq_id cell)\<rparr>]
         in Inr (c\<lparr>kv_cells := cs[nat dst := (cs ! nat dst)\<lparr>c_tail := c_tail ts\<rparr>]\<rparr>))
       else Inr c)))
     else Inr c)"

definition seq_cp_body :: "int \<Rightarrow> int \<Rightarrow> int \<Rightarrow> int \<Rightarrow> nat \<Rightarrow> llama_kv_cell \<Rightarrow> unit \<Rightarrow> llama_kv_cell \<times> unit" where
  "seq_cp_body src dst p0 p1 i x u =
    (if has_seq_id x src \<and> c_pos x \<ge> p0 \<and> c_pos x < p1
     then (x\<lparr>c_seq_id := insert dst (c_seq_id x)\<rparr>, u) else (x, u))"

definition llama_kv_cache_seq_cp :: "llama_kv_cache \<Rightarrow> int \<Rightarrow> int \<Rightarrow> int \<Rightarrow> int \<Rightarrow> llama_kv_cache res" where
  "llama_kv_cache_seq_cp c src dst p0 p1 =
    (let p0 = norm_p0 p0; p1 = norm_p1 p1 in
     if kv_recurrent c then seq_cp_recurrent c src dst
     else Inr (c\<lparr>kv_head := 0, kv_cells := fst (for_cells (kv_size c) (seq_cp_body src dst p0 p1) (kv_cells c, ()))\<rparr>))"

definition seq_keep_body :: "bool \<Rightarrow> nat \<Rightarrow> int \<Rightarrow> nat \<Rightarrow> llama_kv_cell \<Rightarrow> nat \<times> nat \<Rightarrow> llama_kv_cell \<times> nat \<times> nat" where
  "seq_keep_body rc sz k i x acc = (case acc of (used, new_head) \<Rightarrow>
     let x = (if rc \<and> int i \<noteq> k then x\<lparr>c_tail := -1\<rparr> else x) in
     if \<not> has_seq_id x k
     then (x\<lparr>c_pos := -1, c_src := -1, c_seq_id := {}\<rparr>, if c_pos x \<ge> 0 then u32_dec used else used,
           if new_head = sz then i else new_head)
     else (x\<lparr>c_seq_id := {k}\<rparr>, used, new_head))"

definition llama_kv_cache_seq_keep :: "llama_kv_cache \<Rightarrow> int \<Rightarrow> llama_kv_cache" where
  "llama_kv_cache_seq_keep c k =
    (case for_cells (kv_size c) (seq_keep_body (kv_recurrent c) (kv_size c) k) (kv_cells c, kv_used c, kv_size c) of
       (cs, used, new_head) \<Rightarrow>
         c\<lparr>kv_cells := cs, kv_used := used,
           kv_head := (if new_head \<noteq> kv_size c \<and> new_head < kv_head c then new_head else kv_head c)\<rparr>)"

text \<open>A position change of a recurrent cache: the sequence's tail cell, if it is in range.\<close>

definition seq_tail_pos :: "llama_kv_cache \<Rightarrow> int \<Rightarrow> int \<Rightarrow> int \<Rightarrow> (int \<Rightarrow> int res) \<Rightarrow> llama_kv_cache res" where
  "seq_tail_pos c k p0 p1 f =
    (if 0 \<le> k \<and> k < int (kv_size c) then
       rbind (rnth (kv_cells c) (nat k)) (\<lambda>sm.
       if c_tail sm \<ge> 0 then
         rbind (rnth (kv_cells c) (nat (c_tail sm))) (\<lambda>cell.
         if has_seq_id cell k \<and> p0 \<le> c_pos cell \<and> c_pos cell < p1
         then rbind (f (c_pos cell)) (\<lambda>p. Inr (c\<lparr>kv_cells := (kv_cells c)[nat (c_tail sm) := cell\<lparr>c_pos := p\<rparr>]\<rparr>))
         else Inr c)
       else Inr c)
     else Inr c)"

record shift_acc =
  sa_shift :: bool
  sa_used  :: nat
  sa_head  :: nat

definition seq_add_step :: "nat \<Rightarrow> int \<Rightarrow> int \<Rightarrow> int \<Rightarrow> int \<Rightarrow> nat \<Rightarrow> llama_kv_cell list \<times> shift_acc \<Rightarrow> (llama_kv_cell list \<times> shift_acc) res" where
  "seq_add_step sz k p0 p1 d i st = (case st of (cs, a) \<Rightarrow>
     rbind (rnth cs i) (\<lambda>x.
     if has_seq_id x k \<and> c_pos x \<ge> p0 \<and> c_pos x < p1 then
       rbind (i32_add (c_pos x) d) (\<lambda>p. rbind (i32_add (c_delta x) d) (\<lambda>dl.
       let x = x\<lparr>c_pos := p, c_delta := dl\<rparr>; a = a\<lparr>sa_shift := True\<rparr> in
       if p < 0
       then Inr (cs[i := x\<lparr>c_pos := -1, c_seq_id := {}\<rparr>],
                 a\<lparr>sa_used := (if \<not> is_empty_cell x then u32_dec (sa_used a) else sa_used a),
                   sa_head := (if sa_head a = sz then i else sa_head a)\<rparr>)
       else Inr (cs[i := x], a)))
     else Inr (cs, a)))"

definition llama_kv_cache_seq_add :: "llama_kv_cache \<Rightarrow> int \<Rightarrow> int \<Rightarrow> int \<Rightarrow> int \<Rightarrow> llama_kv_cache res" where
  "llama_kv_cache_seq_add c k p0 p1 d =
    (let p0 = norm_p0 p0; p1 = norm_p1 p1 in
     if p0 = p1 then Inr c
     else if kv_recurrent c then seq_tail_pos c k p0 p1 (\<lambda>p. i32_add p d)
     else rbind (rfold (seq_add_step (kv_size c) k p0 p1 d) [0..<kv_size c]
            (kv_cells c, \<lparr>sa_shift = kv_has_shift c, sa_used = kv_used c, sa_head = kv_size c\<rparr>)) (\<lambda>(cs, a).
          Inr (c\<lparr>kv_cells := cs, kv_has_shift := sa_shift a, kv_used := sa_used a,
                 kv_head := (if sa_head a \<noteq> kv_size c then sa_head a else 0)\<rparr>)))"

definition seq_div_step :: "int \<Rightarrow> int \<Rightarrow> int \<Rightarrow> int \<Rightarrow> nat \<Rightarrow> llama_kv_cell list \<times> bool \<Rightarrow> (llama_kv_cell list \<times> bool) res" where
  "seq_div_step k p0 p1 d i st = (case st of (cs, sh) \<Rightarrow>
     rbind (rnth cs i) (\<lambda>x.
     if has_seq_id x k \<and> c_pos x \<ge> p0 \<and> c_pos x < p1 then
       rbind (i32_div (c_pos x) d) (\<lambda>p. rbind (i32_add p (- c_pos x)) (\<lambda>df. rbind (i32_add (c_delta x) df) (\<lambda>dl.
       Inr (cs[i := x\<lparr>c_pos := p, c_delta := dl\<rparr>], True))))
     else Inr (cs, sh)))"

definition llama_kv_cache_seq_div :: "llama_kv_cache \<Rightarrow> int \<Rightarrow> int \<Rightarrow> int \<Rightarrow> int \<Rightarrow> llama_kv_cache res" where
  "llama_kv_cache_seq_div c k p0 p1 d =
    (let p0 = norm_p0 p0; p1 = norm_p1 p1 in
     if p0 = p1 then Inr c
     else if kv_recurrent c then seq_tail_pos c k p0 p1 (\<lambda>p. i32_div p d)
     else rbind (rfold (seq_div_step k p0 p1 d) [0..<kv_size c] (kv_cells c, kv_has_shift c)) (\<lambda>(cs, sh).
          Inr (c\<lparr>kv_cells := cs, kv_has_shift := sh\<rparr>)))"

definition llama_kv_cache_defrag :: "llama_kv_cache \<Rightarrow> llama_kv_cache" where
  "llama_kv_cache_defrag c = (if \<not> kv_recurrent c then c\<lparr>kv_do_defrag := True\<rparr> else c)"

section \<open>Rolling back: \<open>llama_kv_slot_restorer\<close>\<close>

record llama_kv_slot_restorer =
  rs_head  :: nat
  rs_n     :: nat
  rs_slots :: "(nat \<times> nat) list"
  rs_do    :: bool

definition new_restorer :: "llama_kv_cache \<Rightarrow> llama_kv_slot_restorer" where
  "new_restorer c = \<lparr>rs_head = kv_head c, rs_n = kv_n c, rs_slots = [], rs_do = False\<rparr>"

definition restorer_save :: "llama_kv_cache_slot_info \<Rightarrow> llama_kv_slot_restorer \<Rightarrow> llama_kv_slot_restorer" where
  "restorer_save si r =
    (if si_found si
     then let r = r\<lparr>rs_do := True\<rparr> in
          if si_begin si \<noteq> si_end si then r\<lparr>rs_slots := rs_slots r @ [(si_begin si, si_end si)]\<rparr> else r
     else r)"

definition restorer_restore :: "llama_kv_slot_restorer \<Rightarrow> llama_kv_cache \<Rightarrow> llama_kv_cache res" where
  "restorer_restore r c =
    (if rs_do r then
       let c = c\<lparr>kv_head := rs_head r, kv_n := rs_n r\<rparr> in
       if kv_recurrent c
       then rbind (llama_kv_cache_seq_rm c (-1) (-1) (-1)) (\<lambda>(_, c). Inr c)
       else rfold (\<lambda>(b, e) c. rbind (llama_kv_cache_seq_rm c (-1) (int b) (int e)) (\<lambda>(_, c). Inr c)) (rs_slots r) c
     else Inr c)"

section \<open>The invariant\<close>

text \<open>A cell is occupied exactly when it has a position; \<open>used\<close> counts the occupied cells and the
  head never leaves the vector. The bound on \<open>size\<close> keeps the 32-bit counters from wrapping.\<close>

definition cell_ok :: "llama_kv_cell \<Rightarrow> bool" where
  "cell_ok x \<longleftrightarrow> finite (c_seq_id x) \<and> (0 \<le> c_pos x \<longleftrightarrow> c_seq_id x \<noteq> {}) \<and> c_pos x \<le> INT32_MAX"

abbreviation occupied :: "llama_kv_cell \<Rightarrow> bool" where
  "occupied x \<equiv> \<not> is_empty_cell x"

definition kv_wf :: "llama_kv_cache \<Rightarrow> bool" where
  "kv_wf c \<longleftrightarrow> length (kv_cells c) = kv_size c \<and> kv_size c < 2 ^ 30 \<and> kv_head c \<le> kv_size c \<and>
     kv_used c = count_if occupied (kv_cells c) \<and> (\<forall>x \<in> set (kv_cells c). cell_ok x)"

text \<open>What a client can see: sequence \<open>k\<close> has position \<open>p\<close>, stored in cell \<open>i\<close>.\<close>

definition kv_view :: "llama_kv_cache \<Rightarrow> (int \<times> int \<times> nat) set" where
  "kv_view c = {(k, p, i). i < length (kv_cells c) \<and> k \<in> c_seq_id (kv_cells c ! i) \<and> p = c_pos (kv_cells c ! i)}"

lemma kv_view_map:
  assumes "kv_cells c' = map f (kv_cells c)"
  shows "kv_view c' = {(k, p, i). i < length (kv_cells c) \<and> k \<in> c_seq_id (f (kv_cells c ! i)) \<and> p = c_pos (f (kv_cells c ! i))}"
  using assms by (auto simp: kv_view_def)

lemma kv_wf_used_lt: "kv_wf c \<Longrightarrow> kv_used c < 2 ^ 30"
  using count_if_le [of occupied "kv_cells c"] by (simp add: kv_wf_def)

lemma kv_wf_cell: "kv_wf c \<Longrightarrow> i < length (kv_cells c) \<Longrightarrow> cell_ok (kv_cells c ! i)"
  by (simp add: kv_wf_def)

text \<open>The cells from \<open>cell_max\<close> on are empty.\<close>

lemma cell_max_bounds:
  assumes "n \<le> length cs" and "\<forall>x \<in> set cs. cell_ok x"
  shows "cell_max cs n \<le> n \<and> (\<forall>j. cell_max cs n \<le> j \<and> j < n \<longrightarrow> is_empty_cell (cs ! j))"
  using assms(1)
proof (induction n)
  case (Suc n)
  have "cell_ok (cs ! n)" using assms(2) Suc.prems by simp
  then have "is_empty_cell (cs ! n) \<or> 0 \<le> c_pos (cs ! n)" by (auto simp: cell_ok_def is_empty_cell_def)
  with Suc show ?case by (auto simp: less_Suc_eq)
qed simp

text \<open>The loops that may free cells: the accumulators are the counter and the first freed index.\<close>

lemma used_loop:
  assumes n: "length cs = n" "n < 2 ^ 30"
    and f: "\<And>i a. i < n \<Longrightarrow> fst (body i (cs ! i) a) = f (cs ! i)"
    and u: "\<And>i u h. i < n \<Longrightarrow> fst (snd (body i (cs ! i) (u, h))) =
      (if occupied (cs ! i) \<and> is_empty_cell (f (cs ! i)) then u32_dec u else u)"
    and h: "\<And>i u h. i < n \<Longrightarrow> h \<le> n \<Longrightarrow> snd (snd (body i (cs ! i) (u, h))) \<le> n"
    and mono: "\<And>x. x \<in> set cs \<Longrightarrow> occupied (f x) \<Longrightarrow> occupied x"
  shows "\<exists>nh. for_cells n body (cs, count_if occupied cs, n) = (map f cs, count_if occupied (map f cs), nh) \<and> nh \<le> n"
proof -
  let ?r = "for_cells n body (cs, count_if occupied cs, n)"
  let ?P = "\<lambda>i (u, h). u = count_if occupied (map f (take i cs)) + count_if occupied (drop i cs) \<and> h \<le> n"
  have cells: "fst ?r = map f cs"
    using for_cells_map [of n cs body "\<lambda>_. f"] f n(1) map_f_nth [of f cs] by simp
  have "?P n (snd ?r)"
  proof (rule for_cells_acc [where P = ?P])
    show "?P 0 (count_if occupied cs, n)" by simp
  next
    fix i b assume i: "i < n" and P: "?P i b"
    obtain u0 h0 where b: "b = (u0, h0)" by fastforce
    have d: "drop i cs = cs ! i # drop (Suc i) cs" using i n(1) by (simp add: Cons_nth_drop_Suc)
    have t: "take (Suc i) cs = take i cs @ [cs ! i]" using i n(1) by (simp add: take_Suc_conv_app_nth)
    have lt: "u0 < 2 ^ 32"
      using P n i count_if_le [of occupied "map f (take i cs)"] count_if_le [of occupied "drop i cs"] by (simp add: b)
    show "?P (Suc i) (snd (body i (cs ! i) b))"
      using P h [OF i, of h0 u0] u [OF i, of u0 h0] lt mono [of "cs ! i"] i n(1)
      by (auto simp: b d t split: prod.splits if_splits)
  qed
  then have "snd ?r = (count_if occupied (map f cs), snd (snd ?r)) \<and> snd (snd ?r) \<le> n"
    using n(1) by (auto simp: case_prod_beta intro: prod_eqI)
  with cells show ?thesis by (metis prod.collapse)
qed

section \<open>Removal, keeping, copying\<close>

definition rm_cell :: "int \<Rightarrow> int \<Rightarrow> int \<Rightarrow> llama_kv_cell \<Rightarrow> llama_kv_cell" where
  "rm_cell k p0 p1 x = fst (seq_rm_body 0 k p0 p1 0 x (0, 0))"

lemma seq_rm_body_fst: "fst (seq_rm_body sz k p0 p1 i x a) = rm_cell k p0 p1 x"
  by (simp add: rm_cell_def seq_rm_body_def Let_def split: prod.split)

lemma rm_cell_cases:
  "rm_cell k p0 p1 x =
    (if p0 \<le> c_pos x \<and> c_pos x < p1 \<and> (k < 0 \<or> k \<in> c_seq_id x)
     then let s = (if k < 0 then {} else c_seq_id x - {k}) in
          if s = {} then x\<lparr>c_seq_id := {}, c_pos := -1, c_src := -1\<rparr> else x\<lparr>c_seq_id := s\<rparr>
     else x)"
  by (simp add: rm_cell_def seq_rm_body_def Let_def is_empty_cell_def has_seq_id_def)

lemma rm_cell_ok: "cell_ok x \<Longrightarrow> cell_ok (rm_cell k p0 p1 x)"
  by (auto simp: rm_cell_cases cell_ok_def Let_def INT32_MAX_def)

lemma seq_rm_loop_ok:
  assumes wf: "kv_wf c" and p0: "0 \<le> p0"
  shows "kv_wf (seq_rm_loop c k p0 p1)" "kv_cells (seq_rm_loop c k p0 p1) = map (rm_cell k p0 p1) (kv_cells c)"
    "kv_size (seq_rm_loop c k p0 p1) = kv_size c" "kv_recurrent (seq_rm_loop c k p0 p1) = kv_recurrent c"
    "kv_head (seq_rm_loop c k p0 p1) \<le> kv_head c" "kv_n (seq_rm_loop c k p0 p1) = kv_n c"
proof -
  let ?f = "rm_cell k p0 p1"
  have "\<exists>nh. for_cells (kv_size c) (seq_rm_body (kv_size c) k p0 p1) (kv_cells c, count_if occupied (kv_cells c), kv_size c) =
      (map ?f (kv_cells c), count_if occupied (map ?f (kv_cells c)), nh) \<and> nh \<le> kv_size c"
  proof (rule used_loop)
    show "length (kv_cells c) = kv_size c" "kv_size c < 2 ^ 30" using wf by (simp_all add: kv_wf_def)
    show "fst (seq_rm_body (kv_size c) k p0 p1 i (kv_cells c ! i) a) = ?f (kv_cells c ! i)" for i a
      by (rule seq_rm_body_fst)
    show "fst (snd (seq_rm_body (kv_size c) k p0 p1 i (kv_cells c ! i) (u, h))) =
      (if occupied (kv_cells c ! i) \<and> is_empty_cell (?f (kv_cells c ! i)) then u32_dec u else u)" if "i < kv_size c" for i u h
      using kv_wf_cell [OF wf, of i] that wf p0
      by (auto simp: rm_cell_cases seq_rm_body_def Let_def is_empty_cell_def has_seq_id_def cell_ok_def kv_wf_def)
    show "snd (snd (seq_rm_body (kv_size c) k p0 p1 i (kv_cells c ! i) (u, h))) \<le> kv_size c" if "i < kv_size c" "h \<le> kv_size c" for i u h
      using that by (simp add: seq_rm_body_def Let_def)
    show "occupied x" if "occupied (?f x)" for x
      using that by (auto simp: rm_cell_cases is_empty_cell_def Let_def split: if_splits)
  qed
  then obtain nh where eq: "for_cells (kv_size c) (seq_rm_body (kv_size c) k p0 p1) (kv_cells c, kv_used c, kv_size c) =
      (map ?f (kv_cells c), count_if occupied (map ?f (kv_cells c)), nh)" "nh \<le> kv_size c"
    using wf by (auto simp: kv_wf_def)
  show "kv_wf (seq_rm_loop c k p0 p1)"
    using wf eq by (auto simp: seq_rm_loop_def kv_wf_def rm_cell_ok)
  show "kv_cells (seq_rm_loop c k p0 p1) = map ?f (kv_cells c)" "kv_size (seq_rm_loop c k p0 p1) = kv_size c"
    "kv_recurrent (seq_rm_loop c k p0 p1) = kv_recurrent c" "kv_head (seq_rm_loop c k p0 p1) \<le> kv_head c" "kv_n (seq_rm_loop c k p0 p1) = kv_n c"
    using eq by (auto simp: seq_rm_loop_def)
qed

lemma kv_view_rm:
  assumes "kv_wf c" "kv_cells c' = map (rm_cell k p0 p1) (kv_cells c)"
  shows "kv_view c' = {(k', p, i) \<in> kv_view c. \<not> ((k < 0 \<or> k' = k) \<and> p0 \<le> p \<and> p < p1)}"
  by (subst kv_view_map [OF assms(2)]) (auto simp: rm_cell_cases Let_def kv_view_def split: if_splits)

lemma norm_nonneg [simp]: "0 \<le> norm_p0 p" "0 \<le> norm_p1 p"
  by (simp_all add: norm_p0_def norm_p1_def INT32_MAX_def)

lemma seq_rm_ok:
  assumes "kv_wf c" "\<not> kv_recurrent c"
  shows "\<exists>c'. llama_kv_cache_seq_rm c k p0 p1 = Inr (True, c') \<and> kv_wf c' \<and> \<not> kv_recurrent c' \<and> kv_size c' = kv_size c \<and>
    kv_view c' = {(k', p, i) \<in> kv_view c. \<not> ((k < 0 \<or> k' = k) \<and> norm_p0 p0 \<le> p \<and> p < norm_p1 p1)}"
proof -
  note lp = seq_rm_loop_ok [OF assms(1) norm_nonneg(1), of k p0 "norm_p1 p1"]
  have "llama_kv_cache_seq_rm c k p0 p1 = Inr (True, seq_rm_loop c k (norm_p0 p0) (norm_p1 p1))"
    using assms(2) by (simp add: llama_kv_cache_seq_rm_def Let_def)
  with lp kv_view_rm [OF assms(1) lp(2)] assms(2) show ?thesis by simp
qed

definition keep_cell :: "int \<Rightarrow> llama_kv_cell \<Rightarrow> llama_kv_cell" where
  "keep_cell k x = (if k \<in> c_seq_id x then x\<lparr>c_seq_id := {k}\<rparr> else x\<lparr>c_pos := -1, c_src := -1, c_seq_id := {}\<rparr>)"

lemma seq_keep_ok:
  assumes wf: "kv_wf c" and nr: "\<not> kv_recurrent c"
  shows "kv_wf (llama_kv_cache_seq_keep c k)" "kv_cells (llama_kv_cache_seq_keep c k) = map (keep_cell k) (kv_cells c)"
    "\<not> kv_recurrent (llama_kv_cache_seq_keep c k)" "kv_size (llama_kv_cache_seq_keep c k) = kv_size c"
    "kv_view (llama_kv_cache_seq_keep c k) = {(k', p, i) \<in> kv_view c. k' = k}"
proof -
  let ?f = "keep_cell k" and ?body = "seq_keep_body (kv_recurrent c) (kv_size c) k"
  have "\<exists>nh. for_cells (kv_size c) ?body (kv_cells c, count_if occupied (kv_cells c), kv_size c) =
      (map ?f (kv_cells c), count_if occupied (map ?f (kv_cells c)), nh) \<and> nh \<le> kv_size c"
  proof (rule used_loop)
    show "length (kv_cells c) = kv_size c" "kv_size c < 2 ^ 30" using wf by (simp_all add: kv_wf_def)
    show "fst (?body i (kv_cells c ! i) a) = ?f (kv_cells c ! i)" for i a
      using nr by (simp add: seq_keep_body_def Let_def keep_cell_def has_seq_id_def split: prod.split)
    show "fst (snd (?body i (kv_cells c ! i) (u, h))) =
      (if occupied (kv_cells c ! i) \<and> is_empty_cell (?f (kv_cells c ! i)) then u32_dec u else u)" if "i < kv_size c" for i u h
      using kv_wf_cell [OF wf, of i] that wf nr
      by (auto simp: keep_cell_def seq_keep_body_def Let_def is_empty_cell_def has_seq_id_def cell_ok_def kv_wf_def)
    show "snd (snd (?body i (kv_cells c ! i) (u, h))) \<le> kv_size c" if "i < kv_size c" "h \<le> kv_size c" for i u h
      using that by (simp add: seq_keep_body_def Let_def)
    show "occupied x" if "occupied (?f x)" for x
      using that by (auto simp: keep_cell_def is_empty_cell_def split: if_splits)
  qed
  then obtain nh where eq: "for_cells (kv_size c) ?body (kv_cells c, kv_used c, kv_size c) =
      (map ?f (kv_cells c), count_if occupied (map ?f (kv_cells c)), nh)" "nh \<le> kv_size c"
    using wf by (auto simp: kv_wf_def)
  have ok: "cell_ok x \<Longrightarrow> cell_ok (?f x)" for x by (auto simp: keep_cell_def cell_ok_def INT32_MAX_def)
  show "kv_wf (llama_kv_cache_seq_keep c k)"
    using wf eq by (auto simp: llama_kv_cache_seq_keep_def kv_wf_def ok)
  show cs: "kv_cells (llama_kv_cache_seq_keep c k) = map ?f (kv_cells c)"
    and "\<not> kv_recurrent (llama_kv_cache_seq_keep c k)" "kv_size (llama_kv_cache_seq_keep c k) = kv_size c"
    using eq nr by (simp_all add: llama_kv_cache_seq_keep_def)
  show "kv_view (llama_kv_cache_seq_keep c k) = {(k', p, i) \<in> kv_view c. k' = k}"
    by (subst kv_view_map [OF cs]) (auto simp: keep_cell_def kv_view_def split: if_splits)
qed

lemma for_cells_map_unit:
  assumes "length cs = n" "\<And>i a. i < n \<Longrightarrow> fst (body i (cs ! i) a) = f (cs ! i)"
  shows "fst (for_cells n body (cs, a)) = map f cs"
  using for_cells_map [of n cs body "\<lambda>_. f"] assms map_f_nth [of f cs] by simp

definition cp_cell :: "int \<Rightarrow> int \<Rightarrow> int \<Rightarrow> int \<Rightarrow> llama_kv_cell \<Rightarrow> llama_kv_cell" where
  "cp_cell src dst p0 p1 x = (if src \<in> c_seq_id x \<and> p0 \<le> c_pos x \<and> c_pos x < p1
     then x\<lparr>c_seq_id := insert dst (c_seq_id x)\<rparr> else x)"

lemma count_if_map_cong: "(\<And>x. x \<in> set xs \<Longrightarrow> p (f x) = p x) \<Longrightarrow> count_if p (map f xs) = count_if p xs"
  by (induction xs) simp_all

lemma seq_cp_ok:
  assumes wf: "kv_wf c" and nr: "\<not> kv_recurrent c"
  shows "\<exists>c'. llama_kv_cache_seq_cp c src dst p0 p1 = Inr c' \<and> kv_wf c' \<and> \<not> kv_recurrent c' \<and> kv_size c' = kv_size c \<and>
    kv_view c' = kv_view c \<union> {(dst, p, i) | p i. (src, p, i) \<in> kv_view c \<and> norm_p0 p0 \<le> p \<and> p < norm_p1 p1}"
proof -
  let ?f = "cp_cell src dst (norm_p0 p0) (norm_p1 p1)"
  define c' where "c' = c\<lparr>kv_head := 0, kv_cells := map ?f (kv_cells c)\<rparr>"
  have "fst (for_cells (kv_size c) (seq_cp_body src dst (norm_p0 p0) (norm_p1 p1)) (kv_cells c, ())) = map ?f (kv_cells c)"
    by (rule for_cells_map_unit) (use wf in \<open>auto simp: kv_wf_def seq_cp_body_def cp_cell_def has_seq_id_def\<close>)
  then have eq: "llama_kv_cache_seq_cp c src dst p0 p1 = Inr c'"
    using nr by (simp add: llama_kv_cache_seq_cp_def Let_def c'_def)
  have ok: "cell_ok x \<Longrightarrow> cell_ok (?f x)" for x by (auto simp: cp_cell_def cell_ok_def)
  have occ: "occupied (?f x) = occupied x" for x by (auto simp: cp_cell_def is_empty_cell_def)
  have "kv_wf c'" using wf ok count_if_map_cong [of "kv_cells c" occupied ?f] occ by (auto simp: kv_wf_def c'_def)
  moreover have "kv_view c' = kv_view c \<union> {(dst, p, i) | p i. (src, p, i) \<in> kv_view c \<and> norm_p0 p0 \<le> p \<and> p < norm_p1 p1}"
    by (subst kv_view_map [of c' ?f c]) (auto simp: c'_def cp_cell_def kv_view_def)
  ultimately show ?thesis using eq nr by (auto simp: c'_def)
qed

section \<open>Clearing\<close>

lemma clear_ok:
  assumes wf: "kv_wf c"
  shows "kv_wf (llama_kv_cache_clear c)" "kv_view (llama_kv_cache_clear c) = {}"
    "kv_size (llama_kv_cache_clear c) = kv_size c" "kv_recurrent (llama_kv_cache_clear c) = kv_recurrent c"
    "\<forall>b \<in> set (kv_bufs (llama_kv_cache_clear c)). \<forall>x \<in> set b. x = 0"
proof -
  let ?f = "\<lambda>x. x\<lparr>c_pos := -1, c_seq_id := {}, c_src := -1, c_tail := -1\<rparr>"
  have cs: "kv_cells (llama_kv_cache_clear c) = map ?f (kv_cells c)"
    unfolding llama_kv_cache_clear_def using wf by (simp add: for_cells_map_unit [where f = ?f] kv_wf_def)
  have "count_if occupied (map ?f xs) = 0" for xs by (induction xs) (simp_all add: is_empty_cell_def)
  then show "kv_wf (llama_kv_cache_clear c)"
    using wf cs by (auto simp: kv_wf_def llama_kv_cache_clear_def cell_ok_def INT32_MAX_def)
  show "kv_view (llama_kv_cache_clear c) = {}" by (subst kv_view_map [OF cs]) simp
  show "kv_size (llama_kv_cache_clear c) = kv_size c" "kv_recurrent (llama_kv_cache_clear c) = kv_recurrent c"
    "\<forall>b \<in> set (kv_bufs (llama_kv_cache_clear c)). \<forall>x \<in> set b. x = 0"
    by (auto simp: llama_kv_cache_clear_def)
qed

section \<open>Shifting and dividing positions\<close>

definition in_range :: "int \<Rightarrow> int \<Rightarrow> int \<Rightarrow> llama_kv_cell \<Rightarrow> bool" where
  "in_range k p0 p1 x \<longleftrightarrow> k \<in> c_seq_id x \<and> p0 \<le> c_pos x \<and> c_pos x < p1"

definition add_cell :: "int \<Rightarrow> int \<Rightarrow> int \<Rightarrow> int \<Rightarrow> llama_kv_cell \<Rightarrow> llama_kv_cell" where
  "add_cell k p0 p1 d x =
    (if in_range k p0 p1 x
     then if c_pos x + d < 0 then x\<lparr>c_delta := c_delta x + d, c_pos := -1, c_seq_id := {}\<rparr>
          else x\<lparr>c_pos := c_pos x + d, c_delta := c_delta x + d\<rparr>
     else x)"

text \<open>No position or pending shift of the sequence leaves the 32-bit range.\<close>

definition shift_fits :: "llama_kv_cache \<Rightarrow> int \<Rightarrow> int \<Rightarrow> int \<Rightarrow> int \<Rightarrow> bool" where
  "shift_fits c k p0 p1 d \<longleftrightarrow> (\<forall>x \<in> set (kv_cells c). in_range k p0 p1 x \<longrightarrow> i32_ok (c_pos x + d) \<and> i32_ok (c_delta x + d))"

lemma seq_add_step_eq:
  assumes "i < length cs" "in_range k p0 p1 (cs ! i) \<Longrightarrow> i32_ok (c_pos (cs ! i) + d) \<and> i32_ok (c_delta (cs ! i) + d)"
  shows "\<exists>a'. seq_add_step sz k p0 p1 d i (cs, a) = Inr (cs[i := add_cell k p0 p1 d (cs ! i)], a') \<and>
    sa_used a' = (if occupied (cs ! i) \<and> is_empty_cell (add_cell k p0 p1 d (cs ! i)) then u32_dec (sa_used a) else sa_used a) \<and>
    sa_head a' \<in> {sa_head a, i}"
  using assms by (simp add: seq_add_step_def add_cell_def in_range_def has_seq_id_def i32_add_def Let_def is_empty_cell_def)

lemma list_update_take_drop: "i < length cs \<Longrightarrow>
    (map f (take i cs) @ drop i cs)[i := f (cs ! i)] = map f (take (Suc i) cs) @ drop (Suc i) cs"
  by (simp add: list_update_append take_Suc_conv_app_nth Cons_nth_drop_Suc [symmetric])

lemma seq_add_loop:
  assumes n: "length cs = n" "n < 2 ^ 30" and fits: "\<forall>x \<in> set cs. in_range k p0 p1 x \<longrightarrow> i32_ok (c_pos x + d) \<and> i32_ok (c_delta x + d)"
    and a: "sa_used a = count_if occupied cs" "sa_head a = n"
  shows "\<exists>a'. rfold (seq_add_step n k p0 p1 d) [0..<n] (cs, a) = Inr (map (add_cell k p0 p1 d) cs, a') \<and>
    sa_used a' = count_if occupied (map (add_cell k p0 p1 d) cs) \<and> sa_head a' \<le> n"
proof -
  let ?f = "add_cell k p0 p1 d"
  let ?P = "\<lambda>i (st :: llama_kv_cell list \<times> shift_acc). fst st = map ?f (take i cs) @ drop i cs \<and>
      sa_used (snd st) = count_if occupied (map ?f (take i cs)) + count_if occupied (drop i cs) \<and> sa_head (snd st) \<le> n"
  have mono: "occupied (?f x) \<Longrightarrow> occupied x" for x
    by (auto simp: add_cell_def is_empty_cell_def in_range_def split: if_splits)
  have "\<exists>t. rfold (seq_add_step n k p0 p1 d) [0..<n] (cs, a) = Inr t \<and> ?P n t"
  proof (rule rfold_upt_inv [where P = ?P])
    fix i st assume i: "i < n" and P: "?P i st"
    obtain ds b where st: "st = (ds, b)" by fastforce
    have ds: "ds = map ?f (take i cs) @ drop i cs" using P by (simp add: st)
    have nth: "ds ! i = cs ! i" and ln: "i < length ds" using ds i n(1) by (simp_all add: nth_append)
    have fit: "in_range k p0 p1 (ds ! i) \<Longrightarrow> i32_ok (c_pos (ds ! i) + d) \<and> i32_ok (c_delta (ds ! i) + d)"
      using fits i n(1) by (simp add: nth)
    obtain b' where b': "seq_add_step n k p0 p1 d i (ds, b) = Inr (ds[i := ?f (ds ! i)], b')"
      "sa_used b' = (if occupied (ds ! i) \<and> is_empty_cell (?f (ds ! i)) then u32_dec (sa_used b) else sa_used b)"
      "sa_head b' \<in> {sa_head b, i}"
      using seq_add_step_eq [OF ln fit] by blast
    have dr: "drop i cs = cs ! i # drop (Suc i) cs" using i n(1) by (simp add: Cons_nth_drop_Suc)
    have tk: "take (Suc i) cs = take i cs @ [cs ! i]" using i n(1) by (simp add: take_Suc_conv_app_nth)
    have lt: "sa_used b < 2 ^ 32"
      using P n i count_if_le [of occupied "map ?f (take i cs)"] count_if_le [of occupied "drop i cs"] by (simp add: st)
    have "ds[i := ?f (ds ! i)] = map ?f (take (Suc i) cs) @ drop (Suc i) cs"
      unfolding nth unfolding ds using list_update_take_drop [of i cs ?f] i n(1) by simp
    moreover have "sa_used b' = count_if occupied (map ?f (take (Suc i) cs)) + count_if occupied (drop (Suc i) cs)"
    proof -
      have "sa_used b = count_if occupied (map ?f (take i cs)) + count_if occupied (drop i cs)" using P by (simp add: st)
      then show ?thesis using b'(2) [unfolded nth] lt mono [of "cs ! i"] by (auto simp: dr tk)
    qed
    ultimately show "\<exists>t. seq_add_step n k p0 p1 d i st = Inr t \<and> ?P (Suc i) t"
      using b'(1,3) P i by (auto simp: st)
  qed (use a in simp)
  then show ?thesis using n(1) by auto
qed

lemma add_cell_ok: "cell_ok x \<Longrightarrow> (in_range k p0 p1 x \<Longrightarrow> i32_ok (c_pos x + d)) \<Longrightarrow> cell_ok (add_cell k p0 p1 d x)"
  by (auto simp: cell_ok_def add_cell_def in_range_def INT32_MAX_def i32_ok_def)

lemma seq_add_ok:
  assumes wf: "kv_wf c" and nr: "\<not> kv_recurrent c" and fits: "shift_fits c k (norm_p0 p0) (norm_p1 p1) d"
    and ne: "norm_p0 p0 \<noteq> norm_p1 p1"
  shows "\<exists>c'. llama_kv_cache_seq_add c k p0 p1 d = Inr c' \<and> kv_wf c' \<and> \<not> kv_recurrent c' \<and> kv_size c' = kv_size c \<and>
    kv_cells c' = map (add_cell k (norm_p0 p0) (norm_p1 p1) d) (kv_cells c)"
proof -
  let ?f = "add_cell k (norm_p0 p0) (norm_p1 p1) d"
  let ?a = "\<lparr>sa_shift = kv_has_shift c, sa_used = kv_used c, sa_head = kv_size c\<rparr>"
  obtain a' where a': "rfold (seq_add_step (kv_size c) k (norm_p0 p0) (norm_p1 p1) d) [0..<kv_size c] (kv_cells c, ?a) = Inr (map ?f (kv_cells c), a')"
    "sa_used a' = count_if occupied (map ?f (kv_cells c))" "sa_head a' \<le> kv_size c"
    using seq_add_loop [of "kv_cells c" "kv_size c" k "norm_p0 p0" "norm_p1 p1" d ?a] wf fits
    by (auto simp: kv_wf_def shift_fits_def)
  have "\<forall>x \<in> set (kv_cells c). cell_ok (?f x)" using wf fits by (auto simp: kv_wf_def shift_fits_def add_cell_ok)
  with a' wf nr ne show ?thesis by (auto simp: llama_kv_cache_seq_add_def Let_def kv_wf_def)
qed

lemma kv_view_add:
  assumes "kv_cells c' = map (add_cell k p0 p1 d) (kv_cells c)"
  shows "kv_view c' = {(k', p', i). \<exists>p. (k', p, i) \<in> kv_view c \<and>
      (if (k, p, i) \<in> kv_view c \<and> p0 \<le> p \<and> p < p1 then p' = p + d \<and> 0 \<le> p' else p' = p)}"
  by (subst kv_view_map [OF assms]) (auto simp: add_cell_def kv_view_def in_range_def split: if_splits)

definition div_cell :: "int \<Rightarrow> int \<Rightarrow> int \<Rightarrow> int \<Rightarrow> llama_kv_cell \<Rightarrow> llama_kv_cell" where
  "div_cell k p0 p1 d x = (if in_range k p0 p1 x
     then x\<lparr>c_pos := c_pos x div d, c_delta := c_delta x + (c_pos x div d - c_pos x)\<rparr> else x)"

lemma seq_div_ok:
  assumes wf: "kv_wf c" and nr: "\<not> kv_recurrent c" and d: "0 < d" and ne: "norm_p0 p0 \<noteq> norm_p1 p1"
    and fits: "\<forall>x \<in> set (kv_cells c). in_range k (norm_p0 p0) (norm_p1 p1) x \<longrightarrow> i32_ok (c_delta x + (c_pos x div d - c_pos x))"
  shows "\<exists>c'. llama_kv_cache_seq_div c k p0 p1 d = Inr c' \<and> kv_wf c' \<and> \<not> kv_recurrent c' \<and> kv_size c' = kv_size c \<and>
    kv_cells c' = map (div_cell k (norm_p0 p0) (norm_p1 p1) d) (kv_cells c)"
proof -
  let ?f = "div_cell k (norm_p0 p0) (norm_p1 p1) d" and ?cs = "kv_cells c" and ?n = "kv_size c"
  have ln: "length ?cs = ?n" using wf by (simp add: kv_wf_def)
  have bnd: "0 \<le> c_pos x div d \<and> c_pos x div d \<le> c_pos x" if "0 \<le> c_pos x" for x :: llama_kv_cell
    using that d zdiv_mono2 [of "c_pos x" 1 d] by (simp add: pos_imp_zdiv_nonneg_iff)
  have "\<exists>t. rfold (seq_div_step k (norm_p0 p0) (norm_p1 p1) d) [0..<?n] (?cs, kv_has_shift c) = Inr t \<and>
      fst t = map ?f (take ?n ?cs) @ drop ?n ?cs"
  proof (rule rfold_upt_inv [where P = "\<lambda>i st. fst st = map ?f (take i ?cs) @ drop i ?cs"])
    fix i and st :: "llama_kv_cell list \<times> bool"
    assume i: "i < ?n" and P: "fst st = map ?f (take i ?cs) @ drop i ?cs"
    have nth: "fst st ! i = ?cs ! i" and li: "i < length (fst st)" using P i ln by (simp_all add: nth_append)
    have ok: "cell_ok (?cs ! i)" using kv_wf_cell [OF wf] i ln by simp
    have mem: "?cs ! i \<in> set ?cs" using i ln by simp
    have "\<exists>sh. seq_div_step k (norm_p0 p0) (norm_p1 p1) d i st = Inr ((fst st)[i := ?f (?cs ! i)], sh)"
    proof (cases "in_range k (norm_p0 p0) (norm_p1 p1) (?cs ! i)")
      case True
      let ?p = "c_pos (?cs ! i)"
      have p: "0 \<le> ?p" "?p \<le> INT32_MAX"
        using True ok order.trans [OF norm_nonneg(1) [of p0], of ?p] by (simp_all add: in_range_def cell_ok_def)
      then have "i32_div ?p d = Inr (?p div d)" "i32_add (?p div d) (- ?p) = Inr (?p div d - ?p)"
        using d bnd [OF p(1)] by (simp_all add: i32_div_def cpp_div_nonneg i32_ok_def i32_add_def INT32_MAX_def)
      with True fits mem li nth show ?thesis
        by (intro exI [of _ True]) (simp add: seq_div_step_def div_cell_def in_range_def has_seq_id_def i32_add_def case_prod_beta)
    next
      case False
      then have "seq_div_step k (norm_p0 p0) (norm_p1 p1) d i st = Inr st"
        using li nth by (auto simp: seq_div_step_def in_range_def has_seq_id_def case_prod_beta)
      moreover have "(fst st)[i := ?f (?cs ! i)] = fst st"
        using False by (simp add: div_cell_def nth [symmetric])
      ultimately show ?thesis by (metis prod.collapse)
    qed
    then show "\<exists>t. seq_div_step k (norm_p0 p0) (norm_p1 p1) d i st = Inr t \<and> fst t = map ?f (take (Suc i) ?cs) @ drop (Suc i) ?cs"
      using P list_update_take_drop [of i ?cs ?f] i ln by auto
  qed simp
  then obtain sh where eq: "rfold (seq_div_step k (norm_p0 p0) (norm_p1 p1) d) [0..<?n] (?cs, kv_has_shift c) = Inr (map ?f ?cs, sh)"
    using ln by (metis append_Nil2 drop_all order.refl prod.collapse take_all)
  have ok: "cell_ok x \<Longrightarrow> cell_ok (?f x)" for x
    using bnd [of x] by (fastforce simp: cell_ok_def div_cell_def in_range_def)
  have "count_if occupied (map ?f ?cs) = count_if occupied ?cs"
    by (rule count_if_map_cong) (simp add: div_cell_def is_empty_cell_def)
  with eq wf nr ne ok show ?thesis by (auto simp: llama_kv_cache_seq_div_def Let_def kv_wf_def)
qed

section \<open>The slot search\<close>

definition free_run :: "llama_kv_cell list \<Rightarrow> nat \<Rightarrow> nat \<Rightarrow> bool" where
  "free_run cs h n \<longleftrightarrow> (\<forall>i < n. c_pos (cs ! (h + i)) < 0)"

lemma first_used_None: "first_used cs h n = None \<longleftrightarrow> free_run cs h n"
  by (auto simp: first_used_def free_run_def find_None_iff not_le)

lemma first_used_Some: "first_used cs h n = Some i \<Longrightarrow> i < n \<and> 0 \<le> c_pos (cs ! (h + i))"
  by (auto simp: first_used_def find_Some_iff)

text \<open>An occupied cell rules out every window that contains it.\<close>

lemma no_run_through: "0 \<le> c_pos (cs ! j) \<Longrightarrow> s \<le> j \<Longrightarrow> j < s + n \<Longrightarrow> \<not> free_run cs s n"
  unfolding free_run_def by (metis add_diff_inverse_nat less_diff_conv2 not_le add.commute)

text \<open>What the search returns: a window of free cells, or the fact that there is none.\<close>

definition slot_result :: "llama_kv_cell list \<Rightarrow> nat \<Rightarrow> nat \<Rightarrow> (nat \<times> bool) option \<Rightarrow> bool" where
  "slot_result cs sz n r \<longleftrightarrow> (case r of None \<Rightarrow> False | Some (h, f) \<Rightarrow> h \<le> sz \<and>
     (if f then h + n \<le> sz \<and> free_run cs h n else (\<forall>s. s + n \<le> sz \<longrightarrow> \<not> free_run cs s n)))"

lemma loop_step:
  assumes n: "n \<le> sz" and sz: "sz < 2 ^ 30" and ht: "h \<le> sz" "t \<le> 2 * sz"
  shows "find_slot_loop cs sz n h t =
     (if h + n > sz then find_slot_loop cs sz n 0 (t + (sz - h))
      else case first_used cs h n of None \<Rightarrow> Some (h, True)
           | Some i \<Rightarrow> if t + (i + 1) \<ge> sz then Some (h + i + 1, False) else find_slot_loop cs sz n (h + i + 1) (t + (i + 1)))"
proof -
  have "u32 (h + n) = h + n" using ht n sz by simp
  moreover have "u32_sub sz h = sz - h" "u32 (t + (sz - h)) = t + (sz - h)" using ht sz by (simp_all add: u32_sub_le)
  moreover have "u32 (h + (i + 1)) = h + i + 1" "u32 (t + (i + 1)) = t + (i + 1)" if "first_used cs h n = Some i" for i
    using first_used_Some [OF that] ht n sz by simp_all
  ultimately show ?thesis by (subst find_slot_loop.simps) (simp split: option.split)
qed

lemma loop_exhausted:
  assumes n: "n \<le> sz" and sz: "sz < 2 ^ 30" and no: "\<forall>s. s + n \<le> sz \<longrightarrow> \<not> free_run cs s n" and t: "sz \<le> t" "t \<le> 2 * sz"
  shows "slot_result cs sz n (find_slot_loop cs sz n 0 t)"
proof -
  obtain i where i: "first_used cs 0 n = Some i" using no n first_used_None [of cs 0 n] by fastforce
  then have "find_slot_loop cs sz n 0 t = Some (i + 1, False)"
    using loop_step [OF n sz, of 0 t] n t by simp
  then show ?thesis using no first_used_Some [OF i] n by (simp add: slot_result_def)
qed

text \<open>One iteration that does not wrap around: windows before \<open>h\<close> down to \<open>l\<close> were ruled out.\<close>

lemma loop_advance:
  assumes n: "n \<le> sz" and sz: "sz < 2 ^ 30" and h: "h + n \<le> sz" "t \<le> 2 * sz" and ruled: "\<forall>s. l \<le> s \<and> s < h \<and> s + n \<le> sz \<longrightarrow> \<not> free_run cs s n"
    and cont: "\<And>i. i < n \<Longrightarrow> \<forall>s. l \<le> s \<and> s < h + i + 1 \<and> s + n \<le> sz \<longrightarrow> \<not> free_run cs s n \<Longrightarrow>
      slot_result cs sz n (if t + (i + 1) \<ge> sz then Some (h + i + 1, False) else find_slot_loop cs sz n (h + i + 1) (t + (i + 1)))"
  shows "slot_result cs sz n (find_slot_loop cs sz n h t)"
proof (cases "first_used cs h n")
  case None
  then have "free_run cs h n" by (simp add: first_used_None [symmetric])
  with None h loop_step [OF n sz, of h t cs] show ?thesis by (simp add: slot_result_def)
next
  case (Some i)
  note i = first_used_Some [OF Some]
  have "\<not> free_run cs s n" if "l \<le> s" "s < h + i + 1" "s + n \<le> sz" for s
    using ruled that no_run_through [of cs "h + i" s n] i by (cases "s < h") auto
  with cont [of i] i Some h loop_step [OF n sz, of h t] show ?thesis by simp
qed

lemma loop_second_lap:
  assumes n: "n \<le> sz" and sz: "sz < 2 ^ 30" and "h0 \<le> sz" "h \<le> sz" "\<forall>s. h0 \<le> s \<and> s + n \<le> sz \<longrightarrow> \<not> free_run cs s n"
    and "\<forall>s. 0 \<le> s \<and> s < h \<and> s + n \<le> sz \<longrightarrow> \<not> free_run cs s n"
  shows "slot_result cs sz n (find_slot_loop cs sz n h (sz - h0 + h))"
  using assms(3-)
proof (induction "sz - h" arbitrary: h rule: less_induct)
  case less
  show ?case
  proof (cases "h + n > sz")
    case True
    have "slot_result cs sz n (find_slot_loop cs sz n 0 (sz - h0 + h + (sz - h)))"
      by (rule loop_exhausted [OF n sz]) (use less.prems True in auto)
    with True loop_step [OF n sz, of h "sz - h0 + h"] less.prems show ?thesis by simp
  next
    case False
    show ?thesis
    proof (rule loop_advance [OF n sz])
      fix i assume i: "i < n" and ruled: "\<forall>s. 0 \<le> s \<and> s < h + i + 1 \<and> s + n \<le> sz \<longrightarrow> \<not> free_run cs s n"
      show "slot_result cs sz n (if sz - h0 + h + (i + 1) \<ge> sz then Some (h + i + 1, False)
          else find_slot_loop cs sz n (h + i + 1) (sz - h0 + h + (i + 1)))"
      proof (cases "sz - h0 + h + (i + 1) \<ge> sz")
        case True
        then have "h0 \<le> h + i + 1" using less.prems by linarith
        with ruled less.prems(3) have "\<not> free_run cs s n" if "s + n \<le> sz" for s using that by (cases "h0 \<le> s") auto
        with True False i show ?thesis by (simp add: slot_result_def)
      next
        case nret: False
        have "slot_result cs sz n (find_slot_loop cs sz n (h + i + 1) (sz - h0 + (h + i + 1)))"
          by (rule less.hyps) (use less.prems False i ruled in auto)
        with nret show ?thesis by (simp add: add.assoc)
      qed
    qed (use False less.prems in auto)
  qed
qed

lemma loop_first_lap:
  assumes n: "n \<le> sz" and sz: "sz < 2 ^ 30" and "h0 \<le> h" "h \<le> sz" "\<forall>s. h0 \<le> s \<and> s < h \<and> s + n \<le> sz \<longrightarrow> \<not> free_run cs s n"
  shows "slot_result cs sz n (find_slot_loop cs sz n h (h - h0))"
  using assms(3-)
proof (induction "sz - h" arbitrary: h rule: less_induct)
  case less
  show ?case
  proof (cases "h + n > sz")
    case True
    have "slot_result cs sz n (find_slot_loop cs sz n 0 (sz - h0 + 0))"
      by (rule loop_second_lap [OF n sz]) (use less.prems True in auto)
    with True loop_step [OF n sz, of h "h - h0"] less.prems show ?thesis by simp
  next
    case False
    show ?thesis
    proof (rule loop_advance [OF n sz])
      fix i assume i: "i < n" and ruled: "\<forall>s. h0 \<le> s \<and> s < h + i + 1 \<and> s + n \<le> sz \<longrightarrow> \<not> free_run cs s n"
      show "slot_result cs sz n (if h - h0 + (i + 1) \<ge> sz then Some (h + i + 1, False)
          else find_slot_loop cs sz n (h + i + 1) (h - h0 + (i + 1)))"
      proof (cases "h - h0 + (i + 1) \<ge> sz")
        case True
        then have "h0 = 0" "h + i + 1 \<ge> sz" using False i less.prems by linarith+
        with ruled True False i show ?thesis by (auto simp: slot_result_def)
      next
        case nret: False
        have "slot_result cs sz n (find_slot_loop cs sz n (h + i + 1) (h + i + 1 - h0))"
          by (rule less.hyps) (use less.prems False i ruled in auto)
        with nret less.prems(1) show ?thesis by (simp add: Suc_diff_le)
      qed
    qed (use False less.prems in auto)
  qed
qed

text \<open>The search always ends, with a window of free cells if and only if there is one.\<close>

lemma find_slot_loop_total:
  "n \<le> sz \<Longrightarrow> sz < 2 ^ 30 \<Longrightarrow> h \<le> sz \<Longrightarrow> slot_result cs sz n (find_slot_loop cs sz n h 0)"
  using loop_first_lap [of n sz h h cs] by fastforce

section \<open>Filling the slot\<close>

text \<open>A micro-batch as the cache needs it: equally long sequences, positions that are not negative,
  at least one sequence id for every sequence.\<close>

definition ubatch_ok :: "llama_ubatch \<Rightarrow> bool" where
  "ubatch_ok ub \<longleftrightarrow> ub_n_tokens ub = ub_n_seqs ub * ub_n_seq_tokens ub \<and>
     (\<exists>ps. ub_pos ub = Some ps \<and> ub_n_tokens ub \<le> length ps \<and> (\<forall>k < ub_n_tokens ub. 0 \<le> ps ! k \<and> ps ! k \<le> INT32_MAX)) \<and>
     ub_n_seqs ub \<le> length (ub_n_seq_id ub) \<and> ub_n_seqs ub \<le> length (ub_seq_id ub) \<and>
     (\<forall>s < ub_n_seqs ub. 0 < ub_n_seq_id ub ! s \<and> (\<exists>l. ub_seq_id ub ! s = Some l \<and> ub_n_seq_id ub ! s \<le> int (length l)))"

text \<open>The position and the sequence ids token \<open>k\<close> of the micro-batch brings.\<close>

definition tok_pos :: "llama_ubatch \<Rightarrow> nat \<Rightarrow> int" where
  "tok_pos ub k = the (ub_pos ub) ! k"

definition tok_seqs :: "llama_ubatch \<Rightarrow> nat \<Rightarrow> int set" where
  "tok_seqs ub k = (let s = k div ub_n_seq_tokens ub in set (take (nat (ub_n_seq_id ub ! s)) (the (ub_seq_id ub ! s))))"

definition filled :: "llama_ubatch \<Rightarrow> nat \<Rightarrow> llama_kv_cell \<Rightarrow> llama_kv_cell" where
  "filled ub k x = x\<lparr>c_pos := tok_pos ub k, c_seq_id := c_seq_id x \<union> tok_seqs ub k\<rparr>"

definition filled_upto :: "llama_ubatch \<Rightarrow> nat \<Rightarrow> llama_kv_cell list \<Rightarrow> nat \<Rightarrow> llama_kv_cell list" where
  "filled_upto ub h cs m = take h cs @ map (\<lambda>k. filled ub k (cs ! (h + k))) [0..<m] @ drop (h + m) cs"

lemma tok_index: "s < a \<Longrightarrow> i < b \<Longrightarrow> s * b + i < a * (b::nat)" "i < b \<Longrightarrow> (s * b + i) div b = (s::nat)"
proof -
  assume "s < a" "i < b"
  then have "s * b + i < Suc s * b" by simp
  also have "\<dots> \<le> a * b" using \<open>s < a\<close> by (intro mult_le_mono1) simp
  finally show "s * b + i < a * b" .
qed simp

lemma fill_cell_eq:
  assumes ok: "ubatch_ok ub" and s: "s < ub_n_seqs ub" and i: "i < ub_n_seq_tokens ub"
    and k: "k = s * ub_n_seq_tokens ub + i" and h: "h + k < length cs"
  shows "fill_cell ub h s i cs = Inr (cs[h + k := filled ub k (cs ! (h + k))])"
proof -
  have kn: "k < ub_n_tokens ub" and kd: "k div ub_n_seq_tokens ub = s"
    using tok_index(1) [OF s i] tok_index(2) [OF i, of s] ok k by (simp_all add: ubatch_ok_def)
  from ok kn obtain ps where ps: "ub_pos ub = Some ps" "k < length ps" by (auto simp: ubatch_ok_def)
  from ok s obtain l where l: "ub_seq_id ub ! s = Some l" "nat (ub_n_seq_id ub ! s) \<le> length l"
    "s < length (ub_n_seq_id ub)" "s < length (ub_seq_id ub)" by (fastforce simp: ubatch_ok_def)
  let ?g = "\<lambda>j. cs[h + k := (cs ! (h + k))\<lparr>c_pos := ps ! k, c_seq_id := c_seq_id (cs ! (h + k)) \<union> set (take j l)\<rparr>]"
  have "rfold (\<lambda>j cs. rbind (ub_seq ub s j) (\<lambda>x.
         Inr (cs[h + k := (cs ! (h + k))\<lparr>c_seq_id := insert x (c_seq_id (cs ! (h + k)))\<rparr>])))
       [0..<nat (ub_n_seq_id ub ! s)] (?g 0) = Inr (?g (nat (ub_n_seq_id ub ! s)))"
    by (rule rfold_upt_closed) (use l h in \<open>simp add: ub_seq_def deref_def take_Suc_conv_app_nth\<close>)
  moreover have "?g 0 = cs[h + k := (cs ! (h + k))\<lparr>c_pos := ps ! k\<rparr>]" by simp
  ultimately show ?thesis
    unfolding fill_cell_def k [symmetric] using ps l h kd
    by (simp add: Let_def deref_def filled_def tok_pos_def tok_seqs_def)
qed

lemma filled_upto_Suc:
  assumes "h + m < length cs"
  shows "(filled_upto ub h cs m)[h + m := filled ub m (filled_upto ub h cs m ! (h + m))] = filled_upto ub h cs (Suc m)"
proof -
  have "filled_upto ub h cs m ! (h + m) = cs ! (h + m)" using assms by (simp add: filled_upto_def nth_append)
  then show ?thesis unfolding filled_upto_def using assms by (simp add: splice_step [of h m cs])
qed

lemma length_filled_upto [simp]: "h + m \<le> length cs \<Longrightarrow> length (filled_upto ub h cs m) = length cs"
  by (simp add: filled_upto_def)

lemma fill_slot_eq:
  assumes ok: "ubatch_ok ub" and h: "h + ub_n_tokens ub \<le> length cs"
  shows "fill_slot ub h cs = Inr (filled_upto ub h cs (ub_n_tokens ub))"
proof -
  let ?b = "ub_n_seq_tokens ub"
  have n: "ub_n_tokens ub = ub_n_seqs ub * ?b" using ok by (simp add: ubatch_ok_def)
  have inner: "rfold (fill_cell ub h s) [0..<?b] (filled_upto ub h cs (s * ?b)) = Inr (filled_upto ub h cs (Suc s * ?b))"
    if s: "s < ub_n_seqs ub" for s
  proof -
    have "rfold (fill_cell ub h s) [0..<?b] (filled_upto ub h cs (s * ?b + 0)) = Inr (filled_upto ub h cs (s * ?b + ?b))"
    proof (rule rfold_upt_closed)
      fix i assume i: "i < ?b"
      have lt: "h + (s * ?b + i) < length cs" using tok_index(1) [OF s i] h n by simp
      then have "fill_cell ub h s i (filled_upto ub h cs (s * ?b + i)) = Inr ((filled_upto ub h cs (s * ?b + i))
          [h + (s * ?b + i) := filled ub (s * ?b + i) (filled_upto ub h cs (s * ?b + i) ! (h + (s * ?b + i)))])"
        by (intro fill_cell_eq [OF ok s i refl]) simp
      with filled_upto_Suc [OF lt] show "fill_cell ub h s i (filled_upto ub h cs (s * ?b + i)) = Inr (filled_upto ub h cs (s * ?b + Suc i))"
        by simp
    qed
    then show ?thesis by (simp add: add.commute)
  qed
  have "rfold (\<lambda>s cs. rfold (fill_cell ub h s) [0..<?b] cs) [0..<ub_n_seqs ub] (filled_upto ub h cs (0 * ?b)) =
      Inr (filled_upto ub h cs (ub_n_seqs ub * ?b))"
    by (rule rfold_upt_closed) (rule inner)
  then show ?thesis by (simp add: fill_slot_def n filled_upto_def)
qed

lemma tok_facts:
  assumes "ubatch_ok ub" "k < ub_n_tokens ub"
  shows "0 \<le> tok_pos ub k" "tok_pos ub k \<le> INT32_MAX" "tok_seqs ub k \<noteq> {}" "finite (tok_seqs ub k)"
proof -
  let ?s = "k div ub_n_seq_tokens ub"
  have s: "?s < ub_n_seqs ub"
    using assms by (cases "ub_n_seq_tokens ub = 0") (auto simp: ubatch_ok_def div_less_iff_less_mult)
  show "0 \<le> tok_pos ub k" "tok_pos ub k \<le> INT32_MAX" using assms by (auto simp: ubatch_ok_def tok_pos_def)
  from assms(1) s obtain l where l: "ub_seq_id ub ! ?s = Some l" "0 < ub_n_seq_id ub ! ?s" "ub_n_seq_id ub ! ?s \<le> int (length l)"
    by (auto simp: ubatch_ok_def)
  then have "0 < nat (ub_n_seq_id ub ! ?s)" "l \<noteq> []" by auto
  with l(1) show "tok_seqs ub k \<noteq> {}" by (simp add: tok_seqs_def Let_def)
  show "finite (tok_seqs ub k)" by (simp add: tok_seqs_def Let_def)
qed

lemma count_if_all: "(\<And>x. x \<in> set xs \<Longrightarrow> p x) \<Longrightarrow> count_if p xs = length xs"
  by (induction xs) simp_all

lemma count_if_none: "(\<And>x. x \<in> set xs \<Longrightarrow> \<not> p x) \<Longrightarrow> count_if p xs = 0"
  by (induction xs) simp_all

text \<open>Placing a micro-batch in a free window keeps the invariant and adds exactly its tokens.\<close>

lemma place_ok:
  assumes wf: "kv_wf c" and ok: "ubatch_ok ub" and h: "h + ub_n_tokens ub \<le> kv_size c" and free: "free_run (kv_cells c) h (ub_n_tokens ub)"
  defines "c' \<equiv> c\<lparr>kv_cells := filled_upto ub h (kv_cells c) (ub_n_tokens ub), kv_head := h, kv_used := u32 (kv_used c + ub_n_tokens ub)\<rparr>"
  shows "kv_wf c'" "kv_view c' = kv_view c \<union> {(k, tok_pos ub j, h + j) | k j. j < ub_n_tokens ub \<and> k \<in> tok_seqs ub j}"
proof -
  let ?cs = "kv_cells c" and ?n = "ub_n_tokens ub"
  let ?mid = "take ?n (drop h ?cs)"
  have ln: "length ?cs = kv_size c" using wf by (simp add: kv_wf_def)
  have free': "c_seq_id (?cs ! (h + j)) = {}" if "j < ?n" for j
    using free that kv_wf_cell [OF wf, of "h + j"] h ln by (auto simp: free_run_def cell_ok_def)
  have split: "?cs = take h ?cs @ ?mid @ drop (h + ?n) ?cs" by (metis append_take_drop_id drop_drop add.commute)
  have mid0: "count_if occupied ?mid = 0"
    by (rule count_if_none) (use free' h ln in \<open>auto simp: in_set_conv_nth is_empty_cell_def\<close>)
  have midn: "count_if occupied (map (\<lambda>k. filled ub k (?cs ! (h + k))) [0..<?n]) = ?n"
  proof -
    have "count_if occupied (map (\<lambda>k. filled ub k (?cs ! (h + k))) [0..<?n]) = length (map (\<lambda>k. filled ub k (?cs ! (h + k))) [0..<?n])"
      by (rule count_if_all) (use tok_facts(3) [OF ok] in \<open>auto simp: filled_def is_empty_cell_def\<close>)
    then show ?thesis by simp
  qed
  have used: "kv_used c = count_if occupied (take h ?cs) + count_if occupied (drop (h + ?n) ?cs)"
    using wf mid0 by (subst (asm) kv_wf_def) (subst (asm) (2) split, simp)
  have "kv_used c + ?n < 2 ^ 32" using kv_wf_used_lt [OF wf] h wf by (simp add: kv_wf_def)
  moreover have "cell_ok (filled ub k (?cs ! (h + k)))" if "k < ?n" for k
    using tok_facts [OF ok that] kv_wf_cell [OF wf, of "h + k"] that h ln by (auto simp: cell_ok_def filled_def)
  moreover have "\<forall>x \<in> set (take h ?cs) \<union> set (drop (h + ?n) ?cs). cell_ok x"
    using wf by (auto simp: kv_wf_def dest: in_set_takeD in_set_dropD)
  ultimately show "kv_wf c'"
    using wf used midn h unfolding kv_wf_def c'_def by (auto simp: filled_upto_def)
  have nth: "kv_cells c' ! i = (if h \<le> i \<and> i < h + ?n then filled ub (i - h) (?cs ! i) else ?cs ! i)" if "i < kv_size c" for i
    using that h ln by (auto simp: c'_def filled_upto_def nth_append)
  have lc: "length (kv_cells c') = kv_size c" using h ln by (simp add: c'_def)
  have mem: "(k, p, i) \<in> kv_view c' \<longleftrightarrow>
      (k, p, i) \<in> kv_view c \<union> {(k, tok_pos ub j, h + j) | k j. j < ?n \<and> k \<in> tok_seqs ub j}" for k p i
  proof (cases "h \<le> i \<and> i < h + ?n")
    case True
    then obtain j where j: "i = h + j" "j < ?n" by (metis add_less_cancel_left le_Suc_ex)
    with nth [of i] lc ln free' [OF j(2)] h show ?thesis by (auto simp: kv_view_def filled_def)
  next
    case False
    then show ?thesis using nth [of i] lc ln by (auto simp: kv_view_def)
  qed
  show "kv_view c' = kv_view c \<union> {(k, tok_pos ub j, h + j) | k j. j < ?n \<and> k \<in> tok_seqs ub j}"
  proof (rule set_eqI)
    fix x
    show "x \<in> kv_view c' \<longleftrightarrow> x \<in> kv_view c \<union> {(k, tok_pos ub j, h + j) | k j. j < ?n \<and> k \<in> tok_seqs ub j}"
      by (cases x rule: prod_cases3) (simp only: mem)
  qed
qed

text \<open>The tokens of a cache, wherever they are: position and sequences of every occupied cell.\<close>

definition cell_tokens :: "llama_kv_cell list \<Rightarrow> (int \<times> int set) multiset" where
  "cell_tokens cs = image_mset (\<lambda>x. (c_pos x, c_seq_id x)) (filter_mset occupied (mset cs))"

lemma cell_tokens_append [simp]: "cell_tokens (xs @ ys) = cell_tokens xs + cell_tokens ys"
  by (simp add: cell_tokens_def)

lemma cell_tokens_none: "(\<And>x. x \<in> set xs \<Longrightarrow> is_empty_cell x) \<Longrightarrow> cell_tokens xs = {#}"
  by (simp add: cell_tokens_def filter_mset_eq_conv)

lemma cell_tokens_all: "(\<And>x. x \<in> set xs \<Longrightarrow> occupied x) \<Longrightarrow> cell_tokens xs = mset (map (\<lambda>x. (c_pos x, c_seq_id x)) xs)"
  by (induction xs) (simp_all add: cell_tokens_def)

definition ubatch_tokens :: "llama_ubatch \<Rightarrow> (int \<times> int set) multiset" where
  "ubatch_tokens ub = mset (map (\<lambda>k. (tok_pos ub k, tok_seqs ub k)) [0..<ub_n_tokens ub])"

lemma place_tokens:
  assumes wf: "kv_wf c" and ok: "ubatch_ok ub" and h: "h + ub_n_tokens ub \<le> kv_size c" and free: "free_run (kv_cells c) h (ub_n_tokens ub)"
  shows "cell_tokens (filled_upto ub h (kv_cells c) (ub_n_tokens ub)) = cell_tokens (kv_cells c) + ubatch_tokens ub"
proof -
  let ?cs = "kv_cells c" and ?n = "ub_n_tokens ub"
  have ln: "length ?cs = kv_size c" using wf by (simp add: kv_wf_def)
  have free': "c_seq_id (?cs ! (h + j)) = {}" if "j < ?n" for j
    using free that kv_wf_cell [OF wf, of "h + j"] h ln by (auto simp: free_run_def cell_ok_def)
  have "cell_tokens (take ?n (drop h ?cs)) = {#}"
    by (rule cell_tokens_none) (use free' h ln in \<open>auto simp: in_set_conv_nth is_empty_cell_def\<close>)
  moreover have "?cs = take h ?cs @ take ?n (drop h ?cs) @ drop (h + ?n) ?cs" by (metis append_take_drop_id drop_drop add.commute)
  ultimately have cs: "cell_tokens ?cs = cell_tokens (take h ?cs) + cell_tokens (drop (h + ?n) ?cs)"
    by (metis cell_tokens_append add.left_neutral)
  have "cell_tokens (map (\<lambda>k. filled ub k (?cs ! (h + k))) [0..<?n]) =
      mset (map (\<lambda>x. (c_pos x, c_seq_id x)) (map (\<lambda>k. filled ub k (?cs ! (h + k))) [0..<?n]))"
    by (rule cell_tokens_all) (use tok_facts(3) [OF ok] in \<open>auto simp: filled_def is_empty_cell_def\<close>)
  also have "map (\<lambda>x. (c_pos x, c_seq_id x)) (map (\<lambda>k. filled ub k (?cs ! (h + k))) [0..<?n]) = map (\<lambda>k. (tok_pos ub k, tok_seqs ub k)) [0..<?n]"
    using free' by (simp add: filled_def)
  finally have "cell_tokens (map (\<lambda>k. filled ub k (?cs ! (h + k))) [0..<?n]) = ubatch_tokens ub"
    by (simp only: ubatch_tokens_def)
  then show ?thesis by (simp add: filled_upto_def cs)
qed

text \<open>The two outcomes of the search.\<close>

lemma find_slot_cases:
  assumes wf: "kv_wf c" and nr: "\<not> kv_recurrent c" and ok: "ubatch_ok ub"
  obtains (found) h where "h + ub_n_tokens ub \<le> kv_size c" "free_run (kv_cells c) h (ub_n_tokens ub)"
      "llama_kv_cache_find_slot c ub = Inr (slot_range h (h + ub_n_tokens ub),
         c\<lparr>kv_cells := filled_upto ub h (kv_cells c) (ub_n_tokens ub), kv_head := h, kv_used := u32 (kv_used c + ub_n_tokens ub)\<rparr>)"
  | (none) h where "llama_kv_cache_find_slot c ub = Inr (slot_failed, c\<lparr>kv_head := h\<rparr>)" "h \<le> kv_size c"
      "\<forall>s. s + ub_n_tokens ub \<le> kv_size c \<longrightarrow> \<not> free_run (kv_cells c) s (ub_n_tokens ub)"
proof (cases "ub_n_tokens ub > kv_size c")
  case True
  with nr wf show ?thesis by (intro none [of "kv_head c"]) (simp_all add: llama_kv_cache_find_slot_def kv_wf_def)
next
  case False
  let ?n = "ub_n_tokens ub"
  have "slot_result (kv_cells c) (kv_size c) ?n (find_slot_loop (kv_cells c) (kv_size c) ?n (kv_head c) 0)"
    using find_slot_loop_total [of ?n "kv_size c" "kv_head c"] False wf by (simp add: kv_wf_def)
  then obtain h f where r: "find_slot_loop (kv_cells c) (kv_size c) ?n (kv_head c) 0 = Some (h, f)" "h \<le> kv_size c"
    "if f then h + ?n \<le> kv_size c \<and> free_run (kv_cells c) h ?n else (\<forall>s. s + ?n \<le> kv_size c \<longrightarrow> \<not> free_run (kv_cells c) s ?n)"
    by (auto simp: slot_result_def split: option.splits)
  show ?thesis
  proof (cases f)
    case True
    have "fill_slot ub h (kv_cells c) = Inr (filled_upto ub h (kv_cells c) ?n)"
      using fill_slot_eq [OF ok, of h "kv_cells c"] r(3) True wf by (simp add: kv_wf_def)
    then show ?thesis using nr False r True by (intro found [of h]) (simp_all add: llama_kv_cache_find_slot_def)
  next
    case F: False
    then show ?thesis using nr False r by (intro none [of h]) (simp_all add: llama_kv_cache_find_slot_def)
  qed
qed

lemma find_slot_ok:
  assumes wf: "kv_wf c" and nr: "\<not> kv_recurrent c" and ok: "ubatch_ok ub"
  shows "\<exists>si c'. llama_kv_cache_find_slot c ub = Inr (si, c') \<and> kv_wf c' \<and> \<not> kv_recurrent c' \<and> kv_size c' = kv_size c \<and>
    (if si_found si
     then si_end si = si_begin si + ub_n_tokens ub \<and> si_end si \<le> kv_size c \<and> kv_head c' = si_begin si \<and>
          free_run (kv_cells c) (si_begin si) (ub_n_tokens ub) \<and>
          kv_view c' = kv_view c \<union> {(k, tok_pos ub j, si_begin si + j) | k j. j < ub_n_tokens ub \<and> k \<in> tok_seqs ub j}
     else kv_cells c' = kv_cells c \<and> (\<forall>s. s + ub_n_tokens ub \<le> kv_size c \<longrightarrow> \<not> free_run (kv_cells c) s (ub_n_tokens ub)))"
  using wf nr ok
proof (cases rule: find_slot_cases)
  case (found h)
  with place_ok [OF wf ok found(1,2)] nr show ?thesis by (simp add: slot_range_def)
next
  case (none h)
  with wf nr show ?thesis by (simp add: slot_failed_def kv_wf_def)
qed

section \<open>Reachable caches\<close>

text \<open>Success of a shift or a division means that nothing overflowed.\<close>

lemma seq_add_fits:
  assumes wf: "kv_wf c" and run: "rfold (seq_add_step (kv_size c) k p0 p1 d) [0..<kv_size c] (kv_cells c, a) = Inr t"
  shows "shift_fits c k p0 p1 d"
proof -
  have "\<forall>i < kv_size c. in_range k p0 p1 (kv_cells c ! i) \<longrightarrow> i32_ok (c_pos (kv_cells c ! i) + d) \<and> i32_ok (c_delta (kv_cells c ! i) + d)"
  proof (rule rfold_cells_needs [OF _ run])
    show "(in_range k p0 p1 (cs ! i) \<longrightarrow> i32_ok (c_pos (cs ! i) + d) \<and> i32_ok (c_delta (cs ! i) + d)) \<and> (\<exists>x. fst t = cs[i := x])"
      if "seq_add_step (kv_size c) k p0 p1 d i (cs, a) = Inr t" "i < length cs" for i cs a t
      using that by (auto simp: seq_add_step_def in_range_def has_seq_id_def i32_add_def Let_def split: if_splits)
        (metis list_update_id)+
  qed (use wf in \<open>simp add: kv_wf_def\<close>)
  then show ?thesis using wf by (auto simp: shift_fits_def kv_wf_def in_set_conv_nth)
qed

lemma seq_div_fits:
  assumes wf: "kv_wf c" and run: "rfold (seq_div_step k p0 p1 d) [0..<kv_size c] (kv_cells c, sh) = Inr t" and d: "0 < d" and p0: "0 \<le> p0"
  shows "\<forall>x \<in> set (kv_cells c). in_range k p0 p1 x \<longrightarrow> i32_ok (c_delta x + (c_pos x div d - c_pos x))"
proof -
  have "\<forall>i < kv_size c. in_range k p0 p1 (kv_cells c ! i) \<longrightarrow> i32_ok (c_delta (kv_cells c ! i) + (c_pos (kv_cells c ! i) div d - c_pos (kv_cells c ! i)))"
  proof (rule rfold_cells_needs [OF _ run])
    show "(in_range k p0 p1 (cs ! i) \<longrightarrow> i32_ok (c_delta (cs ! i) + (c_pos (cs ! i) div d - c_pos (cs ! i)))) \<and> (\<exists>x. fst t = cs[i := x])"
      if "seq_div_step k p0 p1 d i (cs, a) = Inr t" "i < length cs" for i cs a t
      using that d p0
      by (auto simp: seq_div_step_def in_range_def has_seq_id_def i32_add_def i32_div_def cpp_div_nonneg res_simps split: if_splits)
        (metis list_update_id)+
  qed (use wf in \<open>simp add: kv_wf_def\<close>)
  then show ?thesis using wf by (auto simp: kv_wf_def in_set_conv_nth)
qed

text \<open>The operations a context performs on a transformer's cache, in any order. \<open>advance\<close> is the
  head update after a micro-batch was evaluated.\<close>

inductive kv_step :: "llama_kv_cache \<Rightarrow> llama_kv_cache \<Rightarrow> bool" where
  clear: "kv_step c (llama_kv_cache_clear c)"
| seq_rm: "llama_kv_cache_seq_rm c k p0 p1 = Inr (r, c') \<Longrightarrow> kv_step c c'"
| seq_cp: "llama_kv_cache_seq_cp c src dst p0 p1 = Inr c' \<Longrightarrow> kv_step c c'"
| seq_keep: "kv_step c (llama_kv_cache_seq_keep c k)"
| seq_add: "llama_kv_cache_seq_add c k p0 p1 d = Inr c' \<Longrightarrow> kv_step c c'"
| seq_div: "llama_kv_cache_seq_div c k p0 p1 d = Inr c' \<Longrightarrow> 0 < d \<Longrightarrow> kv_step c c'"
| defrag: "kv_step c (llama_kv_cache_defrag c)"
| find_slot: "llama_kv_cache_find_slot c ub = Inr (si, c') \<Longrightarrow> ubatch_ok ub \<Longrightarrow> kv_step c c'"
| head_wrap: "kv_step c (c\<lparr>kv_head := (if u32 (kv_head c + n) \<ge> kv_size c then 0 else u32 (kv_head c + n))\<rparr>)"

lemma kv_step_wf:
  assumes "kv_step c c'" "kv_wf c" "\<not> kv_recurrent c"
  shows "kv_wf c' \<and> \<not> kv_recurrent c' \<and> kv_size c' = kv_size c"
  using assms
proof (cases rule: kv_step.cases)
  case clear
  with assms show ?thesis using clear_ok [of c] by simp
next
  case (seq_rm k p0 p1 r)
  with seq_rm_ok [OF assms(2,3), of k p0 p1] show ?thesis by auto
next
  case (seq_cp src dst p0 p1)
  with seq_cp_ok [OF assms(2,3), of src dst p0 p1] show ?thesis by auto
next
  case (seq_keep k)
  with seq_keep_ok [OF assms(2,3), of k] show ?thesis by simp
next
  case (seq_add k p0 p1 d)
  show ?thesis
  proof (cases "norm_p0 p0 = norm_p1 p1")
    case True
    with seq_add assms show ?thesis by (simp add: llama_kv_cache_seq_add_def Let_def)
  next
    case False
    then have "shift_fits c k (norm_p0 p0) (norm_p1 p1) d"
      using seq_add assms(2,3) by (auto simp: llama_kv_cache_seq_add_def Let_def res_simps intro: seq_add_fits)
    from seq_add_ok [OF assms(2,3) this False] seq_add show ?thesis by auto
  qed
next
  case (seq_div k p0 p1 d)
  show ?thesis
  proof (cases "norm_p0 p0 = norm_p1 p1")
    case True
    with seq_div assms show ?thesis by (simp add: llama_kv_cache_seq_div_def Let_def)
  next
    case False
    then have "\<forall>x \<in> set (kv_cells c). in_range k (norm_p0 p0) (norm_p1 p1) x \<longrightarrow> i32_ok (c_delta x + (c_pos x div d - c_pos x))"
      using seq_div assms(2,3) seq_div_fits [OF assms(2) _ seq_div(2) norm_nonneg(1)]
      by (auto simp: llama_kv_cache_seq_div_def Let_def res_simps)
    from seq_div_ok [OF assms(2,3) seq_div(2) False this] seq_div show ?thesis by auto
  qed
next
  case defrag
  with assms show ?thesis by (simp add: llama_kv_cache_defrag_def kv_wf_def)
next
  case (find_slot ub si)
  with find_slot_ok [OF assms(2,3) find_slot(2)] show ?thesis by auto
next
  case (head_wrap n)
  with assms show ?thesis by (auto simp: kv_wf_def)
qed

text \<open>An initialised cache of a transformer: empty cells, as \<open>llama_kv_cache_init\<close> leaves them.\<close>

definition kv_fresh :: "nat \<Rightarrow> llama_kv_cache \<Rightarrow> bool" where
  "kv_fresh n c \<longleftrightarrow> kv_size c = n \<and> kv_cells c = replicate n new_cell \<and> kv_head c = 0 \<and> kv_used c = 0 \<and> \<not> kv_recurrent c"

lemma count_fresh: "count_if occupied (replicate n new_cell) = 0"
  by (rule count_if_none) (auto simp: new_cell_def is_empty_cell_def)

lemma kv_fresh_wf: "kv_fresh n c \<Longrightarrow> n < 2 ^ 30 \<Longrightarrow> kv_wf c"
  using count_fresh [of n] by (auto simp: kv_fresh_def kv_wf_def cell_ok_def new_cell_def INT32_MAX_def)

inductive kv_reachable :: "nat \<Rightarrow> llama_kv_cache \<Rightarrow> bool" for n :: nat where
  init: "kv_fresh n c \<Longrightarrow> kv_reachable n c"
| step: "kv_reachable n c \<Longrightarrow> kv_step c c' \<Longrightarrow> kv_reachable n c'"

lemma kv_reachable_wf: "kv_reachable n c \<Longrightarrow> n < 2 ^ 30 \<Longrightarrow> kv_wf c \<and> \<not> kv_recurrent c \<and> kv_size c = n"
proof (induction rule: kv_reachable.induct)
  case (init c)
  then show ?case using kv_fresh_wf by (auto simp: kv_fresh_def)
next
  case (step c c')
  then show ?case using kv_step_wf by auto
qed

section \<open>Examples\<close>

text \<open>Concrete caches and micro-batches on which the properties are exercised.\<close>

definition cell_of :: "int \<Rightarrow> int set \<Rightarrow> llama_kv_cell" where
  "cell_of p s = new_cell\<lparr>c_pos := p, c_seq_id := s\<rparr>"

definition cache_of :: "bool \<Rightarrow> nat \<Rightarrow> llama_kv_cell list \<Rightarrow> llama_kv_cache" where
  "cache_of rc h cs = \<lparr>kv_has_shift = False, kv_do_defrag = False, kv_recurrent = rc, kv_v_trans = True, kv_can_shift = True,
     kv_head = h, kv_size = length cs, kv_used = count_if occupied cs, kv_n = 0, kv_cells = cs, kv_bufs = [], kv_k_l = [], kv_v_l = []\<rparr>"

definition one_token :: "int \<Rightarrow> int \<Rightarrow> llama_ubatch" where
  "one_token p k = \<lparr>ub_equal_seqs = True, ub_n_tokens = 1, ub_n_seq_tokens = 1, ub_n_seqs = 1, ub_token = Some [7], ub_embd = None,
     ub_pos = Some [p], ub_n_seq_id = [1], ub_seq_id = [Some [k]], ub_output = [1]\<rparr>"

end
