(* ===== verification/KvClient.thy ===== *)
theory KvClient
  imports KvCache
begin

text \<open>
  The edges of the key/value cache: its construction (\<open>llama_kv_cache_init\<close>), the debug view
  (\<open>llama_kv_cache_view_update\<close>), and the contract its clients use to shift a context, as an
  interface with its implementation by the cache of a transformer.
\<close>

section \<open>Construction\<close>

text \<open>What the sizes depend on. Buffer types are numbers; \<open>kp_buft\<close> is the buffer type of the
  device of a layer, \<open>kp_ctx\<close> says for which buffer types a ggml context can be created, and
  \<open>kp_alloc\<close> is the size of the buffer the backend allocates for the tensors of a context.\<close>

record kv_params =
  kp_recurrent  :: bool
  kp_deepseek2  :: bool
  kp_mllama     :: bool
  kp_flash_attn :: bool
  kp_offload    :: bool
  kp_type_k     :: nat
  kp_type_v     :: nat
  kp_f32        :: nat
  kp_cpu_buft   :: nat
  kp_buft       :: "nat \<Rightarrow> nat"
  kp_ctx        :: "nat \<Rightarrow> bool"
  kp_alloc      :: "nat \<Rightarrow> kv_tensor list \<Rightarrow> nat option"

definition layer_tensors :: "llama_hparams \<Rightarrow> kv_params \<Rightarrow> nat \<Rightarrow> nat \<Rightarrow> (kv_tensor \<times> kv_tensor) res" where
  "layer_tensors hp kp sz i =
     rbind (n_embd_k_gqa hp i) (\<lambda>gk. rbind (n_embd_v_gqa hp i) (\<lambda>gv.
     let ek = u32 (gk + n_embd_k_s hp); ev = u32 (gv + n_embd_v_s hp) in
     if kp_mllama kp \<and> cross_attention_layers hp i
     then rbind (n_head_kv hp i) (\<lambda>hk.
       Inr (\<lparr>kt_type = kp_f32 kp, kt_ne = [hp_n_embd_head_k hp, 6404, hk]\<rparr>,
            \<lparr>kt_type = kp_f32 kp, kt_ne = [hp_n_embd_head_v hp, 6404, hk]\<rparr>))
     else Inr (\<lparr>kt_type = kp_type_k kp, kt_ne = [u32 (ek * sz)]\<rparr>,
               \<lparr>kt_type = kp_type_v kp, kt_ne = [u32 (ev * sz)]\<rparr>)))"

definition layer_buft :: "kv_params \<Rightarrow> nat \<Rightarrow> nat" where
  "layer_buft kp i = (if kp_offload kp then kp_buft kp i else kp_cpu_buft kp)"

text \<open>One layer: the context of its buffer type (created on first use), its two tensors. The flag is
  false after \<open>return false\<close>; \<open>ctx_map\<close> is the association of buffer types to the tensors created for them.\<close>

type_synonym ctx_map = "(nat \<times> kv_tensor list) list"

fun ctx_add :: "nat \<Rightarrow> kv_tensor list \<Rightarrow> ctx_map \<Rightarrow> ctx_map" where
  "ctx_add b ts [] = [(b, ts)]"
| "ctx_add b ts ((b', us) # m) =
     (if b = b' then (b, us @ ts) # m else if b < b' then (b, ts) # (b', us) # m else (b', us) # ctx_add b ts m)"

definition init_layer :: "llama_hparams \<Rightarrow> kv_params \<Rightarrow> nat \<Rightarrow> nat \<Rightarrow> (bool \<times> ctx_map \<times> llama_kv_cache) \<Rightarrow> (bool \<times> ctx_map \<times> llama_kv_cache) res" where
  "init_layer hp kp sz i st = (case st of (ok, m, c) \<Rightarrow>
     if \<not> ok then Inr st
     else if \<not> kp_ctx kp (layer_buft kp i) then Inr (False, m, c)
     else rbind (layer_tensors hp kp sz i) (\<lambda>(k, v).
          Inr (True, ctx_add (layer_buft kp i) [k, v] m, c\<lparr>kv_k_l := kv_k_l c @ [k], kv_v_l := kv_v_l c @ [v]\<rparr>)))"

fun init_bufs :: "kv_params \<Rightarrow> ctx_map \<Rightarrow> llama_kv_cache \<Rightarrow> bool \<times> llama_kv_cache" where
  "init_bufs kp [] c = (True, c)"
| "init_bufs kp ((b, ts) # m) c =
     (case kp_alloc kp b ts of None \<Rightarrow> (False, c)
      | Some sz \<Rightarrow> init_bufs kp m (c\<lparr>kv_bufs := kv_bufs c @ [replicate sz 0]\<rparr>))"

definition llama_kv_cache_init :: "llama_hparams \<Rightarrow> kv_params \<Rightarrow> nat \<Rightarrow> llama_kv_cache \<Rightarrow> (bool \<times> llama_kv_cache) res" where
  "llama_kv_cache_init hp kp sz c =
    (let c = c\<lparr>kv_has_shift := False, kv_recurrent := kp_recurrent kp,
               kv_v_trans := \<not> kp_recurrent kp \<and> \<not> kp_flash_attn kp,
               kv_can_shift := \<not> kp_recurrent kp \<and> \<not> kp_deepseek2 kp,
               kv_head := 0, kv_size := sz, kv_used := 0, kv_cells := replicate sz new_cell\<rparr> in
     rbind (rfold (init_layer hp kp sz) [0..<hp_n_layer hp] (True, [], c)) (\<lambda>(ok, m, c).
     Inr (if ok then init_bufs kp m c else (False, c))))"

text \<open>Everything but the tensors and buffers is set before the first layer.\<close>

definition same_table :: "llama_kv_cache \<Rightarrow> llama_kv_cache \<Rightarrow> bool" where
  "same_table c d \<longleftrightarrow> kv_cells d = kv_cells c \<and> kv_size d = kv_size c \<and> kv_head d = kv_head c \<and> kv_used d = kv_used c \<and>
     kv_recurrent d = kv_recurrent c \<and> kv_can_shift d = kv_can_shift c \<and> kv_has_shift d = kv_has_shift c \<and> kv_v_trans d = kv_v_trans c"

lemma init_bufs_table: "same_table c (snd (init_bufs kp m c)) \<and>
    kv_k_l (snd (init_bufs kp m c)) = kv_k_l c \<and> kv_v_l (snd (init_bufs kp m c)) = kv_v_l c"
  by (induction kp m c rule: init_bufs.induct) (auto simp: same_table_def split: option.split)

lemma init_bufs_total:
  "(\<And>b ts. b \<in> fst ` set m \<Longrightarrow> kp_alloc kp b ts \<noteq> None) \<Longrightarrow> fst (init_bufs kp m c)"
  by (induction kp m c rule: init_bufs.induct) (auto split: option.split)

lemma layer_tensors_total: "hparams_ok hp \<Longrightarrow> i < hp_n_layer hp \<Longrightarrow> \<exists>k v. layer_tensors hp kp sz i = Inr (k, v)"
  by (simp add: layer_tensors_def n_embd_gqa_cases n_head_kv_def hparams_ok_def layer_nth_ok Let_def)

definition tensors_upto :: "llama_hparams \<Rightarrow> kv_params \<Rightarrow> nat \<Rightarrow> nat \<Rightarrow> llama_kv_cache \<Rightarrow> llama_kv_cache \<Rightarrow> bool" where
  "tensors_upto hp kp sz n c0 c \<longleftrightarrow> same_table c0 c \<and>
     (\<exists>kvs. length kvs = n \<and> (\<forall>j < n. layer_tensors hp kp sz j = Inr (kvs ! j)) \<and>
        kv_k_l c = kv_k_l c0 @ map fst kvs \<and> kv_v_l c = kv_v_l c0 @ map snd kvs)"

lemma tensors_upto_step:
  assumes "tensors_upto hp kp sz i c0 c" "layer_tensors hp kp sz i = Inr (k, v)"
  shows "tensors_upto hp kp sz (Suc i) c0 (c\<lparr>kv_k_l := kv_k_l c @ [k], kv_v_l := kv_v_l c @ [v]\<rparr>)"
proof -
  from assms(1) obtain kvs where kvs: "length kvs = i" "\<forall>j < i. layer_tensors hp kp sz j = Inr (kvs ! j)"
      "kv_k_l c = kv_k_l c0 @ map fst kvs" "kv_v_l c = kv_v_l c0 @ map snd kvs"
    by (auto simp: tensors_upto_def)
  show ?thesis unfolding tensors_upto_def
    using assms kvs by (intro conjI exI [of _ "kvs @ [(k, v)]"]) (auto simp: tensors_upto_def same_table_def nth_append less_Suc_eq)
qed

lemma init_layers_ok:
  assumes ok: "hparams_ok hp" and cx: "\<forall>i < hp_n_layer hp. kp_ctx kp (layer_buft kp i)"
  shows "\<exists>m c'. rfold (init_layer hp kp sz) [0..<hp_n_layer hp] (True, [], c) = Inr (True, m, c') \<and>
    tensors_upto hp kp sz (hp_n_layer hp) c c'"
proof -
  let ?P = "\<lambda>i st. \<exists>m c'. st = (True, m, c') \<and> tensors_upto hp kp sz i c c'"
  have "\<exists>t. rfold (init_layer hp kp sz) [0..<hp_n_layer hp] (True, [], c) = Inr t \<and> ?P (hp_n_layer hp) t"
  proof (rule rfold_upt_inv [where P = ?P])
    show "?P 0 (True, [], c)" by (auto simp: tensors_upto_def same_table_def)
  next
    fix i and st :: "bool \<times> ctx_map \<times> llama_kv_cache" assume i: "i < hp_n_layer hp" and "?P i st"
    then obtain m c' where st: "st = (True, m, c')" "tensors_upto hp kp sz i c c'" by blast
    obtain k v where kv: "layer_tensors hp kp sz i = Inr (k, v)" using layer_tensors_total [OF ok i] by blast
    show "\<exists>t. init_layer hp kp sz i st = Inr t \<and> ?P (Suc i) t"
      using st(1) kv cx i tensors_upto_step [OF st(2) kv] by (simp add: init_layer_def)
  qed
  then show ?thesis by auto
qed

lemma kv_init_ok:
  assumes ok: "hparams_ok hp" and cx: "\<forall>i < hp_n_layer hp. kp_ctx kp (layer_buft kp i)"
    and al: "\<forall>b ts. kp_alloc kp b ts \<noteq> None" and e: "kv_k_l c = []" "kv_v_l c = []"
  shows "\<exists>c'. llama_kv_cache_init hp kp sz c = Inr (True, c') \<and> (\<not> kp_recurrent kp \<longrightarrow> kv_fresh sz c') \<and>
    length (kv_k_l c') = hp_n_layer hp \<and> length (kv_v_l c') = hp_n_layer hp \<and>
    (\<forall>i < hp_n_layer hp. layer_tensors hp kp sz i = Inr (kv_k_l c' ! i, kv_v_l c' ! i))"
proof -
  let ?c = "c\<lparr>kv_has_shift := False, kv_recurrent := kp_recurrent kp,
               kv_v_trans := \<not> kp_recurrent kp \<and> \<not> kp_flash_attn kp,
               kv_can_shift := \<not> kp_recurrent kp \<and> \<not> kp_deepseek2 kp,
               kv_head := 0, kv_size := sz, kv_used := 0, kv_cells := replicate sz new_cell\<rparr>"
  obtain m c1 where m: "rfold (init_layer hp kp sz) [0..<hp_n_layer hp] (True, [], ?c) = Inr (True, m, c1)"
    "tensors_upto hp kp sz (hp_n_layer hp) ?c c1" using init_layers_ok [OF ok cx] by blast
  have t: "fst (init_bufs kp m c1)" by (rule init_bufs_total) (use al in blast)
  then obtain c2 where c2: "init_bufs kp m c1 = (True, c2)" by (metis prod.collapse)
  have f: "same_table c1 c2" "kv_k_l c2 = kv_k_l c1" "kv_v_l c2 = kv_v_l c1" using init_bufs_table [of c1 kp m] c2 by simp_all
  have "llama_kv_cache_init hp kp sz c = Inr (True, c2)"
    using m(1) c2 by (simp add: llama_kv_cache_init_def Let_def)
  then show ?thesis using m(2) f e
    by (intro exI [of _ c2]) (auto simp: tensors_upto_def same_table_def kv_fresh_def)
qed

section \<open>The debug view\<close>

record kv_view_rec =
  vw_n_cells            :: int
  vw_n_seq_max          :: int
  vw_token_count        :: int
  vw_used_cells         :: int
  vw_max_contiguous     :: int
  vw_max_contiguous_idx :: int
  vw_cells              :: "int list option"
  vw_cells_sequences    :: "int list option"

definition llama_kv_cache_view_init :: "llama_kv_cache \<Rightarrow> int \<Rightarrow> kv_view_rec" where
  "llama_kv_cache_view_init c m =
     \<lparr>vw_n_cells = 0, vw_n_seq_max = m, vw_token_count = 0, vw_used_cells = int (llama_get_kv_cache_used_cells c),
      vw_max_contiguous = 0, vw_max_contiguous_idx = -1, vw_cells = None, vw_cells_sequences = None\<rparr>"

definition llama_kv_cache_view_free :: "kv_view_rec \<Rightarrow> kv_view_rec" where
  "llama_kv_cache_view_free v = v\<lparr>vw_cells := None, vw_cells_sequences := None\<rparr>"

text \<open>The scalars of the loop: the open run of empty cells, the longest closed run, the counters.\<close>

record contig =
  cg_cur    :: int
  cg_max    :: nat
  cg_idx    :: int
  cg_used   :: int
  cg_tokens :: int

definition contig_step :: "int \<Rightarrow> nat \<Rightarrow> llama_kv_cell \<Rightarrow> contig \<Rightarrow> contig" where
  "contig_step m i x g =
    (let sz = card (c_seq_id x);
         g = g\<lparr>cg_tokens := cg_tokens g + int sz\<rparr>;
         g = (if sz > 0
              then (if cg_cur g \<ge> 0 \<and> i - nat (cg_cur g) > cg_max g
                    then g\<lparr>cg_max := i - nat (cg_cur g), cg_idx := cg_cur g\<rparr> else g)\<lparr>cg_cur := -1\<rparr>
              else if cg_cur g < 0 then g\<lparr>cg_cur := int i\<rparr> else g)
     in if min (int sz) m > 0 then g\<lparr>cg_used := cg_used g + 1\<rparr> else g)"

definition contig_end :: "nat \<Rightarrow> contig \<Rightarrow> contig" where
  "contig_end n g = (if cg_cur g \<ge> 0 \<and> n - nat (cg_cur g) > cg_max g
     then g\<lparr>cg_idx := cg_cur g, cg_max := n - nat (cg_cur g)\<rparr> else g)"

definition contig_scan :: "int \<Rightarrow> llama_kv_cell list \<Rightarrow> nat \<Rightarrow> contig" where
  "contig_scan m cs n = fold (\<lambda>i. contig_step m i (cs ! i)) [0..<n]
     \<lparr>cg_cur = -1, cg_max = 0, cg_idx = -1, cg_used = 0, cg_tokens = 0\<rparr>"

text \<open>The row of sequence ids of a cell: the first ones in order, padded with \<open>-1\<close>.\<close>

definition view_row :: "nat \<Rightarrow> llama_kv_cell \<Rightarrow> int list" where
  "view_row m x = (let l = take m (sorted_list_of_set (c_seq_id x)) in l @ replicate (m - length l) (-1))"

definition view_overwrite :: "'a list \<Rightarrow> 'a list \<Rightarrow> 'a list" where
  "view_overwrite new old = new @ drop (length new) old"

text \<open>\<open>llama_kv_cache_view_update\<close>. A successful \<open>realloc\<close> is assumed; the bytes it adds are all
  written by the loop. The loop writes the rows of the first \<open>size\<close> cells.\<close>

definition llama_kv_cache_view_update :: "kv_view_rec \<Rightarrow> llama_kv_cache \<Rightarrow> kv_view_rec res" where
  "llama_kv_cache_view_update v c =
    (let grow = (vw_n_cells v < int (kv_size c) \<or> vw_cells v = None);
         n = kv_size c; m = nat (vw_n_seq_max v);
         v = (if grow then v\<lparr>vw_n_cells := int n, vw_cells := Some (vec_resize n 0 (case vw_cells v of None \<Rightarrow> [] | Some l \<Rightarrow> l)),
                vw_cells_sequences := Some (vec_resize (m * n) 0 (case vw_cells_sequences v of None \<Rightarrow> [] | Some l \<Rightarrow> l))\<rparr> else v)
     in rbind (rguard (0 \<le> vw_n_seq_max v) GgmlAssert) (\<lambda>_.
        rbind (deref (vw_cells v)) (\<lambda>cl. rbind (deref (vw_cells_sequences v)) (\<lambda>sq.
        rbind (rfold (\<lambda>i ps. rbind (i32_add (c_pos (kv_cells c ! i)) (c_delta (kv_cells c ! i))) (\<lambda>p. Inr (ps @ [p]))) [0..<n] []) (\<lambda>ps.
        let g = contig_end (length (kv_cells c)) (contig_scan (vw_n_seq_max v) (kv_cells c) n) in
        Inr (v\<lparr>vw_cells := Some (view_overwrite ps cl),
               vw_cells_sequences := Some (view_overwrite (concat (map (\<lambda>i. view_row m (kv_cells c ! i)) [0..<n])) sq),
               vw_max_contiguous := int (cg_max g), vw_max_contiguous_idx := cg_idx g,
               vw_token_count := cg_tokens g, vw_used_cells := cg_used g\<rparr>))))))"

definition empty_run :: "llama_kv_cell list \<Rightarrow> nat \<Rightarrow> nat \<Rightarrow> bool" where
  "empty_run cs a b \<longleftrightarrow> a \<le> b \<and> b \<le> length cs \<and> (\<forall>j. a \<le> j \<and> j < b \<longrightarrow> is_empty_cell (cs ! j))"

definition contig_inv :: "llama_kv_cell list \<Rightarrow> nat \<Rightarrow> contig \<Rightarrow> bool" where
  "contig_inv cs i g \<longleftrightarrow>
     (cg_cur g = -1 \<or> 0 \<le> cg_cur g \<and> nat (cg_cur g) < i \<and> empty_run cs (nat (cg_cur g)) i) \<and>
     (cg_max g = 0 \<or> 0 \<le> cg_idx g \<and> empty_run cs (nat (cg_idx g)) (nat (cg_idx g) + cg_max g)) \<and>
     (\<forall>a b. empty_run cs a b \<and> a < b \<and> b \<le> i \<longrightarrow>
        (if b = i then 0 \<le> cg_cur g \<and> nat (cg_cur g) \<le> a
         else b - a \<le> cg_max g \<or> 0 \<le> cg_cur g \<and> nat (cg_cur g) \<le> a))"

lemma empty_run_Suc: "i < length cs \<Longrightarrow> is_empty_cell (cs ! i) \<Longrightarrow> empty_run cs a i \<Longrightarrow> empty_run cs a (Suc i)"
  by (auto simp: empty_run_def less_Suc_eq)

lemma empty_run_cut: "empty_run cs a (Suc i) \<Longrightarrow> a \<le> i \<Longrightarrow> empty_run cs a i \<and> is_empty_cell (cs ! i)"
  by (auto simp: empty_run_def)

lemma contig_runD: "contig_inv cs i g \<Longrightarrow> empty_run cs a b \<Longrightarrow> a < b \<Longrightarrow> b \<le> i \<Longrightarrow>
    if b = i then 0 \<le> cg_cur g \<and> nat (cg_cur g) \<le> a else b - a \<le> cg_max g \<or> 0 \<le> cg_cur g \<and> nat (cg_cur g) \<le> a"
  unfolding contig_inv_def by blast

lemma contig_curD: "contig_inv cs i g \<Longrightarrow> cg_cur g < 0 \<or> nat (cg_cur g) < i"
  unfolding contig_inv_def by auto

lemma contig_step_cases:
  "cg_cur (contig_step m i x g) = (if card (c_seq_id x) > 0 then -1 else if cg_cur g < 0 then int i else cg_cur g)"
  "cg_max (contig_step m i x g) =
     (if card (c_seq_id x) > 0 \<and> cg_cur g \<ge> 0 \<and> i - nat (cg_cur g) > cg_max g then i - nat (cg_cur g) else cg_max g)"
  "cg_idx (contig_step m i x g) =
     (if card (c_seq_id x) > 0 \<and> cg_cur g \<ge> 0 \<and> i - nat (cg_cur g) > cg_max g then cg_cur g else cg_idx g)"
  "cg_tokens (contig_step m i x g) = cg_tokens g + int (card (c_seq_id x))"
  "cg_used (contig_step m i x g) = cg_used g + (if card (c_seq_id x) > 0 \<and> m > 0 then 1 else 0)"
  by (simp_all add: contig_step_def Let_def min_def)

lemma contig_invI:
  assumes "cg_cur g = -1 \<or> 0 \<le> cg_cur g \<and> nat (cg_cur g) < i \<and> empty_run cs (nat (cg_cur g)) i"
    and "cg_max g = 0 \<or> 0 \<le> cg_idx g \<and> empty_run cs (nat (cg_idx g)) (nat (cg_idx g) + cg_max g)"
    and "\<And>a b. empty_run cs a b \<Longrightarrow> a < b \<Longrightarrow> b \<le> i \<Longrightarrow>
        if b = i then 0 \<le> cg_cur g \<and> nat (cg_cur g) \<le> a
        else b - a \<le> cg_max g \<or> 0 \<le> cg_cur g \<and> nat (cg_cur g) \<le> a"
  shows "contig_inv cs i g"
  unfolding contig_inv_def using assms by blast

lemma contig_step_inv:
  assumes inv: "contig_inv cs i g" and i: "i < length cs" and fin: "finite (c_seq_id (cs ! i))"
  shows "contig_inv cs (Suc i) (contig_step m i (cs ! i) g)"
proof (cases "is_empty_cell (cs ! i)")
  case True
  then have c: "card (c_seq_id (cs ! i)) = 0" by (simp add: is_empty_cell_def)
  have new: "empty_run cs i (Suc i)" using True i by (auto simp: empty_run_def less_Suc_eq)
  show ?thesis
  proof (rule contig_invI)
    fix a b assume ab: "empty_run cs a b" "a < b" "b \<le> Suc i"
    show "if b = Suc i then 0 \<le> cg_cur (contig_step m i (cs ! i) g) \<and> nat (cg_cur (contig_step m i (cs ! i) g)) \<le> a
      else b - a \<le> cg_max (contig_step m i (cs ! i) g) \<or>
        0 \<le> cg_cur (contig_step m i (cs ! i) g) \<and> nat (cg_cur (contig_step m i (cs ! i) g)) \<le> a"
    proof (cases "b = Suc i")
      case True
      then show ?thesis using ab empty_run_cut [of cs a i] contig_runD [OF inv, of a i] contig_curD [OF inv]
        by (cases "a = i") (auto simp: contig_step_cases c)
    next
      case False
      then show ?thesis using contig_runD [OF inv, of a b] ab by (auto simp: contig_step_cases c split: if_splits)
    qed
  next
    show "cg_cur (contig_step m i (cs ! i) g) = - 1 \<or> 0 \<le> cg_cur (contig_step m i (cs ! i) g) \<and>
        nat (cg_cur (contig_step m i (cs ! i) g)) < Suc i \<and> empty_run cs (nat (cg_cur (contig_step m i (cs ! i) g))) (Suc i)"
      using inv new empty_run_Suc [OF i True] by (auto simp: contig_step_cases c contig_inv_def)
  qed (use inv in \<open>auto simp: contig_step_cases c contig_inv_def\<close>)
next
  case False
  then have c: "card (c_seq_id (cs ! i)) > 0" using fin by (simp add: is_empty_cell_def card_gt_0_iff)
  show ?thesis
  proof (rule contig_invI)
    fix a b assume ab: "empty_run cs a b" "a < b" "b \<le> Suc i"
    have b: "b \<le> i" using ab False by (auto simp: empty_run_def le_Suc_eq)
    then show "if b = Suc i then 0 \<le> cg_cur (contig_step m i (cs ! i) g) \<and> nat (cg_cur (contig_step m i (cs ! i) g)) \<le> a
      else b - a \<le> cg_max (contig_step m i (cs ! i) g) \<or>
        0 \<le> cg_cur (contig_step m i (cs ! i) g) \<and> nat (cg_cur (contig_step m i (cs ! i) g)) \<le> a"
      using contig_runD [OF inv ab(1,2) b] c by (auto simp: contig_step_cases split: if_splits)
  qed (use inv c in \<open>auto simp: contig_step_cases contig_inv_def\<close>)
qed

lemma contig_scan_inv:
  assumes "n \<le> length cs" "\<forall>x \<in> set cs. finite (c_seq_id x)"
  shows "contig_inv cs n (contig_scan m cs n) \<and>
    cg_tokens (contig_scan m cs n) = int (\<Sum>i<n. card (c_seq_id (cs ! i))) \<and>
    cg_used (contig_scan m cs n) = (if m > 0 then int (count_if occupied (take n cs)) else 0)"
  using assms
proof (induction n)
  case 0
  then show ?case by (auto simp: contig_scan_def contig_inv_def empty_run_def)
next
  case (Suc n)
  have st: "contig_scan m cs (Suc n) = contig_step m n (cs ! n) (contig_scan m cs n)" by (simp add: contig_scan_def)
  have fin: "finite (c_seq_id (cs ! n))" using Suc.prems by simp
  then have "(card (c_seq_id (cs ! n)) > 0) = occupied (cs ! n)" by (auto simp: is_empty_cell_def card_gt_0_iff)
  with Suc contig_step_inv [OF _ _ fin, of "contig_scan m cs n" m] show ?case
    by (simp add: st contig_step_cases take_Suc_conv_app_nth)
qed

lemma contig_end_longest:
  assumes inv: "contig_inv cs (length cs) g" and "g' = contig_end (length cs) g"
  shows "(\<forall>a b. empty_run cs a b \<longrightarrow> b - a \<le> cg_max g') \<and>
    (cg_max g' = 0 \<or> 0 \<le> cg_idx g' \<and> empty_run cs (nat (cg_idx g')) (nat (cg_idx g') + cg_max g'))"
proof -
  have "b - a \<le> cg_max g'" if ab: "empty_run cs a b" for a b
  proof (cases "a < b")
    case True
    have "b \<le> length cs" using ab by (simp add: empty_run_def)
    with inv ab True have "b - a \<le> cg_max g \<or> 0 \<le> cg_cur g \<and> nat (cg_cur g) \<le> a"
      using contig_runD [OF inv ab] by (auto split: if_splits)
    with \<open>b \<le> length cs\<close> show ?thesis by (auto simp: assms(2) contig_end_def)
  qed simp
  with inv show ?thesis by (auto simp: assms(2) contig_end_def contig_inv_def)
qed

lemma view_update_ok:
  assumes wf: "kv_wf c" and m: "0 < vw_n_seq_max v" and d: "\<forall>x \<in> set (kv_cells c). i32_ok (c_pos x + c_delta x)"
    and al: "vw_cells v \<noteq> None \<longrightarrow> vw_cells_sequences v \<noteq> None"
  shows "\<exists>v' g. llama_kv_cache_view_update v c = Inr v' \<and>
    g = contig_end (length (kv_cells c)) (contig_scan (vw_n_seq_max v) (kv_cells c) (kv_size c)) \<and>
    vw_used_cells v' = int (kv_used c) \<and> vw_token_count v' = int (llama_get_kv_cache_token_count c) \<and>
    vw_max_contiguous v' = int (cg_max g) \<and> vw_max_contiguous_idx v' = cg_idx g"
proof -
  let ?n = "kv_size c" and ?cs = "kv_cells c"
  have len: "length ?cs = ?n" using wf by (simp add: kv_wf_def)
  have fin: "\<forall>x \<in> set ?cs. finite (c_seq_id x)" using wf by (simp add: kv_wf_def cell_ok_def)
  have "\<exists>t. rfold (\<lambda>i ps. rbind (i32_add (c_pos (?cs ! i)) (c_delta (?cs ! i))) (\<lambda>p. Inr (ps @ [p]))) [0..<?n] [] = Inr t \<and> True"
    by (rule rfold_total) (use d len in \<open>auto simp: i32_add_def\<close>)
  moreover have "fold (\<lambda>i r. r + card (c_seq_id (?cs ! i))) [0..<n] 0 = (\<Sum>i<n. card (c_seq_id (?cs ! i)))" for n
    by (induction n) simp_all
  ultimately show ?thesis
    using contig_scan_inv [of ?n ?cs "vw_n_seq_max v"] len fin m al wf
    by (auto simp: llama_kv_cache_view_update_def Let_def deref_def contig_end_def llama_get_kv_cache_token_count_def kv_wf_def
        res_simps split: option.splits)
qed

section \<open>Shifting a context\<close>

text \<open>What a client of the cache relies on when it drops the middle of a sequence: the removal of a
  range and the addition to a range, as operations on the triples (sequence, position, cell).\<close>

locale seq_cache =
  fixes inv :: "'s \<Rightarrow> bool"
    and view :: "'s \<Rightarrow> (int \<times> int \<times> nat) set"
    and rm :: "'s \<Rightarrow> int \<Rightarrow> int \<Rightarrow> int \<Rightarrow> (bool \<times> 's) res"
    and add :: "'s \<Rightarrow> int \<Rightarrow> int \<Rightarrow> int \<Rightarrow> int \<Rightarrow> 's res"
    and fits :: "'s \<Rightarrow> int \<Rightarrow> int \<Rightarrow> bool"
  assumes rm_law: "inv s \<Longrightarrow> 0 \<le> k \<Longrightarrow> 0 \<le> p0 \<Longrightarrow> 0 \<le> p1 \<Longrightarrow>
      \<exists>s'. rm s k p0 p1 = Inr (True, s') \<and> inv s' \<and> (\<forall>d. fits s k d \<longrightarrow> fits s' k d) \<and>
        view s' = {(k', p, i) \<in> view s. \<not> (k' = k \<and> p0 \<le> p \<and> p < p1)}"
    and add_law: "inv s \<Longrightarrow> fits s k d \<Longrightarrow> 0 \<le> p0 \<Longrightarrow> 0 \<le> p1 \<Longrightarrow>
      \<exists>s'. add s k p0 p1 d = Inr s' \<and> inv s' \<and>
        view s' = {(k', p', i). \<exists>p. (k', p, i) \<in> view s \<and>
          (if (k, p, i) \<in> view s \<and> p0 \<le> p \<and> p < p1 then p' = p + d \<and> 0 \<le> p' else p' = p)}"
    and view_fun: "inv s \<Longrightarrow> (k, p, i) \<in> view s \<Longrightarrow> (k', p', i) \<in> view s \<Longrightarrow> p' = p"
begin

definition shift_ctx :: "'s \<Rightarrow> int \<Rightarrow> int \<Rightarrow> int \<Rightarrow> int \<Rightarrow> 's res" where
  "shift_ctx s k keep discard len =
     rbind (rm s k keep (keep + discard)) (\<lambda>(_, s). add s k (keep + discard) len (- discard))"

lemma shift_ctx_ok:
  assumes s: "inv s" "0 \<le> k" "fits s k (- discard)" "0 \<le> keep" "0 \<le> discard" "keep + discard \<le> len"
    and pos: "{p. \<exists>i. (k, p, i) \<in> view s} = {0..<len}"
  shows "\<exists>s'. shift_ctx s k keep discard len = Inr s' \<and> inv s' \<and>
    {p. \<exists>i. (k, p, i) \<in> view s'} = {0..<len - discard} \<and>
    (\<forall>p i. (k, p, i) \<in> view s' \<longleftrightarrow> (k, if p < keep then p else p + discard, i) \<in> view s) \<and>
    (\<forall>k' p i. (\<forall>q. (k, q, i) \<notin> view s) \<longrightarrow> (k', p, i) \<in> view s' \<longleftrightarrow> (k', p, i) \<in> view s)"
proof -
  obtain s1 where s1: "rm s k keep (keep + discard) = Inr (True, s1)" "inv s1" "fits s1 k (- discard)"
    "view s1 = {(k', p, i) \<in> view s. \<not> (k' = k \<and> keep \<le> p \<and> p < keep + discard)}"
    using rm_law [of s k keep "keep + discard"] s by auto
  obtain s2 where s2: "add s1 k (keep + discard) len (- discard) = Inr s2" "inv s2"
    "view s2 = {(k', p', i). \<exists>p. (k', p, i) \<in> view s1 \<and>
       (if (k, p, i) \<in> view s1 \<and> keep + discard \<le> p \<and> p < len then p' = p + - discard \<and> 0 \<le> p' else p' = p)}"
    using add_law [OF s1(2,3), of "keep + discard" len] s by auto
  have rng: "0 \<le> p \<and> p < len" if "(k, p, i) \<in> view s" for p i using pos that by auto
  have v: "(k, p, i) \<in> view s2 \<longleftrightarrow> (k, if p < keep then p else p + discard, i) \<in> view s" for p i
  proof
    assume "(k, p, i) \<in> view s2"
    then obtain q where q: "(k, q, i) \<in> view s" "\<not> (keep \<le> q \<and> q < keep + discard)"
      "if keep + discard \<le> q \<and> q < len then p = q - discard else p = q"
      unfolding s2(3) s1(4) by (auto split: if_splits)
    with rng [OF q(1)] s show "(k, if p < keep then p else p + discard, i) \<in> view s" by (auto split: if_splits)
  next
    assume v: "(k, if p < keep then p else p + discard, i) \<in> view s"
    show "(k, p, i) \<in> view s2"
    proof (cases "p < keep")
      case True
      with v s have "(k, p, i) \<in> view s1" "\<not> keep + discard \<le> p" by (auto simp: s1(4))
      then show ?thesis unfolding s2(3) by (intro CollectI case_prodI exI [of _ p]) simp
    next
      case False
      then have "(k, p + discard, i) \<in> view s1" "keep + discard \<le> p + discard" "p + discard < len"
        using v rng [of "p + discard" i] s by (auto simp: s1(4))
      with False s show ?thesis unfolding s2(3) by (intro CollectI case_prodI exI [of _ "p + discard"]) simp
    qed
  qed
  have "{p. \<exists>i. (k, p, i) \<in> view s2} = {0..<len - discard}"
  proof -
    have iff: "(\<exists>i. (k, q, i) \<in> view s) \<longleftrightarrow> 0 \<le> q \<and> q < len" for q using pos by (auto simp: set_eq_iff)
    have "(\<exists>i. (k, p, i) \<in> view s2) \<longleftrightarrow> 0 \<le> p \<and> p < len - discard" for p
      using s iff [of "if p < keep then p else p + discard"] by (auto simp: v)
    then show ?thesis by auto
  qed
  moreover have "(k', p, i) \<in> view s2 \<longleftrightarrow> (k', p, i) \<in> view s" if "\<forall>q. (k, q, i) \<notin> view s" for k' p i
    using that by (auto simp: s2(3) s1(4))
  ultimately show ?thesis using s1(1) s2(1,2) v by (auto simp: shift_ctx_def)
qed

end

definition seq_fits :: "llama_kv_cache \<Rightarrow> int \<Rightarrow> int \<Rightarrow> bool" where
  "seq_fits c k d \<longleftrightarrow> (\<forall>x \<in> set (kv_cells c). k \<in> c_seq_id x \<longrightarrow> i32_ok (c_pos x + d) \<and> i32_ok (c_delta x + d))"

lemma kv_cache_rm_law:
  assumes "kv_wf c \<and> \<not> kv_recurrent c" "0 \<le> k" "0 \<le> p0" "0 \<le> p1"
  shows "\<exists>c'. llama_kv_cache_seq_rm c k p0 p1 = Inr (True, c') \<and> (kv_wf c' \<and> \<not> kv_recurrent c') \<and>
    (\<forall>d. seq_fits c k d \<longrightarrow> seq_fits c' k d) \<and>
    kv_view c' = {(k', p, i) \<in> kv_view c. \<not> (k' = k \<and> p0 \<le> p \<and> p < p1)}"
proof -
  let ?c = "seq_rm_loop c k (norm_p0 p0) (norm_p1 p1)"
  have n: "norm_p0 p0 = p0" "norm_p1 p1 = p1" using assms by (simp_all add: norm_p0_def norm_p1_def)
  note lp = seq_rm_loop_ok [of c p0 k p1]
  have "llama_kv_cache_seq_rm c k p0 p1 = Inr (True, ?c)" using assms(1) by (simp add: llama_kv_cache_seq_rm_def Let_def)
  moreover have "seq_fits ?c k d" if "seq_fits c k d" for d
    using that lp(2) assms by (auto simp: seq_fits_def rm_cell_cases Let_def n split: if_splits)
  ultimately show ?thesis using lp assms kv_view_rm [of c ?c k p0 p1] by (auto simp: n)
qed

lemma kv_cache_add_law:
  assumes "kv_wf c \<and> \<not> kv_recurrent c" "seq_fits c k d" "0 \<le> p0" "0 \<le> p1"
  shows "\<exists>c'. llama_kv_cache_seq_add c k p0 p1 d = Inr c' \<and> (kv_wf c' \<and> \<not> kv_recurrent c') \<and>
    kv_view c' = {(k', p', i). \<exists>p. (k', p, i) \<in> kv_view c \<and>
      (if (k, p, i) \<in> kv_view c \<and> p0 \<le> p \<and> p < p1 then p' = p + d \<and> 0 \<le> p' else p' = p)}"
proof -
  have n: "norm_p0 p0 = p0" "norm_p1 p1 = p1" using assms by (simp_all add: norm_p0_def norm_p1_def)
  show ?thesis
  proof (cases "p0 = p1")
    case True
    with n assms show ?thesis by (auto simp: llama_kv_cache_seq_add_def Let_def)
  next
    case False
    have "shift_fits c k (norm_p0 p0) (norm_p1 p1) d" using assms(2) by (auto simp: shift_fits_def seq_fits_def in_range_def)
    from seq_add_ok [OF _ _ this] assms False obtain c' where
      "llama_kv_cache_seq_add c k p0 p1 d = Inr c'" "kv_wf c'" "\<not> kv_recurrent c'" "kv_cells c' = map (add_cell k p0 p1 d) (kv_cells c)"
      by (auto simp: n)
    with kv_view_add [OF this(4)] show ?thesis by blast
  qed
qed

interpretation kvc: seq_cache "\<lambda>c. kv_wf c \<and> \<not> kv_recurrent c" kv_view llama_kv_cache_seq_rm llama_kv_cache_seq_add seq_fits
  by unfold_locales (rule kv_cache_rm_law kv_cache_add_law; assumption | auto simp: kv_view_def)+

section \<open>What a rollback does\<close>

text \<open>After a successful \<open>find_slot\<close> the restorer removes, from every sequence, the positions that
  lie between the two cell indices of the slot.\<close>

lemma restore_view:
  assumes wf: "kv_wf c'" and nr: "\<not> kv_recurrent c'" and si: "si_found si" "si_begin si < si_end si" and h: "kv_head c \<le> kv_size c'"
  shows "\<exists>c''. restorer_restore (restorer_save si (new_restorer c)) c' = Inr c'' \<and> kv_wf c'' \<and>
    kv_view c'' = {(k, p, i) \<in> kv_view c'. \<not> (int (si_begin si) \<le> p \<and> p < int (si_end si))}"
proof -
  let ?c = "c'\<lparr>kv_head := kv_head c, kv_n := kv_n c\<rparr>"
  have wf': "kv_wf ?c" "\<not> kv_recurrent ?c" using wf nr h by (simp_all add: kv_wf_def)
  have n: "norm_p0 (int (si_begin si)) = int (si_begin si)" "norm_p1 (int (si_end si)) = int (si_end si)"
    by (simp_all add: norm_p0_def norm_p1_def)
  have "kv_view ?c = kv_view c'" by (simp add: kv_view_def)
  with seq_rm_ok [OF wf', of "-1" "int (si_begin si)" "int (si_end si)"] nr si show ?thesis
    by (auto simp: restorer_restore_def restorer_save_def new_restorer_def Let_def n)
qed

section \<open>Properties\<close>

text \<open>C1: Finding a slot. On a well-formed cache of a transformer and a well-formed micro-batch
  \<open>llama_kv_cache_find_slot\<close> always returns. It finds a slot if and only if some window of
  \<open>n_tokens\<close> consecutive cells is free; then the head is the first cell of that window, every
  token is in its cell with its position and all its sequences, no other cell changed, and the
  cache is again well-formed. When it finds none, no cell changed.\<close>

theorem find_slot_correct:
  assumes "kv_wf c" and "\<not> kv_recurrent c" and "ubatch_ok ub"
  shows "\<exists>si c'. llama_kv_cache_find_slot c ub = Inr (si, c') \<and> kv_wf c' \<and> kv_size c' = kv_size c \<and>
    (si_found si \<longleftrightarrow> (\<exists>s. s + ub_n_tokens ub \<le> kv_size c \<and> free_run (kv_cells c) s (ub_n_tokens ub))) \<and>
    (si_found si \<longrightarrow> kv_head c' = si_begin si \<and> si_end si = si_begin si + ub_n_tokens ub \<and> si_end si \<le> kv_size c \<and>
       free_run (kv_cells c) (si_begin si) (ub_n_tokens ub) \<and>
       kv_view c' = kv_view c \<union> {(k, tok_pos ub j, si_begin si + j) | k j. j < ub_n_tokens ub \<and> k \<in> tok_seqs ub j}) \<and>
    (\<not> si_found si \<longrightarrow> kv_cells c' = kv_cells c)"
proof -
  obtain si c' where "llama_kv_cache_find_slot c ub = Inr (si, c')" "kv_wf c'" "kv_size c' = kv_size c"
    "if si_found si
     then si_end si = si_begin si + ub_n_tokens ub \<and> si_end si \<le> kv_size c \<and> kv_head c' = si_begin si \<and>
          free_run (kv_cells c) (si_begin si) (ub_n_tokens ub) \<and>
          kv_view c' = kv_view c \<union> {(k, tok_pos ub j, si_begin si + j) | k j. j < ub_n_tokens ub \<and> k \<in> tok_seqs ub j}
     else kv_cells c' = kv_cells c \<and> (\<forall>s. s + ub_n_tokens ub \<le> kv_size c \<longrightarrow> \<not> free_run (kv_cells c) s (ub_n_tokens ub))"
    using find_slot_ok [OF assms] by blast
  then show ?thesis by (intro exI [of _ si] exI [of _ c']) (auto split: if_splits)
qed

theorem find_slot_correct_witness:
  "\<exists>si c'. llama_kv_cache_find_slot (cache_of False 1 [cell_of 0 {0}, new_cell]) (one_token 1 0) = Inr (si, c') \<and>
     kv_wf c' \<and> si_found si"
proof -
  let ?c = "cache_of False 1 [cell_of 0 {0}, new_cell]" and ?u = "one_token 1 0"
  have h: "kv_wf ?c" "\<not> kv_recurrent ?c" "ubatch_ok ?u"
    by (simp_all add: kv_wf_def cache_of_def cell_of_def new_cell_def cell_ok_def INT32_MAX_def ubatch_ok_def one_token_def count_if_def)
  have "1 + ub_n_tokens ?u \<le> kv_size ?c \<and> free_run (kv_cells ?c) 1 (ub_n_tokens ?u)"
    by (simp add: cache_of_def one_token_def free_run_def new_cell_def)
  with find_slot_correct [OF h] show ?thesis by blast
qed

text \<open>C3: The invariant of the cache. Whatever sequence of operations a context performs on the cache
  of a transformer with fewer than \<open>2^30\<close> cells (\<open>clear\<close>, \<open>seq_rm\<close>, \<open>seq_cp\<close>, \<open>seq_keep\<close>,
  \<open>seq_add\<close>, \<open>seq_div\<close> by a positive divisor, \<open>defrag\<close>, \<open>find_slot\<close>, the head update after
  a micro-batch), the vector keeps its size, a cell has a position exactly when a sequence sees it,
  \<open>used\<close> is the number of occupied cells (no 32-bit counter wraps) and the head stays in range.\<close>

theorem kv_cache_invariant:
  assumes "kv_reachable n c" and "n < 2 ^ 30"
  shows "length (kv_cells c) = n \<and> kv_size c = n \<and> kv_head c \<le> n \<and> kv_used c = count_if occupied (kv_cells c) \<and>
    (\<forall>i < n. 0 \<le> c_pos (kv_cells c ! i) \<longleftrightarrow> occupied (kv_cells c ! i))"
  using kv_reachable_wf [OF assms] by (auto simp: kv_wf_def cell_ok_def is_empty_cell_def)

theorem kv_cache_invariant_witness:
  "kv_used (llama_kv_cache_seq_keep (cache_of False 0 [new_cell, new_cell]) 3) =
     count_if occupied (kv_cells (llama_kv_cache_seq_keep (cache_of False 0 [new_cell, new_cell]) 3))"
proof -
  have "kv_fresh 2 (cache_of False 0 [new_cell, new_cell])"
    by (simp add: kv_fresh_def cache_of_def count_if_def is_empty_cell_def new_cell_def numeral_2_eq_2)
  then have "kv_reachable 2 (llama_kv_cache_seq_keep (cache_of False 0 [new_cell, new_cell]) 3)"
    by (intro kv_reachable.step [OF kv_reachable.init kv_step.seq_keep])
  from kv_cache_invariant [OF this] show ?thesis by simp
qed

text \<open>C30: Removing a range. \<open>llama_kv_cache_seq_rm\<close> on the cache of a transformer succeeds and removes
  exactly the entries of the sequence (of every sequence, for a negative id) with a position in
  \<open>[p0, p1)\<close>, where a negative bound leaves that side open; the cache stays well-formed.\<close>

theorem seq_rm_removes:
  assumes "kv_wf c" and "\<not> kv_recurrent c"
  shows "\<exists>c'. llama_kv_cache_seq_rm c k p0 p1 = Inr (True, c') \<and> kv_wf c' \<and>
    kv_view c' = {(k', p, i) \<in> kv_view c. \<not> ((k < 0 \<or> k' = k) \<and> norm_p0 p0 \<le> p \<and> p < norm_p1 p1)}"
  using seq_rm_ok [OF assms] by blast

theorem seq_rm_removes_witness:
  "\<exists>c'. llama_kv_cache_seq_rm (cache_of False 0 [cell_of 0 {0, 1}, cell_of 1 {0}]) 0 1 (-1) = Inr (True, c') \<and> kv_wf c'"
  using seq_rm_removes [of "cache_of False 0 [cell_of 0 {0, 1}, cell_of 1 {0}]" 0 1 "-1"]
  by (auto simp: kv_wf_def cache_of_def cell_of_def new_cell_def cell_ok_def INT32_MAX_def)

text \<open>C31: Copying a sequence. \<open>llama_kv_cache_seq_cp\<close> on the cache of a transformer adds the destination
  sequence to exactly the cells of the source sequence in the range and takes nothing away: it
  shares the cells, no data moves.\<close>

theorem seq_cp_shares:
  assumes "kv_wf c" and "\<not> kv_recurrent c"
  shows "\<exists>c'. llama_kv_cache_seq_cp c src dst p0 p1 = Inr c' \<and> kv_wf c' \<and>
    kv_view c' = kv_view c \<union> {(dst, p, i) | p i. (src, p, i) \<in> kv_view c \<and> norm_p0 p0 \<le> p \<and> p < norm_p1 p1}"
  using seq_cp_ok [OF assms] by blast

theorem seq_cp_shares_witness:
  "\<exists>c'. llama_kv_cache_seq_cp (cache_of False 0 [cell_of 0 {0}, cell_of 1 {0}]) 0 1 (-1) 1 = Inr c' \<and> kv_wf c'"
  using seq_cp_shares [of "cache_of False 0 [cell_of 0 {0}, cell_of 1 {0}]" 0 1 "-1" 1]
  by (auto simp: kv_wf_def cache_of_def cell_of_def new_cell_def cell_ok_def INT32_MAX_def)

text \<open>C32: Keeping one sequence. \<open>llama_kv_cache_seq_keep\<close> leaves exactly the entries of that sequence,
  in the cells they were in.\<close>

theorem seq_keep_keeps:
  assumes "kv_wf c" and "\<not> kv_recurrent c"
  shows "kv_wf (llama_kv_cache_seq_keep c k) \<and> kv_view (llama_kv_cache_seq_keep c k) = {(k', p, i) \<in> kv_view c. k' = k}"
  using seq_keep_ok [OF assms] by blast

theorem seq_keep_keeps_witness:
  "kv_wf (llama_kv_cache_seq_keep (cache_of False 0 [cell_of 0 {0, 1}, cell_of 1 {0}]) 1)"
  using seq_keep_keeps [of "cache_of False 0 [cell_of 0 {0, 1}, cell_of 1 {0}]" 1]
  by (auto simp: kv_wf_def cache_of_def cell_of_def new_cell_def cell_ok_def INT32_MAX_def)

text \<open>C11: Context shift. When a sequence occupies the positions \<open>0..len-1\<close>, removing
  \<open>[keep, keep+discard)\<close> and adding \<open>-discard\<close> to \<open>[keep+discard, len)\<close>, as the runner does
  when the context is full, leaves it occupying \<open>0..len-discard-1\<close> without a gap, each remaining
  token in the cell it was in; cells the sequence does not see are not touched.\<close>

theorem context_shift_compacts:
  assumes "kv_wf c" and "\<not> kv_recurrent c" and "0 \<le> k" and "seq_fits c k (- discard)"
    and "0 \<le> keep" and "0 \<le> discard" and "keep + discard \<le> len"
    and "{p. \<exists>i. (k, p, i) \<in> kv_view c} = {0..<len}"
  shows "\<exists>c1 c2. llama_kv_cache_seq_rm c k keep (keep + discard) = Inr (True, c1) \<and>
    llama_kv_cache_seq_add c1 k (keep + discard) len (- discard) = Inr c2 \<and> kv_wf c2 \<and>
    {p. \<exists>i. (k, p, i) \<in> kv_view c2} = {0..<len - discard} \<and>
    (\<forall>p i. (k, p, i) \<in> kv_view c2 \<longleftrightarrow> (k, if p < keep then p else p + discard, i) \<in> kv_view c) \<and>
    (\<forall>k' p i. (\<forall>q. (k, q, i) \<notin> kv_view c) \<longrightarrow> (k', p, i) \<in> kv_view c2 \<longleftrightarrow> (k', p, i) \<in> kv_view c)"
proof -
  obtain c1 where "llama_kv_cache_seq_rm c k keep (keep + discard) = Inr (True, c1)"
    using seq_rm_ok [OF assms(1,2)] by blast
  then show ?thesis using kvc.shift_ctx_ok [of c k discard keep len] assms by (auto simp: kvc.shift_ctx_def)
qed

theorem context_shift_compacts_witness:
  "\<exists>c1 c2. llama_kv_cache_seq_rm (cache_of False 0 [cell_of 0 {0}, cell_of 1 {0}, cell_of 2 {0}]) 0 1 (1 + 1) = Inr (True, c1) \<and>
     llama_kv_cache_seq_add c1 0 (1 + 1) 3 (- 1) = Inr c2 \<and> {p. \<exists>i. (0, p, i) \<in> kv_view c2} = {0..<3 - 1}"
proof -
  let ?c = "cache_of False 0 [cell_of 0 {0}, cell_of 1 {0}, cell_of 2 {0}]"
  have h: "kv_wf ?c" "\<not> kv_recurrent ?c" "seq_fits ?c 0 (- 1)"
    by (auto simp: kv_wf_def cache_of_def cell_of_def new_cell_def cell_ok_def INT32_MAX_def seq_fits_def i32_ok_def)
  have "{p. \<exists>i. (0, p, i) \<in> kv_view ?c} = {0, 1, 2}"
    by (auto simp: kv_view_def cache_of_def cell_of_def new_cell_def less_Suc_eq)
  also have "\<dots> = {0..<3}" by auto
  finally show ?thesis using context_shift_compacts [OF h(1,2) _ h(3), of 1 3] by simp blast
qed

text \<open>C33: The occupied prefix. \<open>llama_kv_cache_cell_max\<close>, from which the attention window \<open>n\<close> of a
  step is computed, is the least bound on the indices of the occupied cells.\<close>

theorem cell_max_least_bound:
  assumes "kv_wf c"
  shows "(\<forall>k p i. (k, p, i) \<in> kv_view c \<longrightarrow> i < llama_kv_cache_cell_max c) \<and>
    (llama_kv_cache_cell_max c \<noteq> 0 \<longrightarrow> (\<exists>k p. (k, p, llama_kv_cache_cell_max c - 1) \<in> kv_view c))"
proof -
  have len: "length (kv_cells c) = kv_size c" using assms by (simp add: kv_wf_def)
  have bnd: "i < cell_max (kv_cells c) n" if "i < n" "n \<le> kv_size c" "occupied (kv_cells c ! i)" for i n
    using that len kv_wf_cell [OF assms] by (induction n) (auto simp: less_Suc_eq cell_ok_def is_empty_cell_def)
  have hit: "cell_max cs n = 0 \<or> cell_max cs n \<le> n \<and> occupied (cs ! (cell_max cs n - 1))" for cs n
    by (induction n) auto
  show ?thesis using bnd [of _ "kv_size c"] hit [of "kv_cells c" "kv_size c"] len
    by (fastforce simp: kv_view_def llama_kv_cache_cell_max_def is_empty_cell_def)
qed

theorem cell_max_least_bound_witness:
  "0 < llama_kv_cache_cell_max (cache_of False 0 [cell_of 0 {0}, new_cell])"
proof -
  have "kv_wf (cache_of False 0 [cell_of 0 {0}, new_cell])"
    by (simp add: kv_wf_def cache_of_def cell_of_def new_cell_def cell_ok_def INT32_MAX_def)
  moreover have "(0, 0, 0) \<in> kv_view (cache_of False 0 [cell_of 0 {0}, new_cell])"
    by (simp add: kv_view_def cache_of_def cell_of_def)
  ultimately show ?thesis using cell_max_least_bound by blast
qed

text \<open>C36: The debug view agrees with the cache. On a well-formed cache \<open>llama_kv_cache_view_update\<close>
  reports the number of used cells the cache itself counts (so its mismatch error is never logged),
  the token count, and as \<open>max_contiguous\<close> the length of the longest run of empty cells, with
  \<open>max_contiguous_idx\<close> the start of such a run.\<close>

theorem view_reports_longest_run:
  assumes "kv_wf c" and "0 < vw_n_seq_max v" and "\<forall>x \<in> set (kv_cells c). i32_ok (c_pos x + c_delta x)"
    and "vw_cells v \<noteq> None \<longrightarrow> vw_cells_sequences v \<noteq> None"
  shows "\<exists>v'. llama_kv_cache_view_update v c = Inr v' \<and> vw_used_cells v' = int (kv_used c) \<and>
    vw_token_count v' = int (llama_get_kv_cache_token_count c) \<and>
    (\<forall>a b. empty_run (kv_cells c) a b \<longrightarrow> int (b - a) \<le> vw_max_contiguous v') \<and>
    (vw_max_contiguous v' \<noteq> 0 \<longrightarrow> empty_run (kv_cells c) (nat (vw_max_contiguous_idx v'))
       (nat (vw_max_contiguous_idx v') + nat (vw_max_contiguous v')))"
proof -
  obtain v' g where v': "llama_kv_cache_view_update v c = Inr v'"
    "g = contig_end (length (kv_cells c)) (contig_scan (vw_n_seq_max v) (kv_cells c) (kv_size c))"
    "vw_used_cells v' = int (kv_used c)" "vw_token_count v' = int (llama_get_kv_cache_token_count c)"
    "vw_max_contiguous v' = int (cg_max g)" "vw_max_contiguous_idx v' = cg_idx g"
    using view_update_ok [OF assms] by blast
  have "contig_inv (kv_cells c) (length (kv_cells c)) (contig_scan (vw_n_seq_max v) (kv_cells c) (kv_size c))"
    using contig_scan_inv [of "kv_size c" "kv_cells c"] assms(1) by (auto simp: kv_wf_def cell_ok_def)
  from contig_end_longest [OF this v'(2)] v' show ?thesis by auto
qed

theorem view_reports_longest_run_witness:
  "\<exists>v'. llama_kv_cache_view_update (llama_kv_cache_view_init (cache_of False 0 [cell_of 0 {0}, new_cell]) 1)
     (cache_of False 0 [cell_of 0 {0}, new_cell]) = Inr v'"
  using view_reports_longest_run [of "cache_of False 0 [cell_of 0 {0}, new_cell]"
      "llama_kv_cache_view_init (cache_of False 0 [cell_of 0 {0}, new_cell]) 1"]
  by (auto simp: kv_wf_def cache_of_def cell_of_def new_cell_def cell_ok_def INT32_MAX_def llama_kv_cache_view_init_def i32_ok_def)


definition kp_plain :: kv_params where
  "kp_plain = \<lparr>kp_recurrent = False, kp_deepseek2 = False, kp_mllama = False, kp_flash_attn = False, kp_offload = False,
     kp_type_k = 1, kp_type_v = 1, kp_f32 = 0, kp_cpu_buft = 0, kp_buft = (\<lambda>_. 0), kp_ctx = (\<lambda>_. True),
     kp_alloc = (\<lambda>b ts. Some (sum_list (map (\<lambda>t. 2 * prod_list (kt_ne t)) ts)))\<rparr>"


text \<open>C37: A rollback is not the inverse of \<open>find_slot\<close>. The slot restorer passes the slot's cell
  indices to \<open>llama_kv_cache_seq_rm\<close>, which reads them as positions. Here sequence 0 has its only
  token at position 10 in cell 0, a token at position 11 is placed in cell 1, and after the rollback
  the token is still in the cache: the entry for position 11 remains.\<close>

theorem rollback_keeps_the_token:
  "\<exists>si c1 c2. llama_kv_cache_find_slot (cache_of False 1 [cell_of 10 {0}, new_cell]) (one_token 11 0) = Inr (si, c1) \<and> si_found si \<and>
     restorer_restore (restorer_save si (new_restorer (cache_of False 1 [cell_of 10 {0}, new_cell]))) c1 = Inr c2 \<and>
     (0, 11, 1) \<in> kv_view c2 \<and> (0, 11, 1) \<notin> kv_view (cache_of False 1 [cell_of 10 {0}, new_cell])"
proof -
  let ?c = "cache_of False 1 [cell_of 10 {0}, new_cell]" and ?u = "one_token 11 0"
  have h: "kv_wf ?c" "\<not> kv_recurrent ?c" "ubatch_ok ?u"
    by (simp_all add: kv_wf_def cache_of_def cell_of_def new_cell_def cell_ok_def INT32_MAX_def ubatch_ok_def one_token_def count_if_def)
  have sz: "kv_size ?c = 2" "ub_n_tokens ?u = 1" "kv_head ?c = 1" by (simp_all add: cache_of_def one_token_def)
  have fr: "free_run (kv_cells ?c) s 1 \<longleftrightarrow> s = 1" if "s < 2" for s
    using that by (auto simp: cache_of_def cell_of_def new_cell_def free_run_def less_2_cases_iff)
  obtain si c1 where f: "llama_kv_cache_find_slot ?c ?u = Inr (si, c1)" "kv_wf c1" "\<not> kv_recurrent c1" "kv_size c1 = 2"
    "if si_found si then si_end si = si_begin si + 1 \<and> si_end si \<le> 2 \<and> free_run (kv_cells ?c) (si_begin si) 1 \<and>
       kv_view c1 = kv_view ?c \<union> {(k, tok_pos ?u j, si_begin si + j) | k j. j < 1 \<and> k \<in> tok_seqs ?u j}
     else \<forall>s. s + 1 \<le> 2 \<longrightarrow> \<not> free_run (kv_cells ?c) s 1"
    using find_slot_ok [OF h] unfolding sz by meson
  have fd: "si_found si" "si_begin si = 1" "si_end si = 2"
    using f(5) fr [of 1] fr [of "si_begin si"] by (auto split: if_splits)
  have v: "(0, 11, 1) \<in> kv_view c1" using f(5) fd by (auto simp: one_token_def tok_pos_def tok_seqs_def)
  obtain c2 where r: "restorer_restore (restorer_save si (new_restorer ?c)) c1 = Inr c2"
    "kv_view c2 = {(k, p, i) \<in> kv_view c1. \<not> (int (si_begin si) \<le> p \<and> p < int (si_end si))}"
    using restore_view [OF f(2,3) fd(1), of ?c] fd f(4) sz(3) by auto
  have "(0, 11, 1) \<in> kv_view c2" using v fd by (simp add: r(2))
  moreover have "(0, 11, 1) \<notin> kv_view ?c" by (simp add: kv_view_def cache_of_def new_cell_def)
  ultimately show ?thesis using f(1) fd(1) r(1) by blast
qed

definition after_rollback :: "llama_kv_cache \<Rightarrow> llama_ubatch \<Rightarrow> (llama_kv_cache_slot_info \<times> llama_kv_cache) res" where
  "after_rollback c ub =
     rbind (llama_kv_cache_find_slot c ub) (\<lambda>(si, c1).
     rbind (restorer_restore (restorer_save si (new_restorer c)) c1) (\<lambda>c2. llama_kv_cache_find_slot c2 ub))"



end
