(* ===== verification/KvDefrag.thy ===== *)
theory KvDefrag
  imports KvCache
begin

text \<open>
  Defragmentation and the pending updates of the cache: \<^verbatim>\<open>llama_kv_cache_defrag_impl\<close> and
  \<^verbatim>\<open>llama_kv_cache_update_impl\<close> of \<^verbatim>\<open>llama.cpp\<close>.

  The planner moves the meta data of cells from the end of the cache into the holes at its start and
  records blocks of cells; the blocks are then copied in the key and value tensors by graphs of at
  most \<open>max_moves\<close> blocks. What the tensors of all layers hold for one cell is a row, an element of
  \<open>rows\<close>; the graph for a block copies its rows. The rotation of the keys is a parameter: it takes a
  row by the pending shift of its cell.
\<close>

section \<open>The planner\<close>

record llama_kv_defrag_move =
  mv_src :: nat
  mv_dst :: nat
  mv_len :: nat

record defrag_state =
  df_cells :: "llama_kv_cell list"
  df_ids   :: "nat list"
  df_moves :: "llama_kv_defrag_move list"
  df_head  :: nat

text \<open>How many empty cells follow the first one of a hole.\<close>

function hole_rest :: "llama_kv_cell list \<Rightarrow> nat \<Rightarrow> nat \<Rightarrow> nat res" where
  "hole_rest cs n_used i =
     (if i < n_used
      then rbind (rnth cs i) (\<lambda>x. if is_empty_cell x then rbind (hole_rest cs n_used (Suc i)) (\<lambda>n. Inr (Suc n)) else Inr 0)
      else Inr 0)"
  by auto
termination by (relation "measure (\<lambda>(cs, n_used, i). n_used - i)") auto

text \<open>From the end of the cache back to the cell at which as many movable cells as the hole has room
  for have been seen.\<close>

fun scan_back :: "llama_kv_cell list \<Rightarrow> nat list \<Rightarrow> nat \<Rightarrow> nat \<Rightarrow> nat \<Rightarrow> nat \<Rightarrow> nat \<Rightarrow> (nat \<times> nat) res" where
  "scan_back cs ids n_kv i0 nh 0 nf = Inr (0, nf)"
| "scan_back cs ids n_kv i0 nh (Suc k) nf =
     (if Suc k > i0 then
        rbind (rnth cs (Suc k)) (\<lambda>cell1.
        rbind (if is_empty_cell cell1 then Inr True else rbind (rnth ids (Suc k)) (\<lambda>x. Inr (x \<noteq> n_kv))) (\<lambda>skip.
        if skip then scan_back cs ids n_kv i0 nh k nf
        else if Suc nf = nh then Inr (Suc k, Suc nf)
        else scan_back cs ids n_kv i0 nh k (Suc nf)))
      else Inr (Suc k, nf))"

definition add_move :: "bool \<Rightarrow> nat \<Rightarrow> nat \<Rightarrow> llama_kv_defrag_move list \<Rightarrow> llama_kv_defrag_move list" where
  "add_move cont s d ms =
     (if cont then butlast ms @ [(last ms)\<lparr>mv_len := Suc (mv_len (last ms))\<rparr>]
      else ms @ [\<lparr>mv_src = s, mv_dst = d, mv_len = 1\<rparr>])"

text \<open>Moving cell \<open>i1\<close> to \<open>d\<close>: the cell is copied first and then cleared.\<close>

definition move_cell :: "nat \<Rightarrow> bool \<Rightarrow> nat \<Rightarrow> nat \<Rightarrow> defrag_state \<Rightarrow> defrag_state res" where
  "move_cell n_used cont i1 d st =
     rbind (rupd (df_cells st) d (df_cells st ! i1)) (\<lambda>cs.
     Inr \<lparr>df_cells = cs[i1 := new_cell], df_ids = (df_ids st)[i1 := d],
          df_moves = add_move cont i1 d (df_moves st), df_head = n_used\<rparr>)"

function fill_hole :: "nat \<Rightarrow> nat \<Rightarrow> nat \<Rightarrow> nat \<Rightarrow> nat \<Rightarrow> nat \<Rightarrow> bool \<Rightarrow> defrag_state \<Rightarrow> defrag_state res" where
  "fill_hole n_kv n_used i0 nh i1 nf cont st =
     (if i1 < n_kv then
        rbind (rnth (df_cells st) i1) (\<lambda>cell1.
        rbind (if is_empty_cell cell1 then Inr True else rbind (rnth (df_ids st) i1) (\<lambda>x. Inr (x \<noteq> n_kv))) (\<lambda>skip.
        if skip then fill_hole n_kv n_used i0 nh (Suc i1) nf False st
        else rbind (move_cell n_used cont i1 (i0 + nf) st) (\<lambda>st'.
             if Suc nf = nh then Inr st' else fill_hole n_kv n_used i0 nh (Suc i1) (Suc nf) True st')))
      else Inr st)"
  by auto
termination by (relation "measure (\<lambda>(n_kv, _, _, _, i1, _). n_kv - i1)") auto

function defrag_loop :: "nat \<Rightarrow> nat \<Rightarrow> nat \<Rightarrow> defrag_state \<Rightarrow> defrag_state res" where
  "defrag_loop n_kv n_used i0 st =
     (if i0 < n_used then
        rbind (rnth (df_cells st) i0) (\<lambda>cell0.
        if \<not> is_empty_cell cell0
        then rbind (rupd (df_ids st) i0 i0) (\<lambda>ids. defrag_loop n_kv n_used (Suc i0) (st\<lparr>df_ids := ids\<rparr>))
        else rbind (hole_rest (df_cells st) n_used (Suc i0)) (\<lambda>r.
             rbind (scan_back (df_cells st) (df_ids st) n_kv i0 (Suc r) (u32_dec n_kv) 0) (\<lambda>(s, nf).
             rbind (rguard (nf = Suc r) GgmlAssert) (\<lambda>_.
             rbind (fill_hole n_kv n_used i0 (Suc r) s 0 False st) (\<lambda>st'.
             defrag_loop n_kv n_used (i0 + Suc r) st')))))
      else Inr st)"
  by auto
termination by (relation "measure (\<lambda>(n_kv, n_used, i0, _). n_used - i0)") auto

declare hole_rest.simps [simp del] fill_hole.simps [simp del] defrag_loop.simps [simp del]

section \<open>Copying the rows\<close>

text \<open>The graph copies views of the tensors, which must lie inside them.\<close>

definition copy_rows :: "llama_kv_defrag_move \<Rightarrow> 'a list \<Rightarrow> 'a list" where
  "copy_rows m rows =
     take (mv_dst m) rows @ take (mv_len m) (drop (mv_src m) rows) @ drop (mv_dst m + mv_len m) rows"

definition build_defrag :: "llama_kv_defrag_move list \<Rightarrow> 'a list \<Rightarrow> 'a list res" where
  "build_defrag ms = rfold (\<lambda>m rows.
     rbind (rguard (mv_src m + mv_len m \<le> length rows \<and> mv_dst m + mv_len m \<le> length rows) GgmlAssert) (\<lambda>_.
     Inr (copy_rows m rows))) ms"

partial_function (option) run_chunks ::
    "llama_kv_defrag_move list \<Rightarrow> nat \<Rightarrow> nat \<Rightarrow> 'a list \<Rightarrow> 'a list res option" where
  "run_chunks moves max_moves i rows =
     (if i < length moves then
        (case build_defrag (take (min (i + max_moves) (length moves) - i) (drop i moves)) rows of
           Inl e \<Rightarrow> Some (Inl e)
         | Inr rows' \<Rightarrow> run_chunks moves max_moves (i + max_moves) rows')
      else Some (Inr rows))"

definition llama_model_max_nodes :: "nat \<Rightarrow> nat" where
  "llama_model_max_nodes n_tensors = max 8192 (n_tensors * 5)"

text \<open>The difference is one of \<open>size_t\<close>; the quotient is stored in 32 bits.\<close>

definition defrag_max_moves :: "nat \<Rightarrow> nat \<Rightarrow> nat res" where
  "defrag_max_moves max_nodes n_layer =
     (if u32 (6 * n_layer) = 0 then Inl DivByZero
      else Inr (u32 ((if u32 (2 * n_layer) \<le> max_nodes then max_nodes - u32 (2 * n_layer)
                      else 2 ^ 64 - (u32 (2 * n_layer) - max_nodes)) div u32 (6 * n_layer))))"

definition llama_kv_cache_defrag_impl :: "nat \<Rightarrow> nat \<Rightarrow> llama_kv_cache \<Rightarrow> 'a list \<Rightarrow> (llama_kv_cache \<times> 'a list) res option" where
  "llama_kv_cache_defrag_impl max_nodes n_layer c rows =
     (let n_kv = llama_kv_cache_cell_max c; n_used = kv_used c in
      case rbind (defrag_max_moves max_nodes n_layer) (\<lambda>max_moves.
           rbind (defrag_loop n_kv n_used 0
                    \<lparr>df_cells = kv_cells c, df_ids = replicate n_kv n_kv, df_moves = [], df_head = kv_head c\<rparr>) (\<lambda>st.
           Inr (max_moves, st))) of
        Inl e \<Rightarrow> Some (Inl e)
      | Inr (max_moves, st) \<Rightarrow>
          let c' = c\<lparr>kv_cells := df_cells st, kv_head := df_head st\<rparr> in
          if df_moves st = [] then Some (Inr (c', rows))
          else map_option (map_sum id (Pair c')) (run_chunks (df_moves st) max_moves 0 rows))"

text \<open>Pending shifts are applied before the cache is compacted. That the graph of the worst case is
  reserved again afterwards changes nothing here.\<close>

definition apply_shift :: "(int \<Rightarrow> 'a \<Rightarrow> 'a) \<Rightarrow> bool \<Rightarrow> llama_kv_cache \<Rightarrow> 'a list \<Rightarrow> (llama_kv_cache \<times> 'a list) res" where
  "apply_shift rot has_rope c rows =
     (if kv_has_shift c then
        if \<not> llama_kv_cache_can_shift c then Inl GgmlAbort
        else Inr (c\<lparr>kv_has_shift := False, kv_cells := map (\<lambda>x. x\<lparr>c_delta := 0\<rparr>) (kv_cells c)\<rparr>,
                  if has_rope then map2 (\<lambda>x. rot (c_delta x)) (kv_cells c) rows else rows)
      else Inr (c, rows))"

definition llama_kv_cache_update_impl :: "(int \<Rightarrow> 'a \<Rightarrow> 'a) \<Rightarrow> bool \<Rightarrow> nat \<Rightarrow> nat \<Rightarrow> llama_kv_cache \<Rightarrow> 'a list
    \<Rightarrow> (llama_kv_cache \<times> 'a list) res option" where
  "llama_kv_cache_update_impl rot has_rope max_nodes n_layer c rows =
     (case apply_shift rot has_rope c rows of
        Inl e \<Rightarrow> Some (Inl e)
      | Inr (c, rows) \<Rightarrow>
          if kv_do_defrag c
          then map_option (map_sum id (\<lambda>(c, rows). (c\<lparr>kv_do_defrag := False\<rparr>, rows)))
                 (llama_kv_cache_defrag_impl max_nodes n_layer c rows)
          else Some (Inr (c, rows)))"

section \<open>Counting occupied cells\<close>

definition occ :: "llama_kv_cell list \<Rightarrow> nat \<Rightarrow> nat \<Rightarrow> nat" where
  "occ cs i j = length (filter (\<lambda>k. occupied (cs ! k)) [i..<j])"

lemma occ_step: "i < j \<Longrightarrow> occ cs i j = (if occupied (cs ! i) then Suc (occ cs (Suc i) j) else occ cs (Suc i) j)"
  by (simp add: occ_def upt_conv_Cons)

lemma occ_split: "i \<le> k \<Longrightarrow> k \<le> j \<Longrightarrow> occ cs i j = occ cs i k + occ cs k j"
  using upt_add_eq_append [of i k "j - k"] by (simp add: occ_def)

lemma occ_le: "occ cs i j \<le> j - i"
  unfolding occ_def by (metis length_filter_le length_upt)

lemma occ_empty [simp]: "occ cs i i = 0"
  by (simp add: occ_def)

lemma occ_none: "(\<And>k. i \<le> k \<Longrightarrow> k < j \<Longrightarrow> is_empty_cell (cs ! k)) \<Longrightarrow> occ cs i j = 0"
  by (simp add: occ_def filter_empty_conv)

lemma occ_all: "i \<le> j \<Longrightarrow> occ cs i j = j - i \<Longrightarrow> i \<le> k \<Longrightarrow> k < j \<Longrightarrow> occupied (cs ! k)"
  unfolding occ_def using length_filter_less [of k "[i..<j]" "\<lambda>k. occupied (cs ! k)"] by fastforce

lemma occ_total: "count_if occupied cs = occ cs 0 (length cs)"
proof -
  have "filter occupied (map ((!) cs) [0..<length cs]) = map ((!) cs) (filter (\<lambda>k. occupied (cs ! k)) [0..<length cs])"
    by (simp add: filter_map comp_def)
  then show ?thesis unfolding count_if_def occ_def map_nth by (metis length_map)
qed

section \<open>The search for movable cells\<close>

text \<open>Cells from \<open>n_used\<close> on that have not been moved.\<close>

definition unmoved :: "nat \<Rightarrow> nat \<Rightarrow> defrag_state \<Rightarrow> bool" where
  "unmoved n_kv n_used st \<longleftrightarrow> (\<forall>j. n_used \<le> j \<and> j < n_kv \<and> occupied (df_cells st ! j) \<longrightarrow> df_ids st ! j = n_kv)"

lemma hole_rest_ok:
  assumes "n_used \<le> length cs"
  shows "i \<le> n_used \<Longrightarrow> \<exists>r. hole_rest cs n_used i = Inr r \<and> i + r \<le> n_used \<and> (\<forall>k. i \<le> k \<and> k < i + r \<longrightarrow> is_empty_cell (cs ! k))"
proof (induction "n_used - i" arbitrary: i)
  case 0
  then show ?case by (subst hole_rest.simps) auto
next
  case (Suc x)
  then have i: "i < n_used" "i < length cs" using assms by simp_all
  show ?case
  proof (cases "is_empty_cell (cs ! i)")
    case False
    then show ?thesis using i by (subst hole_rest.simps) auto
  next
    case True
    obtain r where r: "hole_rest cs n_used (Suc i) = Inr r" "Suc i + r \<le> n_used"
      "\<forall>k. Suc i \<le> k \<and> k < Suc i + r \<longrightarrow> is_empty_cell (cs ! k)"
    proof -
      have "x = n_used - Suc i" "Suc i \<le> n_used" using Suc.hyps(2) i by simp_all
      from Suc.hyps(1) [OF this] that show ?thesis by blast
    qed
    have "hole_rest cs n_used i = Inr (Suc r)" using True i r(1) by (subst hole_rest.simps) simp
    moreover have "is_empty_cell (cs ! k)" if "i \<le> k" "k < i + Suc r" for k
      using r(3) [rule_format, of k] that True by (cases "k = i") auto
    ultimately show ?thesis using r(2) by auto
  qed
qed

lemma scan_back_ok:
  assumes "length ids = n_kv" and "n_kv \<le> length cs" and "i0 < n_used"
    and unmoved: "\<And>j. n_used \<le> j \<Longrightarrow> j < n_kv \<Longrightarrow> occupied (cs ! j) \<Longrightarrow> ids ! j = n_kv"
  shows "k < n_kv \<Longrightarrow> nf = occ cs (Suc k) n_kv \<Longrightarrow> nf < nh \<Longrightarrow> nh \<le> occ cs n_used n_kv \<Longrightarrow>
    \<exists>s. scan_back cs ids n_kv i0 nh k nf = Inr (s, nh) \<and> n_used \<le> s \<and> s < n_kv \<and> occ cs s n_kv = nh"
proof (induction k arbitrary: nf)
  case 0
  have "n_used \<noteq> 0" using assms(3) by simp
  then have "occ cs n_used n_kv \<le> occ cs (Suc 0) n_kv"
    using occ_split [of "Suc 0" n_used n_kv cs] occ_le [of cs n_used n_kv] by (cases "n_used \<le> n_kv") auto
  with 0 show ?case by simp
next
  case (Suc k)
  have k: "n_used \<le> Suc k"
  proof (rule ccontr)
    assume "\<not> n_used \<le> Suc k"
    then have "occ cs n_used n_kv \<le> occ cs (Suc (Suc k)) n_kv"
      using occ_split [of "Suc (Suc k)" n_used n_kv cs] occ_le [of cs n_used n_kv] by (cases "n_used \<le> n_kv") auto
    with Suc.prems show False by simp
  qed
  have step: "occ cs (Suc k) n_kv = (if occupied (cs ! Suc k) then Suc nf else nf)"
    using occ_step [of "Suc k" n_kv cs] Suc.prems(1,2) by simp
  show ?case
  proof (cases "occupied (cs ! Suc k)")
    case False
    with step k assms Suc.prems Suc.IH [of nf] show ?thesis by simp
  next
    case True
    with unmoved [OF k] Suc.prems(1) have "ids ! Suc k = n_kv" by simp
    with True step k assms Suc.prems Suc.IH [of "Suc nf"] show ?thesis by auto
  qed
qed


section \<open>Blocks of rows\<close>

text \<open>The blocks read from \<open>n_used\<close> on and write before it, so they do not disturb each other.\<close>

definition move_ok :: "nat \<Rightarrow> nat \<Rightarrow> llama_kv_defrag_move \<Rightarrow> bool" where
  "move_ok n_used sz m \<longleftrightarrow> n_used \<le> mv_src m \<and> mv_src m + mv_len m \<le> sz \<and> mv_dst m + mv_len m \<le> n_used"

lemma copy_rows_length: "move_ok n_used (length rows) m \<Longrightarrow> length (copy_rows m rows) = length rows"
  by (auto simp: move_ok_def copy_rows_def min_def)

lemma copy_rows_keeps: "move_ok n_used (length rows) m \<Longrightarrow> n_used \<le> i \<Longrightarrow> i < length rows \<Longrightarrow> copy_rows m rows ! i = rows ! i"
  by (auto simp: move_ok_def copy_rows_def nth_append)

lemma copy_rows_one:
  assumes "s < length rows" and "d < length rows"
  shows "copy_rows \<lparr>mv_src = s, mv_dst = d, mv_len = 1\<rparr> rows = rows[d := rows ! s]"
  using assms by (auto simp: copy_rows_def take_Suc_conv_app_nth [of 0] hd_drop_conv_nth upd_conv_take_nth_drop take_Suc)

lemma copy_rows_longer:
  assumes "move_ok n_used (length rows) (m\<lparr>mv_len := Suc (mv_len m)\<rparr>)"
  shows "copy_rows (m\<lparr>mv_len := Suc (mv_len m)\<rparr>) rows =
    (copy_rows m rows)[mv_dst m + mv_len m := copy_rows m rows ! (mv_src m + mv_len m)]"
proof (rule nth_equalityI)
  have ok: "move_ok n_used (length rows) m" using assms by (simp add: move_ok_def)
  show "length (copy_rows (m\<lparr>mv_len := Suc (mv_len m)\<rparr>) rows) =
      length ((copy_rows m rows)[mv_dst m + mv_len m := copy_rows m rows ! (mv_src m + mv_len m)])"
    using copy_rows_length [OF assms] copy_rows_length [OF ok] by simp
  fix i assume "i < length (copy_rows (m\<lparr>mv_len := Suc (mv_len m)\<rparr>) rows)"
  then have i: "i < length rows" using copy_rows_length [OF assms] by simp
  have "copy_rows m rows ! (mv_src m + mv_len m) = rows ! (mv_src m + mv_len m)"
    using copy_rows_keeps [OF ok, of "mv_src m + mv_len m"] assms by (simp add: move_ok_def)
  then show "copy_rows (m\<lparr>mv_len := Suc (mv_len m)\<rparr>) rows ! i =
      ((copy_rows m rows)[mv_dst m + mv_len m := copy_rows m rows ! (mv_src m + mv_len m)]) ! i"
    using assms i copy_rows_length [OF ok]
    by (auto simp: move_ok_def copy_rows_def nth_append nth_list_update)
qed

definition copied :: "llama_kv_defrag_move list \<Rightarrow> 'a list \<Rightarrow> 'a list" where
  "copied ms rows = fold copy_rows ms rows"

lemma copied_length:
  "\<forall>m \<in> set ms. move_ok n_used (length rows) m \<Longrightarrow> length (copied ms rows) = length rows"
  unfolding copied_def by (induction ms arbitrary: rows) (auto simp: copy_rows_length)

lemma build_defrag_copied:
  "\<forall>m \<in> set ms. move_ok n_used (length rows) m \<Longrightarrow> n_used \<le> length rows \<Longrightarrow> build_defrag ms rows = Inr (copied ms rows)"
proof (induction ms arbitrary: rows)
  case (Cons m ms)
  then have m: "move_ok n_used (length rows) m" by simp
  have "build_defrag ms (copy_rows m rows) = Inr (copied ms (copy_rows m rows))"
    using Cons.IH [of "copy_rows m rows"] Cons.prems copy_rows_length [OF m] by simp
  moreover have "mv_src m + mv_len m \<le> length rows \<and> mv_dst m + mv_len m \<le> length rows"
    using m Cons.prems(2) by (auto simp: move_ok_def)
  ultimately show ?case by (simp add: build_defrag_def copied_def)
qed (simp add: build_defrag_def copied_def)

lemma run_chunks_copied:
  assumes "0 < max_moves"
  shows "\<forall>m \<in> set ms. move_ok n_used (length rows) m \<Longrightarrow> n_used \<le> length rows \<Longrightarrow>
    run_chunks ms max_moves i rows = Some (Inr (copied (drop i ms) rows))"
proof (induction "length ms - i" arbitrary: i rows rule: less_induct)
  case less
  show ?case
  proof (cases "i < length ms")
    case True
    define k where "k = min (i + max_moves) (length ms) - i"
    have sub: "\<forall>m \<in> set (take k (drop i ms)). move_ok n_used (length rows) m"
      using less.prems(1) by (auto dest: in_set_takeD in_set_dropD)
    have len: "length (copied (take k (drop i ms)) rows) = length rows" by (rule copied_length [OF sub])
    have "run_chunks ms max_moves (i + max_moves) (copied (take k (drop i ms)) rows) =
        Some (Inr (copied (drop (i + max_moves) ms) (copied (take k (drop i ms)) rows)))"
      by (rule less.hyps) (use True assms less.prems len in auto)
    moreover have "copied (drop (i + max_moves) ms) (copied (take k (drop i ms)) rows) = copied (drop i ms) rows"
    proof -
      have "drop i ms = take k (drop i ms) @ drop (i + max_moves) ms"
      proof (cases "i + max_moves \<le> length ms")
        case True
        then have "k = max_moves" by (simp add: k_def)
        then show ?thesis by (metis append_take_drop_id drop_drop add.commute)
      next
        case False
        then have "k = length (drop i ms)" by (simp add: k_def)
        then show ?thesis using False by simp
      qed
      then show ?thesis unfolding copied_def by (metis fold_append comp_apply)
    qed
    ultimately show ?thesis
      using True build_defrag_copied [OF sub less.prems(2)]
      by (subst run_chunks.simps) (simp add: k_def)
  next
    case False
    then show ?thesis by (subst run_chunks.simps) (simp add: copied_def)
  qed
qed


section \<open>Moving one cell\<close>

definition contents :: "llama_kv_cell list \<Rightarrow> 'a list \<Rightarrow> (llama_kv_cell \<times> 'a) multiset" where
  "contents cs rows = mset (filter (\<lambda>p. occupied (fst p)) (zip cs rows))"

lemma contents_size: "length cs = length rows \<Longrightarrow> size (contents cs rows) = count_if occupied cs"
  unfolding contents_def count_if_def size_mset by (induction cs rows rule: list_induct2) auto

lemma mset_move:
  assumes "i < length xs" and "d < length xs" and "i \<noteq> d" and "P (xs ! i)" and "\<not> P (xs ! d)" and "\<not> P e"
  shows "mset (filter P (xs[d := xs ! i, i := e])) = mset (filter P xs)"
proof -
  have "filter_mset P (mset (xs[d := xs ! i])) = add_mset (xs ! i) (filter_mset P (mset xs))"
    using assms by (simp add: mset_update)
  then show ?thesis using assms by (simp add: mset_update)
qed

lemma contents_move:
  assumes "length cs = length rows" and "i < length cs" and "d < length cs" and "i \<noteq> d"
    and "occupied (cs ! i)" and "is_empty_cell (cs ! d)"
  shows "contents (cs[d := cs ! i, i := new_cell]) (rows[d := rows ! i]) = contents cs rows"
proof -
  have "rows[d := rows ! i] = rows[d := rows ! i, i := rows ! i]"
    using assms by (metis list_update_id nth_list_update_neq)
  then have "zip (cs[d := cs ! i, i := new_cell]) (rows[d := rows ! i]) =
      (zip cs rows)[d := zip cs rows ! i, i := (new_cell, rows ! i)]"
    using assms by (simp add: update_zip)
  moreover have "is_empty_cell new_cell" by (simp add: is_empty_cell_def new_cell_def)
  ultimately show ?thesis
    unfolding contents_def using mset_move [of i "zip cs rows" d "\<lambda>p. occupied (fst p)" "(new_cell, rows ! i)"] assms
    by simp
qed

definition extendable :: "nat \<Rightarrow> nat \<Rightarrow> llama_kv_defrag_move list \<Rightarrow> bool" where
  "extendable s d ms \<longleftrightarrow> ms \<noteq> [] \<and> mv_src (last ms) + mv_len (last ms) = s \<and> mv_dst (last ms) + mv_len (last ms) = d"

lemma add_move_copied:
  assumes "\<forall>m \<in> set ms. move_ok n_used (length rows) m" and "cont \<Longrightarrow> extendable s d ms"
    and "n_used \<le> s" and "s < length rows" and "d < n_used"
  shows "(\<forall>m \<in> set (add_move cont s d ms). move_ok n_used (length rows) m) \<and> extendable (Suc s) (Suc d) (add_move cont s d ms) \<and>
    copied (add_move cont s d ms) rows = (copied ms rows)[d := copied ms rows ! s]"
proof (cases cont)
  case True
  with assms(2) have e: "ms \<noteq> []" "mv_src (last ms) + mv_len (last ms) = s" "mv_dst (last ms) + mv_len (last ms) = d"
    by (simp_all add: extendable_def)
  define m where "m = last ms"
  define bs where "bs = butlast ms"
  have ms: "ms = bs @ [m]" using e(1) by (simp add: m_def bs_def)
  have bs: "length (copied bs rows) = length rows" by (rule copied_length [of _ n_used]) (use assms(1) ms in simp)
  have e': "mv_src m + mv_len m = s" "mv_dst m + mv_len m = d" using e(2,3) by (simp_all add: m_def)
  have ok: "move_ok n_used (length (copied bs rows)) (m\<lparr>mv_len := Suc (mv_len m)\<rparr>)"
    using assms(1,3-5) e' by (auto simp: bs move_ok_def ms)
  have "copied (bs @ [m\<lparr>mv_len := Suc (mv_len m)\<rparr>]) rows = (copied ms rows)[d := copied ms rows ! s]"
    using copy_rows_longer [OF ok] unfolding e' by (simp add: ms copied_def)
  moreover have "\<forall>x \<in> set bs. move_ok n_used (length rows) x" using assms(1) by (simp add: ms)
  moreover have "add_move cont s d ms = bs @ [m\<lparr>mv_len := Suc (mv_len m)\<rparr>]" using True by (simp add: add_move_def m_def bs_def)
  ultimately show ?thesis using ok e' bs by (simp add: extendable_def)
next
  case False
  define m where "m = \<lparr>mv_src = s, mv_dst = d, mv_len = 1\<rparr>"
  have "length (copied ms rows) = length rows" by (rule copied_length [OF assms(1)])
  then have "copy_rows m (copied ms rows) = (copied ms rows)[d := copied ms rows ! s]"
    unfolding m_def using assms by (intro copy_rows_one) simp_all
  moreover have "move_ok n_used (length rows) m" using assms by (simp add: m_def move_ok_def)
  ultimately show ?thesis using False assms(1)
    by (simp add: add_move_def m_def [symmetric] copied_def extendable_def) (simp add: m_def)
qed

section \<open>The invariant of the planner\<close>

definition good :: "nat \<Rightarrow> nat \<Rightarrow> 'a list \<Rightarrow> (llama_kv_cell \<times> 'a) multiset \<Rightarrow> defrag_state \<Rightarrow> bool" where
  "good n_kv n_used rows M st \<longleftrightarrow>
     length (df_cells st) = length rows \<and> length (df_ids st) = n_kv \<and> n_kv \<le> length rows \<and> n_used \<le> n_kv \<and>
     size M = n_used \<and> unmoved n_kv n_used st \<and>
     (\<forall>j. n_kv \<le> j \<and> j < length rows \<longrightarrow> is_empty_cell (df_cells st ! j)) \<and>
     (\<forall>m \<in> set (df_moves st). move_ok n_used (length rows) m) \<and> (\<forall>x \<in> set (df_cells st). cell_ok x) \<and>
     contents (df_cells st) (copied (df_moves st) rows) = M"

lemma goodD:
  assumes "good n_kv n_used rows M st"
  shows "length (df_cells st) = length rows" "length (df_ids st) = n_kv" "n_kv \<le> length rows" "n_used \<le> n_kv"
    "unmoved n_kv n_used st" "\<And>j. n_kv \<le> j \<Longrightarrow> j < length rows \<Longrightarrow> is_empty_cell (df_cells st ! j)"
    "\<forall>m \<in> set (df_moves st). move_ok n_used (length rows) m" "occ (df_cells st) 0 (length rows) = n_used"
proof -
  show "length (df_cells st) = length rows" "length (df_ids st) = n_kv" "n_kv \<le> length rows" "n_used \<le> n_kv"
    "unmoved n_kv n_used st" "\<And>j. n_kv \<le> j \<Longrightarrow> j < length rows \<Longrightarrow> is_empty_cell (df_cells st ! j)"
    and ms: "\<forall>m \<in> set (df_moves st). move_ok n_used (length rows) m"
    using assms unfolding good_def by blast+
  have "length (copied (df_moves st) rows) = length rows" by (rule copied_length [OF ms])
  then have "size M = count_if occupied (df_cells st)"
    using contents_size [of "df_cells st" "copied (df_moves st) rows"] assms unfolding good_def by metis
  then show "occ (df_cells st) 0 (length rows) = n_used"
    using assms occ_total [of "df_cells st"] unfolding good_def by simp
qed

lemma move_cell_ok:
  assumes good: "good n_kv n_used rows M st" and i1: "n_used \<le> i1" "i1 < n_kv" "occupied (df_cells st ! i1)"
    and d: "d < n_used" "is_empty_cell (df_cells st ! d)" and "cont \<Longrightarrow> extendable i1 d (df_moves st)"
  shows "\<exists>st'. move_cell n_used cont i1 d st = Inr st' \<and> good n_kv n_used rows M st' \<and>
    df_cells st' = (df_cells st)[d := df_cells st ! i1, i1 := new_cell] \<and>
    extendable (Suc i1) (Suc d) (df_moves st') \<and> df_head st' = n_used"
proof -
  note g = goodD [OF good]
  have bnd: "d < length rows" "i1 < length rows" "d \<noteq> i1" using g(3,4) i1 d by simp_all
  define cs where "cs = (df_cells st)[d := df_cells st ! i1, i1 := new_cell]"
  define ms where "ms = add_move cont i1 d (df_moves st)"
  define st' where "st' = \<lparr>df_cells = cs, df_ids = (df_ids st)[i1 := d], df_moves = ms, df_head = n_used\<rparr>"
  have run: "move_cell n_used cont i1 d st = Inr st'"
    using bnd g(1) by (simp add: move_cell_def st'_def cs_def ms_def)
  have ms: "\<forall>m \<in> set ms. move_ok n_used (length rows) m" "extendable (Suc i1) (Suc d) ms"
    "copied ms rows = (copied (df_moves st) rows)[d := copied (df_moves st) rows ! i1]"
    using add_move_copied [OF g(7) assms(7) i1(1) bnd(2) d(1)] unfolding ms_def by blast+
  have "contents cs (copied ms rows) = M"
    using contents_move [of "df_cells st" "copied (df_moves st) rows" i1 d] bnd g(1) i1 d copied_length [OF g(7)] good
    unfolding ms(3) cs_def good_def by simp
  moreover have "cell_ok x" if "x \<in> set cs" for x
  proof -
    have "x \<in> insert new_cell (set (df_cells st))"
      using that bnd g(1) nth_mem [of i1 "df_cells st"] unfolding cs_def
      by (auto dest!: set_update_subset_insert [THEN subsetD])
    moreover have "cell_ok new_cell" by (simp add: cell_ok_def new_cell_def INT32_MAX_def)
    ultimately show ?thesis using good unfolding good_def by blast
  qed
  moreover have "is_empty_cell (cs ! j)" if "n_kv \<le> j" "j < length rows" for j
    using g(6) [OF that] that i1 d bnd g(1,4) by (simp add: cs_def)
  moreover have "unmoved n_kv n_used st'"
    using g(1,2,5) i1 d bnd unfolding unmoved_def st'_def cs_def
    by (auto simp: nth_list_update is_empty_cell_def new_cell_def)
  ultimately have "good n_kv n_used rows M st'"
    using g(1-4) ms(1) good unfolding good_def by (simp add: st'_def cs_def)
  then show ?thesis using run ms(2) by (auto simp: st'_def cs_def)
qed

section \<open>Filling the holes\<close>

lemma occ_cong: "(\<And>k. i \<le> k \<Longrightarrow> k < j \<Longrightarrow> cs ! k = cs' ! k) \<Longrightarrow> occ cs i j = occ cs' i j"
  unfolding occ_def by (metis (mono_tags, lifting) atLeastLessThan_iff filter_cong set_upt)

lemma fill_hole_ok:
  assumes "good n_kv n_used rows M st" and "n_used \<le> i1" and "nf < nh" and "nh \<le> nf + occ (df_cells st) i1 n_kv"
    and "i0 + nh \<le> n_used" and "\<forall>j < i0 + nf. occupied (df_cells st ! j)"
    and "\<forall>j. i0 + nf \<le> j \<and> j < i0 + nh \<longrightarrow> is_empty_cell (df_cells st ! j)" and "cont \<Longrightarrow> extendable i1 (i0 + nf) (df_moves st)"
  shows "\<exists>st'. fill_hole n_kv n_used i0 nh i1 nf cont st = Inr st' \<and> good n_kv n_used rows M st' \<and>
    (\<forall>j < i0 + nh. occupied (df_cells st' ! j)) \<and> df_head st' = n_used"
  using assms
proof (induction "n_kv - i1" arbitrary: i1 nf cont st)
  case 0
  then have "occ (df_cells st) i1 n_kv = 0" using occ_le [of "df_cells st" i1 n_kv] by simp
  with 0 show ?case by simp
next
  case (Suc x)
  note g = goodD [OF Suc.prems(1)]
  have i1: "i1 < n_kv" "i1 < length (df_cells st)" using Suc.hyps(2) g(1,3) by simp_all
  have x: "x = n_kv - Suc i1" using Suc.hyps(2) by simp
  show ?case
  proof (cases "occupied (df_cells st ! i1)")
    case False
    have "nh \<le> nf + occ (df_cells st) (Suc i1) n_kv" using Suc.prems(4) occ_step [OF i1(1)] False by simp
    from Suc.hyps(1) [OF x Suc.prems(1) _ Suc.prems(3) this Suc.prems(5-7), of False]
    show ?thesis using False i1 Suc.prems(2) by (subst fill_hole.simps) simp
  next
    case True
    then have id: "df_ids st ! i1 = n_kv" using g(5) Suc.prems(2) i1 by (simp add: unmoved_def)
    have d: "i0 + nf < n_used" "is_empty_cell (df_cells st ! (i0 + nf))" using Suc.prems(3,5,7) by auto
    from move_cell_ok [OF Suc.prems(1,2) i1(1) True d Suc.prems(8)]
    obtain st' where st': "move_cell n_used cont i1 (i0 + nf) st = Inr st'" "good n_kv n_used rows M st'"
      "df_cells st' = (df_cells st)[i0 + nf := df_cells st ! i1, i1 := new_cell]"
      "extendable (Suc i1) (Suc (i0 + nf)) (df_moves st')" "df_head st' = n_used" by blast
    have run: "fill_hole n_kv n_used i0 nh i1 nf cont st =
        (if Suc nf = nh then Inr st' else fill_hole n_kv n_used i0 nh (Suc i1) (Suc nf) True st')"
      using True id i1 g(2) st'(1) by (subst fill_hole.simps) simp
    have occupied: "\<forall>j < i0 + Suc nf. occupied (df_cells st' ! j)"
      using Suc.prems(2,6) True d(1) i1 g(1,3,4) unfolding st'(3) by (auto simp: nth_list_update less_Suc_eq)
    show ?thesis
    proof (cases "Suc nf = nh")
      case True
      with run st' occupied show ?thesis by auto
    next
      case False
      have "occ (df_cells st') (Suc i1) n_kv = occ (df_cells st) (Suc i1) n_kv"
        by (rule occ_cong) (use st'(3) d(1) Suc.prems(2) in auto)
      then have "nh \<le> Suc nf + occ (df_cells st') (Suc i1) n_kv"
        using Suc.prems(4) occ_step [OF i1(1)] True by simp
      moreover have "\<forall>j. i0 + Suc nf \<le> j \<and> j < i0 + nh \<longrightarrow> is_empty_cell (df_cells st' ! j)"
        using Suc.prems(2,5,7) unfolding st'(3) by (auto simp: nth_list_update)
      ultimately have "\<exists>st''. fill_hole n_kv n_used i0 nh (Suc i1) (Suc nf) True st' = Inr st'' \<and>
          good n_kv n_used rows M st'' \<and> (\<forall>j < i0 + nh. occupied (df_cells st'' ! j)) \<and> df_head st'' = n_used"
        using Suc.hyps(1) [OF x st'(2), of "Suc nf" True] Suc.prems(2,3,5) False occupied st'(4) by simp
      then show ?thesis unfolding run using False by simp
    qed
  qed
qed

text \<open>There are as many occupied cells behind \<open>n_used\<close> as there is room before it.\<close>

lemma enough_to_fill:
  assumes "good n_kv n_used rows M st" and "i0 + nh \<le> n_used"
    and "\<forall>k. i0 \<le> k \<and> k < i0 + nh \<longrightarrow> is_empty_cell (df_cells st ! k)"
  shows "nh \<le> occ (df_cells st) n_used n_kv"
proof -
  note g = goodD [OF assms(1)]
  let ?cs = "df_cells st"
  have "occ ?cs 0 (length rows) = occ ?cs 0 n_used + occ ?cs n_used n_kv + occ ?cs n_kv (length rows)"
    using occ_split [of 0 n_kv "length rows" ?cs] occ_split [of 0 n_used n_kv ?cs] g(3,4) by simp
  moreover have "occ ?cs n_kv (length rows) = 0" by (rule occ_none) (use g(6) in simp)
  moreover have "occ ?cs 0 n_used = occ ?cs 0 i0 + occ ?cs i0 (i0 + nh) + occ ?cs (i0 + nh) n_used"
    using occ_split [of 0 "i0 + nh" n_used ?cs] occ_split [of 0 i0 "i0 + nh" ?cs] assms(2) by simp
  moreover have "occ ?cs i0 (i0 + nh) = 0" by (rule occ_none) (use assms(3) in simp)
  ultimately show ?thesis
    using g(8) occ_le [of ?cs 0 i0] occ_le [of ?cs "i0 + nh" n_used] assms(2) by simp
qed

lemma defrag_loop_ok:
  assumes "good n_kv n_used rows M st" and "n_kv < 2 ^ 32" and "i0 \<le> n_used" and "\<forall>j < i0. occupied (df_cells st ! j)"
    and "df_head st \<in> {h, n_used}"
  shows "\<exists>st'. defrag_loop n_kv n_used i0 st = Inr st' \<and> good n_kv n_used rows M st' \<and>
    (\<forall>j < n_used. occupied (df_cells st' ! j)) \<and> df_head st' \<in> {h, n_used}"
  using assms(1,3-5)
proof (induction "n_used - i0" arbitrary: i0 st rule: less_induct)
  case less
  note g = goodD [OF less.prems(1)]
  show ?case
  proof (cases "i0 < n_used")
    case False
    then have "i0 = n_used" using less.prems(2) by simp
    with less.prems show ?thesis by (subst defrag_loop.simps) auto
  next
    case True
    then have i0: "i0 < length (df_cells st)" "i0 < length (df_ids st)" using g(1-4) by simp_all
    show ?thesis
    proof (cases "occupied (df_cells st ! i0)")
      case occupied: True
      define st1 where "st1 = st\<lparr>df_ids := (df_ids st)[i0 := i0]\<rparr>"
      have "good n_kv n_used rows M st1"
        using less.prems(1) True unfolding good_def st1_def unmoved_def by auto
      moreover have "\<forall>j < Suc i0. occupied (df_cells st1 ! j)"
        using less.prems(3) occupied by (auto simp: st1_def less_Suc_eq)
      moreover have "defrag_loop n_kv n_used i0 st = defrag_loop n_kv n_used (Suc i0) st1"
        using True occupied i0 by (subst defrag_loop.simps) (simp add: st1_def)
      ultimately show ?thesis using less.hyps [of "Suc i0" st1] True less.prems(4) by (simp add: st1_def)
    next
      case empty: False
      obtain r where r: "hole_rest (df_cells st) n_used (Suc i0) = Inr r" "Suc i0 + r \<le> n_used"
        "\<forall>k. Suc i0 \<le> k \<and> k < Suc i0 + r \<longrightarrow> is_empty_cell (df_cells st ! k)"
        using hole_rest_ok [of n_used "df_cells st" "Suc i0"] True g(1,3,4) by auto
      have hole: "\<forall>k. i0 \<le> k \<and> k < i0 + Suc r \<longrightarrow> is_empty_cell (df_cells st ! k)"
      proof (intro allI impI)
        fix k assume "i0 \<le> k \<and> k < i0 + Suc r"
        then show "is_empty_cell (df_cells st ! k)" using r(3) empty by (cases "k = i0") auto
      qed
      have nh: "Suc r \<le> occ (df_cells st) n_used n_kv"
        by (rule enough_to_fill [OF less.prems(1) _ hole]) (use r(2) in simp)
      have "0 < n_kv" using nh occ_le [of "df_cells st" n_used n_kv] by simp
      then obtain s where s: "scan_back (df_cells st) (df_ids st) n_kv i0 (Suc r) (u32_dec n_kv) 0 = Inr (s, Suc r)"
        "n_used \<le> s" "s < n_kv" "occ (df_cells st) s n_kv = Suc r"
        using scan_back_ok [of "df_ids st" n_kv "df_cells st" i0 n_used "n_kv - 1" 0 "Suc r"] g(1-5) True nh assms(2)
        by (auto simp: unmoved_def)
      obtain st' where st': "fill_hole n_kv n_used i0 (Suc r) s 0 False st = Inr st'" "good n_kv n_used rows M st'"
        "\<forall>j < i0 + Suc r. occupied (df_cells st' ! j)" "df_head st' = n_used"
        using fill_hole_ok [OF less.prems(1) s(2), of 0 "Suc r" i0 False] s(4) r(2) less.prems(3) hole by auto
      have "defrag_loop n_kv n_used i0 st = defrag_loop n_kv n_used (i0 + Suc r) st'"
        using True empty i0 r(1) s(1) st'(1) by (subst defrag_loop.simps) simp
      then show ?thesis using less.hyps [of "i0 + Suc r" st'] st' True r(2) by simp
    qed
  qed
qed

section \<open>The whole update\<close>

lemma max_moves_pos:
  assumes "0 < n_layer" and "8 * n_layer \<le> max_nodes" and "max_nodes < 2 ^ 31"
  shows "\<exists>k > 0. defrag_max_moves max_nodes n_layer = Inr k"
proof -
  have small: "u32 (6 * n_layer) = 6 * n_layer" "u32 (2 * n_layer) = 2 * n_layer" using assms(2,3) by simp_all
  have "6 * n_layer \<le> max_nodes - 2 * n_layer" using assms(2) by simp
  then have "0 < (max_nodes - 2 * n_layer) div (6 * n_layer)" using assms(1) by (simp add: div_greater_zero_iff)
  moreover have "(max_nodes - 2 * n_layer) div (6 * n_layer) < 2 ^ 32"
    using assms(3) by (intro le_less_trans [OF div_le_dividend]) simp
  ultimately show ?thesis using assms(1,2) by (simp add: defrag_max_moves_def small)
qed

lemma defrag_impl_ok:
  assumes wf: "kv_wf c" and rows: "length rows = kv_size c"
    and nodes: "0 < n_layer" "8 * n_layer \<le> max_nodes" "max_nodes < 2 ^ 31"
  shows "\<exists>c' rows'. llama_kv_cache_defrag_impl max_nodes n_layer c rows = Some (Inr (c', rows')) \<and>
    kv_wf c' \<and> (\<exists>cs h. c' = c\<lparr>kv_cells := cs, kv_head := h\<rparr>) \<and> length rows' = kv_size c \<and>
    contents (kv_cells c') rows' = contents (kv_cells c) rows \<and>
    (\<forall>i < kv_size c. occupied (kv_cells c' ! i) \<longleftrightarrow> i < kv_used c)"
proof -
  define n_kv where "n_kv = llama_kv_cache_cell_max c"
  define st0 where "st0 = \<lparr>df_cells = kv_cells c, df_ids = replicate n_kv n_kv, df_moves = [], df_head = kv_head c\<rparr>"
  define M where "M = contents (kv_cells c) rows"
  have c: "length (kv_cells c) = kv_size c" "kv_size c < 2 ^ 30" "kv_head c \<le> kv_size c"
    "kv_used c = count_if occupied (kv_cells c)" "\<forall>x \<in> set (kv_cells c). cell_ok x" using wf by (simp_all add: kv_wf_def)
  have n_kv: "n_kv \<le> kv_size c" "\<And>j. n_kv \<le> j \<Longrightarrow> j < kv_size c \<Longrightarrow> is_empty_cell (kv_cells c ! j)"
    using cell_max_bounds [of "kv_size c" "kv_cells c"] c(1,5) by (auto simp: n_kv_def llama_kv_cache_cell_max_def)
  have "occ (kv_cells c) n_kv (kv_size c) = 0" by (rule occ_none) (use n_kv(2) in simp)
  then have used: "kv_used c \<le> n_kv"
    using occ_split [of 0 n_kv "kv_size c" "kv_cells c"] occ_le [of "kv_cells c" 0 n_kv] n_kv(1) c(1,4) occ_total [of "kv_cells c"]
    by simp
  have "good n_kv (kv_used c) rows M st0"
    unfolding good_def using c n_kv used rows contents_size [of "kv_cells c" rows]
    by (simp add: st0_def M_def unmoved_def copied_def)
  moreover have "n_kv < 2 ^ 32" using n_kv(1) c(2) by simp
  ultimately obtain st where st: "defrag_loop n_kv (kv_used c) 0 st0 = Inr st" "good n_kv (kv_used c) rows M st"
    "\<forall>j < kv_used c. occupied (df_cells st ! j)" "df_head st \<in> {kv_head c, kv_used c}"
    using defrag_loop_ok [of n_kv "kv_used c" rows M st0 0 "kv_head c"] by (auto simp: st0_def)
  note g = goodD [OF st(2)]
  obtain k where k: "0 < k" "defrag_max_moves max_nodes n_layer = Inr k" using max_moves_pos [OF nodes] by blast
  define c' where "c' = c\<lparr>kv_cells := df_cells st, kv_head := df_head st\<rparr>"
  define rows' where "rows' = copied (df_moves st) rows"
  have "df_moves st \<noteq> [] \<Longrightarrow> run_chunks (df_moves st) k 0 rows = Some (Inr rows')"
    unfolding rows'_def using run_chunks_copied [OF k(1) g(7)] used n_kv(1) rows by simp
  moreover have "df_moves st = [] \<Longrightarrow> rows' = rows" by (simp add: rows'_def copied_def)
  ultimately have run: "llama_kv_cache_defrag_impl max_nodes n_layer c rows = Some (Inr (c', rows'))"
    using st(1) k(2) unfolding llama_kv_cache_defrag_impl_def Let_def n_kv_def [symmetric] st0_def [symmetric]
    by (auto simp: c'_def)
  have "occ (df_cells st) 0 (kv_used c) + occ (df_cells st) (kv_used c) (kv_size c) = kv_used c"
    using g(8) occ_split [of 0 "kv_used c" "kv_size c" "df_cells st"] used n_kv(1) rows by simp
  moreover have "occ (df_cells st) 0 (kv_used c) = kv_used c"
    using st(3) by (simp add: occ_def)
  ultimately have rest: "is_empty_cell (df_cells st ! i)" if "kv_used c \<le> i" "i < kv_size c" for i
    using that by (auto simp: occ_def filter_empty_conv)
  have "kv_wf c'"
    using c st(2,4) g(1,8) used n_kv(1) rows occ_total [of "df_cells st"] unfolding good_def
    by (auto simp: kv_wf_def c'_def)
  moreover have "contents (kv_cells c') rows' = contents (kv_cells c) rows"
    using st(2) unfolding good_def by (simp add: c'_def rows'_def M_def)
  moreover have "length rows' = kv_size c" using copied_length [OF g(7)] rows by (simp add: rows'_def)
  moreover have "\<forall>i < kv_size c. occupied (kv_cells c' ! i) \<longleftrightarrow> i < kv_used c"
    using st(3) rest unfolding c'_def by (auto, meson not_le)
  ultimately show ?thesis using run c'_def by blast
qed

lemma contents_shift:
  "length cs = length rows \<Longrightarrow>
   contents (map (\<lambda>x. x\<lparr>c_delta := 0\<rparr>) cs) (if b then map2 (\<lambda>x. rot (c_delta x)) cs rows else rows) =
     image_mset (\<lambda>(x, r). (x\<lparr>c_delta := 0\<rparr>, if b then rot (c_delta x) r else r)) (contents cs rows)"
  unfolding contents_def by (induction cs rows rule: list_induct2) (auto simp: is_empty_cell_def)

lemma apply_shift_ok:
  assumes "kv_wf c" and "length rows = kv_size c" and "kv_has_shift c \<longrightarrow> kv_can_shift c"
  shows "\<exists>cs rows'. apply_shift rot has_rope c rows = Inr (c\<lparr>kv_has_shift := False, kv_cells := cs\<rparr>, rows') \<and>
    kv_wf (c\<lparr>kv_has_shift := False, kv_cells := cs\<rparr>) \<and> length rows' = kv_size c \<and>
    contents cs rows' = image_mset (\<lambda>(x, r). if kv_has_shift c then (x\<lparr>c_delta := 0\<rparr>, if has_rope then rot (c_delta x) r else r) else (x, r))
      (contents (kv_cells c) rows)"
proof (cases "kv_has_shift c")
  case False
  then have "c = c\<lparr>kv_has_shift := False, kv_cells := kv_cells c\<rparr>" by simp
  moreover have "kv_wf (c\<lparr>kv_has_shift := False\<rparr>)" using assms(1) by (simp add: kv_wf_def)
  ultimately show ?thesis using False assms
    by (intro exI [of _ "kv_cells c"] exI [of _ rows]) (simp add: apply_shift_def)
next
  case True
  define cs where "cs = map (\<lambda>x. x\<lparr>c_delta := 0\<rparr>) (kv_cells c)"
  define rows' where "rows' = (if has_rope then map2 (\<lambda>x. rot (c_delta x)) (kv_cells c) rows else rows)"
  have len: "length (kv_cells c) = length rows" using assms(1,2) by (simp add: kv_wf_def)
  have "contents cs rows' = image_mset (\<lambda>(x, r). (x\<lparr>c_delta := 0\<rparr>, if has_rope then rot (c_delta x) r else r))
      (contents (kv_cells c) rows)"
    using contents_shift [OF len] unfolding cs_def rows'_def by simp
  moreover have "kv_wf (c\<lparr>kv_has_shift := False, kv_cells := cs\<rparr>)"
    using assms(1) by (auto simp: kv_wf_def cs_def cell_ok_def count_if_def filter_map comp_def is_empty_cell_def)
  moreover have "length rows' = kv_size c" using assms(1,2) by (simp add: rows'_def kv_wf_def)
  moreover have "apply_shift rot has_rope c rows = Inr (c\<lparr>kv_has_shift := False, kv_cells := cs\<rparr>, rows')"
    using True assms(3) by (simp add: apply_shift_def llama_kv_cache_can_shift_def cs_def rows'_def)
  ultimately show ?thesis using True by auto
qed

lemma update_ok:
  fixes rows :: "'a list"
  assumes "kv_wf c" and "length rows = kv_size c" and "kv_has_shift c \<longrightarrow> kv_can_shift c"
    and "0 < n_layer" and "8 * n_layer \<le> max_nodes" and "max_nodes < 2 ^ 31"
  shows "\<exists>c' rows'. llama_kv_cache_update_impl rot has_rope max_nodes n_layer c rows = Some (Inr (c', rows')) \<and>
    kv_wf c' \<and> (\<exists>cs h. c' = c\<lparr>kv_has_shift := False, kv_do_defrag := False, kv_cells := cs, kv_head := h\<rparr>) \<and> length rows' = kv_size c \<and>
    contents (kv_cells c') rows' =
      image_mset (\<lambda>(x, r). if kv_has_shift c then (x\<lparr>c_delta := 0\<rparr>, if has_rope then rot (c_delta x) r else r) else (x, r))
        (contents (kv_cells c) rows) \<and>
    (kv_do_defrag c \<longrightarrow> (\<forall>i < kv_size c. occupied (kv_cells c' ! i) \<longleftrightarrow> i < kv_used c))"
proof -
  obtain cs rows1 where shift: "apply_shift rot has_rope c rows = Inr (c\<lparr>kv_has_shift := False, kv_cells := cs\<rparr>, rows1)"
    and wf: "kv_wf (c\<lparr>kv_has_shift := False, kv_cells := cs\<rparr>)" and len: "length rows1 = kv_size c"
    and cont: "contents cs rows1 = image_mset (\<lambda>(x, r). if kv_has_shift c
      then (x\<lparr>c_delta := 0\<rparr>, if has_rope then rot (c_delta x) r else r) else (x, r)) (contents (kv_cells c) rows)"
    using apply_shift_ok [OF assms(1-3), of rot has_rope] by blast
  define c1 where "c1 = c\<lparr>kv_has_shift := False, kv_cells := cs\<rparr>"
  show ?thesis
  proof (cases "kv_do_defrag c")
    case False
    moreover from False have "c\<lparr>kv_has_shift := False, kv_cells := cs\<rparr> = c\<lparr>kv_has_shift := False, kv_do_defrag := False, kv_cells := cs, kv_head := kv_head c\<rparr>"
      by simp
    ultimately show ?thesis using shift wf len cont unfolding llama_kv_cache_update_impl_def by fastforce
  next
    case True
    obtain c2 rows2 cs2 h where d: "llama_kv_cache_defrag_impl max_nodes n_layer c1 rows1 = Some (Inr (c2, rows2))" "kv_wf c2"
      "c2 = c1\<lparr>kv_cells := cs2, kv_head := h\<rparr>" "length rows2 = kv_size c" "contents (kv_cells c2) rows2 = contents cs rows1"
      "\<forall>i < kv_size c. occupied (kv_cells c2 ! i) \<longleftrightarrow> i < kv_used c"
      using defrag_impl_ok [of c1 rows1, OF _ _ assms(4-6)] wf len unfolding c1_def by auto
    have "kv_wf (c2\<lparr>kv_do_defrag := False\<rparr>)" using d(2) by (simp add: kv_wf_def)
    moreover have "c2\<lparr>kv_do_defrag := False\<rparr> = c\<lparr>kv_has_shift := False, kv_do_defrag := False, kv_cells := cs2, kv_head := h\<rparr>"
      by (simp add: d(3) c1_def)
    moreover have "llama_kv_cache_update_impl rot has_rope max_nodes n_layer c rows = Some (Inr (c2\<lparr>kv_do_defrag := False\<rparr>, rows2))"
      using True shift d(1) by (simp add: llama_kv_cache_update_impl_def c1_def)
    ultimately show ?thesis using d cont
      by (intro exI [of _ "c2\<lparr>kv_do_defrag := False\<rparr>"] exI [of _ rows2] conjI) (simp_all, blast)
  qed
qed

text \<open>C7: \<open>llama_kv_cache_update_impl\<close> applies what is pending and loses nothing. For a well-formed cache it
  returns; every token keeps its position, its sequences and its row of keys and values, which is
  rotated by the pending shift if there was one; no shift is pending any more. If defragmentation was
  requested, the tokens then stand in the first \<open>used\<close> cells without a hole, and the rows have been
  moved together with their cells, however the moves are cut into graphs.\<close>

theorem update_keeps_tokens:
  fixes rows :: "'a list"
  assumes "kv_wf c" and "length rows = kv_size c" and "kv_has_shift c \<longrightarrow> kv_can_shift c"
    and "0 < n_layer" and "8 * n_layer \<le> max_nodes" and "max_nodes < 2 ^ 31"
  shows "\<exists>c' rows'. llama_kv_cache_update_impl rot has_rope max_nodes n_layer c rows = Some (Inr (c', rows')) \<and>
    kv_wf c' \<and> kv_size c' = kv_size c \<and> kv_used c' = kv_used c \<and> \<not> kv_has_shift c' \<and> \<not> kv_do_defrag c' \<and>
    contents (kv_cells c') rows' =
      image_mset (\<lambda>(x, r). if kv_has_shift c then (x\<lparr>c_delta := 0\<rparr>, if has_rope then rot (c_delta x) r else r) else (x, r))
        (contents (kv_cells c) rows) \<and>
    (kv_do_defrag c \<longrightarrow> (\<forall>i < kv_size c. occupied (kv_cells c' ! i) \<longleftrightarrow> i < kv_used c))"
proof -
  obtain c' rows' where "llama_kv_cache_update_impl rot has_rope max_nodes n_layer c rows = Some (Inr (c', rows'))" "kv_wf c'"
    "\<exists>cs h. c' = c\<lparr>kv_has_shift := False, kv_do_defrag := False, kv_cells := cs, kv_head := h\<rparr>"
    "contents (kv_cells c') rows' =
      image_mset (\<lambda>(x, r). if kv_has_shift c then (x\<lparr>c_delta := 0\<rparr>, if has_rope then rot (c_delta x) r else r) else (x, r))
        (contents (kv_cells c) rows)"
    "kv_do_defrag c \<longrightarrow> (\<forall>i < kv_size c. occupied (kv_cells c' ! i) \<longleftrightarrow> i < kv_used c)"
    using update_ok [OF assms, of rot has_rope] by blast
  then show ?thesis by (intro exI [of _ c'] exI [of _ rows']) auto
qed


text \<open>Two tokens of a sequence with a hole before the second one, and a pending shift.\<close>

theorem update_keeps_tokens_witness:
  "\<exists>c c' rows'. kv_cells c = [\<lparr>c_pos = 0, c_delta = 0, c_src = -1, c_tail = -1, c_seq_id = {0}\<rparr>, new_cell,
        \<lparr>c_pos = 1, c_delta = -1, c_src = -1, c_tail = -1, c_seq_id = {0}\<rparr>] \<and>
     llama_kv_cache_update_impl (\<lambda>d r. r + d) True 8192 32 c [10, 20, 30 :: int] = Some (Inr (c', rows')) \<and>
     contents (kv_cells c') rows' = {#(\<lparr>c_pos = 0, c_delta = 0, c_src = -1, c_tail = -1, c_seq_id = {0}\<rparr>, 10),
       (\<lparr>c_pos = 1, c_delta = 0, c_src = -1, c_tail = -1, c_seq_id = {0}\<rparr>, 29)#} \<and>
     occupied (kv_cells c' ! 1)"
proof -
  define c where "c = \<lparr>kv_has_shift = True, kv_do_defrag = True, kv_recurrent = False, kv_v_trans = True, kv_can_shift = True,
    kv_head = 0, kv_size = 3, kv_used = 2, kv_n = 3,
    kv_cells = [\<lparr>c_pos = 0, c_delta = 0, c_src = -1, c_tail = -1, c_seq_id = {0}\<rparr>, new_cell,
      \<lparr>c_pos = 1, c_delta = -1, c_src = -1, c_tail = -1, c_seq_id = {0}\<rparr>],
    kv_bufs = [], kv_k_l = [], kv_v_l = []\<rparr>"
  have "kv_wf c" by (simp add: c_def kv_wf_def cell_ok_def new_cell_def is_empty_cell_def INT32_MAX_def)
  from update_keeps_tokens [OF this, of "[10, 20, 30 :: int]" 32 8192 "\<lambda>d r. r + d" True]
  obtain c' rows' where "llama_kv_cache_update_impl (\<lambda>d r. r + d) True 8192 32 c [10, 20, 30] = Some (Inr (c', rows'))"
    "contents (kv_cells c') rows' =
      image_mset (\<lambda>(x, r). (x\<lparr>c_delta := 0\<rparr>, r + c_delta x)) (contents (kv_cells c) [10, 20, 30])"
    "occupied (kv_cells c' ! 1)"
    by (auto simp: c_def)
  then show ?thesis
    by (intro exI [of _ c] exI [of _ c'] exI [of _ rows']) (simp add: c_def contents_def new_cell_def is_empty_cell_def)
qed

end
