(* ===== verification/BatchRun.thy ===== *)
theory BatchRun
  imports Batch
begin

text \<open>
  Running a \<open>llama_sbatch\<close> to its end. The simple split (no copy: the micro-batch points into the
  client's arrays), the loop \<open>while (sbatch.n_tokens > 0)\<close> of \<^verbatim>\<open>llama_decode_impl\<close> around a
  split, the interface the loop needs of a split, and its three implementations.
\<close>

section \<open>The simple split\<close>

text \<open>The state of a simple split: the identity order, at most one run, with no sequence id of its
  own.\<close>

definition simple_inv :: "llama_sbatch \<Rightarrow> bool" where
  "simple_inv sb \<longleftrightarrow> sb_inv sb \<and> sb_ids sb = [0..<length (sb_ids sb)] \<and> length (sb_seq sb) \<le> 1 \<and>
     (\<forall>s \<in> set (sb_seq sb). sq_n_seq_id s = 0)"

lemma drop_rows: "concat (map (\<lambda>k. take ne (drop (ne * k) src)) [off..<off + len]) = take (ne * len) (drop (ne * off) src)"
proof (induction len)
  case 0
  then show ?case by simp
next
  case (Suc len)
  have "take (ne * Suc len) (drop (ne * off) src) = take (ne * len) (drop (ne * off) src) @ take ne (drop (ne * (off + len)) src)"
    using take_add [of "ne * len" ne "drop (ne * off) src"] by (simp add: add.commute distrib_left)
  with Suc show ?case by simp
qed

lemma take_drop_upt: "off + len \<le> n \<Longrightarrow> take len (drop off [0..<n]) = [off..<off + len]"
  by simp

lemma map_nth_range: "off + len \<le> length xs \<Longrightarrow> map ((!) xs) [off..<off + len] = take len (drop off xs)"
  by (rule nth_equalityI) simp_all

text \<open>The micro-batch of a simple split, as views into the batch.\<close>

definition simple_view :: "llama_batch \<Rightarrow> nat \<Rightarrow> nat \<Rightarrow> nat \<Rightarrow> llama_ubatch \<Rightarrow> bool" where
  "simple_view b ne off len ub \<longleftrightarrow> \<not> ub_equal_seqs ub \<and> ub_n_tokens ub = len \<and> ub_n_seqs ub = len \<and> ub_n_seq_tokens ub = 1 \<and>
     ub_token ub = map_option (drop off) (b_token b) \<and> ub_embd ub = map_option (drop (ne * off)) (b_embd b) \<and>
     ub_pos ub = map_option (drop off) (b_pos b) \<and> Some (ub_n_seq_id ub) = map_option (drop off) (b_n_seq_id b) \<and>
     Some (ub_seq_id ub) = map_option (\<lambda>l. map Some (drop off l)) (b_seq_id b)"

lemma simple_view_delivers:
  assumes ok: "batch_ok b n ne" and v: "simple_view b ne off len ub" and n: "off + len \<le> n"
  shows "delivers b ne ub [off..<off + len]"
proof -
  have "ne * off + ne * len \<le> ne * n" using n by (metis add_mult_distrib2 mult_le_mono2)
  with assms show ?thesis
    by (auto simp: delivers_def simple_view_def batch_ok_def drop_rows map_nth_range split: option.splits)
qed

lemma add_seq_simple:
  assumes inv: "simple_inv sb" "sb_batch sb = Some b" and sq: "sb_seq sb = [s]" and len: "0 < len" "len \<le> sq_length s"
    and ub: "ub_cap b (sb_n_embd sb) cap ub" "\<not> ub_equal_seqs ub" "ub_n_tokens ub = 0" "ub_n_seqs ub = 0" and cap: "len \<le> cap"
  shows "\<exists>sb' ub'. add_seq_to_ubatch sb ub 0 len = Inr (sb', ub') \<and> simple_view b (sb_n_embd sb) (sq_offset s) len ub' \<and>
    same_frame sb sb' \<and> sb_seq sb' = [advance len s] \<and> sb_n_tokens sb' = sb_n_tokens sb - len \<and>
    sb_out_ids sb' = sb_out_ids sb @ filter (wanted sb) (take len (drop (sq_offset s) (sb_ids sb))) \<and>
    len \<le> length (ub_output ub') \<and> (\<forall>i < len. ub_output ub' ! i \<noteq> 0 \<longleftrightarrow> wanted sb (sq_offset s + i))"
proof -
  let ?ids = "sb_ids sb" and ?o = "sq_offset s"
  have sb: "sb_inv sb" "?ids = [0..<length ?ids]" "sq_n_seq_id s = 0" using inv sq by (auto simp: simple_inv_def)
  have ok: "batch_ok b (length ?ids) (sb_n_embd sb)" using sb(1) inv(2) by (auto simp: sb_inv_def)
  have off: "?o + len \<le> length ?ids" using sb(1) sq len by (auto simp: sb_inv_def)
  obtain ps ns ss where b: "b_pos b = Some ps" "b_n_seq_id b = Some ns" "b_seq_id b = Some ss"
    using ok by (auto simp: batch_ok_def split: option.splits)
  let ?u = "ub\<lparr>ub_token := map_option (drop ?o) (b_token b), ub_embd := map_option (drop (sb_n_embd sb * ?o)) (b_embd b),
    ub_pos := Some (drop ?o ps), ub_n_seq_id := drop ?o ns, ub_seq_id := map Some (drop ?o ss)\<rparr>"
  obtain d where d: "put_output b (sb_logits_all sb) ?ids s len (sb_out_ids sb) ?u =
      Inr (sb_out_ids sb @ filter (wants_output b (sb_logits_all sb) (length ?ids)) (take len (drop ?o ?ids)), ?u\<lparr>ub_output := d\<rparr>)"
    "len \<le> length d" "\<forall>i < len. d ! i \<noteq> 0 \<longleftrightarrow> wants_output b (sb_logits_all sb) (length ?ids) (?ids ! (?o + i))"
    using put_output_eq [of s len ?ids ?u b "sb_logits_all sb" "sb_out_ids sb"] off ub cap sb(1,2) ok
    by (auto simp: ub_cap_def sb_inv_def batch_ok_def)
  have pt: "put_token b ?ids s len ub = Inr (ub\<lparr>ub_token := map_option (drop ?o) (b_token b)\<rparr>)"
    using ub(2) by (simp add: put_token_def split: option.split)
  have pe: "put_embd b (sb_n_embd sb) ?ids s len (ub\<lparr>ub_token := map_option (drop ?o) (b_token b)\<rparr>) =
      Inr (ub\<lparr>ub_token := map_option (drop ?o) (b_token b), ub_embd := map_option (drop (sb_n_embd sb * ?o)) (b_embd b)\<rparr>)"
    using ub(2) by (simp add: put_embd_def split: option.split)
  have "?ids ! (?o + i) = ?o + i" if "i < len" for i using that off by (subst sb(2)) simp
  then show ?thesis
    using len ub b d pt pe sq sb(3) inv(2)
    by (auto simp: add_seq_to_ubatch_def Let_def put_pos_def put_seq_def simple_view_def same_frame_def advance_def
        wanted_def [abs_def])
qed

text \<open>The micro-batch is the next piece of the batch, and its flags are those of its tokens.\<close>

definition simple_piece :: "llama_sbatch \<Rightarrow> llama_sbatch \<Rightarrow> llama_batch \<Rightarrow> nat \<Rightarrow> llama_ubatch \<Rightarrow> bool" where
  "simple_piece sb sb' b off ub \<longleftrightarrow> off + ub_n_tokens ub \<le> length (sb_ids sb) \<and> simple_view b (sb_n_embd sb) off (ub_n_tokens ub) ub \<and>
     same_frame sb sb' \<and> sb_rest sb = [off..<off + ub_n_tokens ub] @ sb_rest sb' \<and>
     sb_out_ids sb' = sb_out_ids sb @ filter (wanted sb) [off..<off + ub_n_tokens ub] \<and>
     ub_n_tokens ub \<le> length (ub_output ub) \<and> (\<forall>i < ub_n_tokens ub. ub_output ub ! i \<noteq> 0 \<longleftrightarrow> wanted sb (off + i))"

lemma split_simple_step:
  assumes inv: "simple_inv sb" "sb_batch sb = Some b" "0 < n_ubatch"
  shows "\<exists>sb' ub. split_simple sb n_ubatch = Inr (sb', ub) \<and> split_post sb n_ubatch sb' ub \<and> simple_inv sb' \<and>
    (sb_n_tokens sb > 0 \<longrightarrow> (\<exists>off. simple_piece sb sb' b off ub))"
proof -
  define cap where "cap = (if sb_n_tokens sb < n_ubatch then sb_n_tokens sb else n_ubatch)"
  have si: "sb_inv sb" using inv(1) by (simp add: simple_inv_def)
  obtain sb1 ub where r: "reserve_ubatch sb cap (b_embd b \<noteq> None) = (sb1, ub)" by fastforce
  note rp = reserve_ubatch_props [OF si inv(2) r]
  let ?ub = "ub\<lparr>ub_equal_seqs := False\<rparr>"
  have seq1: "sb_seq sb1 = pop_empty (length (sb_seq sb)) (sb_seq sb)" using r by (auto simp: reserve_ubatch_def Let_def)
  have pre: "\<exists>zs. sb_seq sb = sb_seq sb1 @ zs" using pop_empty_split [of "sb_seq sb"] seq1 by metis
  have si1: "simple_inv sb1" using rp(1,2) inv(1) pre by (auto simp: simple_inv_def same_frame_def)
  have b1: "sb_batch sb1 = Some b" "sb_n_embd sb1 = sb_n_embd sb" "sb_ids sb1 = sb_ids sb" using rp(1) inv(2) by (simp_all add: same_frame_def)
  show ?thesis
  proof (cases "sb_seq sb1")
    case Nil
    have run: "split_simple sb n_ubatch = Inr (sb1, ?ub)"
      using Nil r inv(2) by (simp add: split_simple_def has_embd_def Let_def cap_def [symmetric])
    have z: "sb_n_tokens sb = 0" using rp(2,4) Nil by (simp add: sb_inv_def)
    have "progress sb [] sb1 []" by (rule progress_refl) (use rp in auto)
    moreover have "delivers b (sb_n_embd sb) ?ub []" using rp(9) by (simp add: delivers_def)
    ultimately have "split_post sb n_ubatch sb1 ?ub"
      using z rp(11,12) inv(2) by (auto simp: split_post_def)
    with run si1 z show ?thesis by auto
  next
    case (Cons s rest)
    then have sq: "sb_seq sb1 = [s]" "sq_n_seq_id s = 0" using si1 by (auto simp: simple_inv_def)
    have sl: "sq_length s > 0" using rp(7) sq by simp
    have tot: "sq_length s = sb_n_tokens sb" using rp(2,4) sq by (simp add: sb_inv_def)
    then have cp: "cap > 0" using sl inv(3) by (simp add: cap_def)
    define len where "len = (if sq_length s < cap then sq_length s else cap)"
    have len: "0 < len" "len \<le> sq_length s" "len \<le> cap" "cap \<le> n_ubatch" using sl cp by (auto simp: len_def cap_def)
    obtain sb' ub' where st: "add_seq_to_ubatch sb1 ?ub 0 len = Inr (sb', ub')" "simple_view b (sb_n_embd sb) (sq_offset s) len ub'"
      "same_frame sb1 sb'" "sb_seq sb' = [advance len s]" "sb_n_tokens sb' = sb_n_tokens sb1 - len"
      "sb_out_ids sb' = sb_out_ids sb1 @ filter (wanted sb1) (take len (drop (sq_offset s) (sb_ids sb1)))"
      "len \<le> length (ub_output ub')" "\<forall>i < len. ub_output ub' ! i \<noteq> 0 \<longleftrightarrow> wanted sb1 (sq_offset s + i)"
      using add_seq_simple [OF si1 b1(1) sq(1) len(1,2), of cap ?ub] rp(8,11,12) len(3) b1(2) by (auto simp: ub_cap_def)
    have run: "split_simple sb n_ubatch = Inr (sb', ub')"
      using sq r inv(2) st(1) by (simp add: split_simple_def has_embd_def Let_def cap_def [symmetric] len_def [symmetric])
    let ?new = "take len (drop (sq_offset s) (sb_ids sb1))"
    have pg: "progress sb1 [] sb' ([] @ ?new)"
      by (rule advance_progress [of sb1 0 s]) (use rp(2) sq st len in auto)
    have off: "sq_offset s + len \<le> length (sb_ids sb1)" using rp(2) sq(1) len by (auto simp: sb_inv_def)
    have new: "?new = [sq_offset s..<sq_offset s + len]"
      using off si1 take_drop_upt [of "sq_offset s" len "length (sb_ids sb1)"] by (simp add: simple_inv_def)
    have "batch_ok b (length (sb_ids sb)) (sb_n_embd sb)" using si inv(2) by (auto simp: sb_inv_def)
    from simple_view_delivers [OF this st(2)] off b1(3) have dl: "delivers b (sb_n_embd sb) ub' ?new" unfolding new by simp
    have "progress sb [] sb' ?new" using progress_reserve [OF rp(1,3,4,5) pg] by simp
    then have "split_post sb n_ubatch sb' ub'"
      using dl st(2) inv(2) len by (auto simp: split_post_def simple_view_def)
    moreover have "simple_inv sb'"
      using pg si1 st(3,4) sq(2) by (auto simp: simple_inv_def progress_def same_frame_def)
    moreover have n: "ub_n_tokens ub' = len" using st(2) by (simp add: simple_view_def)
    have "seq_rest (sb_ids sb1) s = ?new @ seq_rest (sb_ids sb1) (advance len s)"
      by (rule seq_rest_advance) (use rp(2) sq(1) sl len(2) in \<open>auto simp: sb_inv_def\<close>)
    then have "sb_rest sb = ?new @ sb_rest sb'" using rp(3) sq(1) st(3,4) by (simp add: sb_rest_def same_frame_def)
    moreover have "same_frame sb sb'" "wanted sb1 = wanted sb" using rp(1) st(3) wanted_frame [OF rp(1)] by (auto simp: same_frame_def)
    ultimately have "simple_piece sb sb' b (sq_offset s) ub'"
      using st(2,6-8) off b1(3) rp(5) unfolding simple_piece_def n new by auto
    with \<open>split_post sb n_ubatch sb' ub'\<close> \<open>simple_inv sb'\<close> run show ?thesis by blast
  qed
qed

section \<open>The loop around a split\<close>

text \<open>\<open>while (sbatch.n_tokens > 0)\<close>: the micro-batches in the order the loop sees them. The fuel is
  the number of iterations; \<open>drain_ok\<close> shows that as many as there are tokens are enough.\<close>

fun drain :: "(llama_sbatch \<Rightarrow> nat \<Rightarrow> (llama_sbatch \<times> llama_ubatch) res) \<Rightarrow> nat \<Rightarrow> nat \<Rightarrow> llama_sbatch \<Rightarrow>
    (llama_ubatch list \<times> llama_sbatch) option res" where
  "drain split 0 n_ubatch sb = (if sb_n_tokens sb > 0 then Inr None else Inr (Some ([], sb)))"
| "drain split (Suc f) n_ubatch sb =
     (if sb_n_tokens sb > 0
      then rbind (split sb n_ubatch) (\<lambda>(sb, ub).
           rbind (drain split f n_ubatch sb) (\<lambda>r.
           Inr (map_option (\<lambda>(ubs, sb). (ub # ubs, sb)) r)))
      else Inr (Some ([], sb)))"

text \<open>What the loop relies on: a state invariant under which the split does not fault, keeps the
  invariant, and delivers at least one token.\<close>

locale splitter =
  fixes split :: "llama_sbatch \<Rightarrow> nat \<Rightarrow> (llama_sbatch \<times> llama_ubatch) res"
    and inv :: "llama_sbatch \<Rightarrow> bool"
  assumes split_law: "inv sb \<Longrightarrow> 0 < n \<Longrightarrow> \<exists>sb' ub. split sb n = Inr (sb', ub) \<and> split_post sb n sb' ub \<and> inv sb'"
    and inv_batch: "inv sb \<Longrightarrow> sb_inv sb"
begin

lemma drain_ok:
  assumes "inv sb" "0 < n" "sb_n_tokens sb \<le> f" "sb_batch sb = Some b"
  shows "\<exists>ubs sb' dns. drain split f n sb = Inr (Some (ubs, sb')) \<and> inv sb' \<and> sb_n_tokens sb' = 0 \<and>
    list_all2 (delivers b (sb_n_embd sb)) ubs dns \<and> mset (sb_rest sb) = mset (concat dns) \<and>
    sb_out_ids sb' = sb_out_ids sb @ filter (wanted sb) (concat dns) \<and>
    (\<forall>ub \<in> set ubs. 0 < ub_n_tokens ub \<and> ub_n_tokens ub \<le> n \<and> ub_n_tokens ub = ub_n_seqs ub * ub_n_seq_tokens ub)"
  using assms
proof (induction f arbitrary: sb)
  case (0 sb)
  have "sb_rest sb = []" if "sb_n_tokens sb = 0"
    using inv_batch [OF 0(1)] that by (auto simp: sb_inv_def sb_rest_def sum_list_eq_0_iff)
  with 0 show ?case by (intro exI [of _ "[]"] exI [of _ sb]) simp
next
  case (Suc f sb)
  show ?case
  proof (cases "sb_n_tokens sb > 0")
    case False
    then have "sb_rest sb = []"
      using inv_batch [OF Suc.prems(1)] by (auto simp: sb_inv_def sb_rest_def sum_list_eq_0_iff)
    with False Suc.prems show ?thesis by (intro exI [of _ "[]"] exI [of _ sb]) simp
  next
    case True
    obtain sb1 ub where st: "split sb n = Inr (sb1, ub)" "split_post sb n sb1 ub" "inv sb1"
      using split_law [OF Suc.prems(1,2)] by blast
    from st(2) Suc.prems(4) obtain dn where dn: "progress sb [] sb1 dn" "delivers b (sb_n_embd sb) ub dn"
      by (auto simp: split_post_def)
    have fr: "same_frame sb sb1" "mset (sb_rest sb) = mset dn + mset (sb_rest sb1)" "sb_n_tokens sb = sb_n_tokens sb1 + length dn"
      "sb_out_ids sb1 = sb_out_ids sb @ filter (wanted sb) dn" using dn(1) by (auto simp: progress_def)
    have pos: "0 < length dn" using dn(2) st(2) True by (auto simp: delivers_def split_post_def)
    then have le: "sb_n_tokens sb1 \<le> f" using fr(3) Suc.prems(3) by linarith
    have b1: "sb_batch sb1 = Some b" using fr(1) Suc.prems(4) by (simp add: same_frame_def)
    from Suc.IH [OF st(3) Suc.prems(2) le b1] obtain ubs sb' dns where IH:
      "drain split f n sb1 = Inr (Some (ubs, sb'))" "inv sb'" "sb_n_tokens sb' = 0"
      "list_all2 (delivers b (sb_n_embd sb1)) ubs dns" "mset (sb_rest sb1) = mset (concat dns)"
      "sb_out_ids sb' = sb_out_ids sb1 @ filter (wanted sb1) (concat dns)"
      "\<forall>ub \<in> set ubs. 0 < ub_n_tokens ub \<and> ub_n_tokens ub \<le> n \<and> ub_n_tokens ub = ub_n_seqs ub * ub_n_seq_tokens ub" by blast
    have "drain split (Suc f) n sb = Inr (Some (ub # ubs, sb'))" using True st(1) IH(1) by simp
    moreover have "list_all2 (delivers b (sb_n_embd sb)) (ub # ubs) (dn # dns)"
      using IH(4) dn(2) fr(1) by (simp add: same_frame_def)
    moreover have "sb_out_ids sb' = sb_out_ids sb @ filter (wanted sb) (concat (dn # dns))"
      using IH(6) fr(4) wanted_frame [OF fr(1)] by simp
    moreover have "mset (sb_rest sb) = mset (concat (dn # dns))" using IH(5) fr(2) by simp
    moreover have "0 < ub_n_tokens ub \<and> ub_n_tokens ub \<le> n \<and> ub_n_tokens ub = ub_n_seqs ub * ub_n_seq_tokens ub"
      using st(2) True unfolding split_post_def by blast
    ultimately show ?thesis using IH(2,3,7) by (intro exI [of _ "ub # ubs"] exI [of _ sb'] exI [of _ "dn # dns"]) auto
  qed
qed

end

interpretation eq_split: splitter split_equal "\<lambda>sb. sb_inv sb \<and> seq_order sb"
  by unfold_locales (use split_equal_ok in blast)+

interpretation seq_split: splitter split_seq "\<lambda>sb. sb_inv sb \<and> seq_order sb"
  by unfold_locales (use split_seq_ok in blast)+

interpretation simple_split: splitter split_simple simple_inv
proof
  fix sb n assume h: "simple_inv sb" "0 < (n::nat)"
  then obtain b where "sb_batch sb = Some b" by (auto simp: simple_inv_def sb_inv_def)
  from split_simple_step [OF h(1) this h(2)]
  show "\<exists>sb' ub. split_simple sb n = Inr (sb', ub) \<and> split_post sb n sb' ub \<and> simple_inv sb'" by blast
qed (simp add: simple_inv_def)

text \<open>A batch prepared for a simple split.\<close>

lemma from_batch_simple:
  assumes "batch_ok b n ne" "b_n_tokens b = int n"
  shows "\<exists>sb'. from_batch srt_ids srt_seq sb b ne True la = Inr sb' \<and> simple_inv sb' \<and> sb_rest sb' = [0..<n] \<and>
    sb_n_tokens sb' = n \<and> sb_out_ids sb' = [] \<and> sb_batch sb' = Some b \<and> sb_logits_all sb' = la \<and> length (sb_ids sb') = n \<and> sb_n_embd sb' = ne"
  using assms by (auto simp: from_batch_def Let_def simple_inv_def sb_inv_def sb_rest_def seq_rest_def)

section \<open>Completed batches\<close>

text \<open>A batch as a client may hand it over: missing arrays are completed by \<open>llama_batch_allocr\<close>.\<close>

definition batch_in_ok :: "llama_batch \<Rightarrow> nat \<Rightarrow> nat \<Rightarrow> bool" where
  "batch_in_ok b n ne \<longleftrightarrow> b_n_tokens b = int n \<and> 0 < n \<and>
     (case b_token b of Some t \<Rightarrow> n \<le> length t \<and> b_embd b = None | None \<Rightarrow> True) \<and>
     (case b_embd b of Some e \<Rightarrow> ne * n \<le> length e | None \<Rightarrow> True) \<and>
     (case b_pos b of Some p \<Rightarrow> n \<le> length p | None \<Rightarrow> True) \<and>
     (case (b_n_seq_id b, b_seq_id b) of
        (Some l, Some q) \<Rightarrow> n \<le> length l \<and> n \<le> length q \<and> (\<forall>i < n. 0 < l ! i \<and> int (length (q ! i)) = l ! i)
      | (None, None) \<Rightarrow> True | _ \<Rightarrow> False) \<and>
     (case b_logits b of Some l \<Rightarrow> n \<le> length l | None \<Rightarrow> True)"

lemma allocr_positions:
  assumes "\<forall>i < n. i32_ok (int i + p0)"
  shows "rfold (\<lambda>i xs. rbind (i32_add (int i) p0) (\<lambda>x. Inr (xs @ [x]))) [0..<n] [] = Inr (map (\<lambda>i. int i + p0) [0..<n])"
  using assms by (induction n) (simp_all add: rfold_append i32_add_def)

lemma batch_allocr_ok:
  assumes "batch_in_ok b n ne" "b_pos b = None \<longrightarrow> (\<forall>i < n. i32_ok (int i + p0))"
  shows "\<exists>b'. llama_batch_allocr b p0 = Inr b' \<and> batch_ok b' n ne \<and> b_n_tokens b' = int n \<and> b_token b' = b_token b \<and> b_embd b' = b_embd b \<and>
    (b_pos b = None \<longrightarrow> b_pos b' = Some (map (\<lambda>i. int i + p0) [0..<n])) \<and>
    (b_logits b = None \<longrightarrow> (\<forall>k < n. the (b_logits b') ! k \<noteq> 0 \<longleftrightarrow> k = n - 1))"
proof -
  have tk: "\<forall>x \<in> set (take n l). 0 < x" if "n \<le> length l" "\<forall>i < n. 0 < l ! i" for l :: "int list"
    using that by (auto simp: in_set_conv_nth)
  show ?thesis using assms tk
    by (auto simp: llama_batch_allocr_def Let_def batch_in_ok_def batch_ok_def allocr_positions nth_list_update split: option.splits)
qed

section \<open>Properties\<close>

lemma filter_mset_length: "mset xs = mset ys \<Longrightarrow> length (filter P xs) = length (filter P ys)"
  by (metis mset_filter size_mset)

text \<open>The conclusion the two theorems on the loop share: it ends without a fault, every token of the
  batch is in exactly one micro-batch with its data, and one output row per requested token.\<close>

definition all_delivered :: "llama_batch \<Rightarrow> nat \<Rightarrow> nat \<Rightarrow> bool \<Rightarrow> nat \<Rightarrow> (llama_ubatch list \<times> llama_sbatch) option res \<Rightarrow> bool" where
  "all_delivered b n ne la n_ubatch r \<longleftrightarrow>
     (\<exists>ubs sb' dns. r = Inr (Some (ubs, sb')) \<and> sb_n_tokens sb' = 0 \<and>
        list_all2 (delivers b ne) ubs dns \<and> mset (concat dns) = mset [0..<n] \<and>
        sb_out_ids sb' = filter (wants_output b la n) (concat dns) \<and>
        length (sb_out_ids sb') = length (filter (wants_output b la n) [0..<n]) \<and>
        (\<forall>ub \<in> set ubs. 0 < ub_n_tokens ub \<and> ub_n_tokens ub \<le> n_ubatch \<and> ub_n_tokens ub = ub_n_seqs ub * ub_n_seq_tokens ub))"

lemma all_deliveredI:
  assumes "drain split f n_ubatch sb = Inr (Some (ubs, sb'))" "sb_n_tokens sb' = 0" "list_all2 (delivers b (sb_n_embd sb)) ubs dns"
    and "mset (sb_rest sb) = mset (concat dns)" "sb_out_ids sb' = sb_out_ids sb @ filter (wanted sb) (concat dns)"
    and "\<forall>ub \<in> set ubs. 0 < ub_n_tokens ub \<and> ub_n_tokens ub \<le> n_ubatch \<and> ub_n_tokens ub = ub_n_seqs ub * ub_n_seq_tokens ub"
    and sb: "mset (sb_rest sb) = mset [0..<n]" "sb_out_ids sb = []" "sb_batch sb = Some b" "sb_logits_all sb = la" "length (sb_ids sb) = n"
      "sb_n_embd sb = ne"
  shows "all_delivered b n ne la n_ubatch (drain split f n_ubatch sb)"
proof -
  have w: "wanted sb = wants_output b la n" by (rule ext) (simp add: wanted_def sb)
  have "length (filter (wants_output b la n) (concat dns)) = length (filter (wants_output b la n) [0..<n])"
    by (rule filter_mset_length) (use assms(4) sb(1) in simp)
  moreover have "mset (concat dns) = mset [0..<n]" "sb_out_ids sb' = filter (wants_output b la n) (concat dns)"
    using assms(4,5) sb(1,2) w by simp_all
  moreover have "list_all2 (delivers b ne) ubs dns" using assms(3) sb(6) by simp
  ultimately show ?thesis unfolding all_delivered_def using assms(1,2,6)
    by (intro exI [of _ ubs] exI [of _ sb'] exI [of _ dns] conjI) (assumption | simp)+
qed


text \<open>C14: Batch splitting for transformers. The same for the simple split, which copies nothing: the
  micro-batches point into the client's arrays.\<close>

theorem split_simple_delivers_all:
  assumes "batch_ok b n ne" and "b_n_tokens b = int n" and "0 < n_ubatch"
  shows "\<exists>sb. from_batch srt_ids srt_seq sb0 b ne True la = Inr sb \<and>
    all_delivered b n ne la n_ubatch (drain split_simple n n_ubatch sb)"
proof -
  obtain sb where sb: "from_batch srt_ids srt_seq sb0 b ne True la = Inr sb" "simple_inv sb"
    "sb_rest sb = [0..<n]" "sb_n_tokens sb = n" "sb_out_ids sb = []" "sb_batch sb = Some b" "sb_logits_all sb = la"
    "length (sb_ids sb) = n" "sb_n_embd sb = ne" using from_batch_simple [OF assms(1,2)] by metis
  obtain ubs sb' dns where "drain split_simple n n_ubatch sb = Inr (Some (ubs, sb'))" "sb_n_tokens sb' = 0"
    "list_all2 (delivers b (sb_n_embd sb)) ubs dns" "mset (sb_rest sb) = mset (concat dns)"
    "sb_out_ids sb' = sb_out_ids sb @ filter (wanted sb) (concat dns)"
    "\<forall>ub \<in> set ubs. 0 < ub_n_tokens ub \<and> ub_n_tokens ub \<le> n_ubatch \<and> ub_n_tokens ub = ub_n_seqs ub * ub_n_seq_tokens ub"
    using simple_split.drain_ok [of sb n_ubatch n b] sb(2,4,6) assms(3) by auto
  from all_deliveredI [OF this _ sb(5-9)] sb(1,3) show ?thesis by auto
qed

definition demo_batch :: llama_batch where
  "demo_batch = \<lparr>b_n_tokens = 3, b_token = Some [5, 6, 7], b_embd = None, b_n_embd = 0, b_pos = Some [0, 0, 1],
     b_n_seq_id = Some [1, 1, 1], b_seq_id = Some [[0], [1], [0]], b_logits = Some [0, 1, 1]\<rparr>"

definition empty_sbatch :: llama_sbatch where
  "empty_sbatch = \<lparr>sb_n_tokens = 0, sb_n_embd = 0, sb_logits_all = False, sb_ids = [], sb_out_ids = [], sb_seq = [], sb_batch = None,
     ubuf_token = [], ubuf_embd = [], ubuf_pos = [], ubuf_n_seq_id = [], ubuf_seq_id = [], ubuf_output = []\<rparr>"

lemma demo_batch_ok: "batch_ok demo_batch 3 0" "b_n_tokens demo_batch = int 3"
  by (auto simp: batch_ok_def demo_batch_def less_Suc_eq numeral_3_eq_3)


theorem split_simple_delivers_all_witness:
  "\<exists>sb. from_batch ins_sort ins_sort empty_sbatch demo_batch 0 True False = Inr sb \<and>
     all_delivered demo_batch 3 0 False 2 (drain split_simple 3 2 sb)"
  by (rule split_simple_delivers_all) (simp_all add: demo_batch_ok)

text \<open>C29: Sorting a batch into runs. After \<open>from_batch\<close> the runs partition the tokens of the batch,
  every run belongs to exactly one set of sequences, the tokens of a run are in order of position, and
  the vector of runs is sorted by the number of sequences and then by descending length.\<close>

theorem from_batch_runs:
  assumes "std_sort srt_ids" and "std_sort srt_seq" and "batch_ok b n ne" and "b_n_tokens b = int n" and "drained sb"
  shows "\<exists>sb'. from_batch srt_ids srt_seq sb b ne False la = Inr sb' \<and> mset (sb_rest sb') = mset [0..<n] \<and>
    (\<forall>s \<in> set (sb_seq sb'). sq_length s > 0 \<longrightarrow>
      (\<forall>k \<in> set (seq_rest (sb_ids sb') s). Some (the (b_seq_id b) ! k) = sq_seq_id s) \<and>
      sorted (map ((!) (the (b_pos b))) (seq_rest (sb_ids sb') s))) \<and>
    sorted_wrt (\<lambda>x y. \<not> seq_less y x) (sb_seq sb')"
  using from_batch_ok [OF assms, of la] unfolding runs_sorted_def seq_order_def by metis

theorem from_batch_runs_witness:
  "\<exists>sb'. from_batch ins_sort ins_sort empty_sbatch demo_batch 0 False False = Inr sb' \<and> mset (sb_rest sb') = mset [0..<3]"
  using from_batch_runs [of ins_sort ins_sort demo_batch 3 0 empty_sbatch False]
  by (auto simp: ins_std.std_sort_axioms demo_batch_ok drained_def empty_sbatch_def)




end
