(* ===== verification/Output.thy ===== *)
theory Output
  imports Batch Hparams
begin

text \<open>
  The outputs of an evaluation: \<^verbatim>\<open>llama_output_reserve\<close>, \<^verbatim>\<open>llama_output_reorder\<close> and the
  functions that hand out rows of logits and embeddings (\<^verbatim>\<open>llama-context.cpp\<close>).

  Logits and embeddings share one host buffer. The buffer is a list of floats, a pointer into it is an
  offset, and the type of floats is left open. \<open>output_ids\<close> maps a token of the batch to its row,
  and \<open>sbatch.out_ids\<close> maps a row to its token while the rows are not in the order of the batch.
\<close>

section \<open>Parameters and state\<close>

datatype llama_pooling_type = PoolUnspecified | PoolNone | PoolMean | PoolCls | PoolLast | PoolRank

record llama_cparams =
  cp_n_batch         :: nat
  cp_n_ubatch        :: nat
  cp_n_seq_max       :: nat
  cp_n_threads       :: int
  cp_n_threads_batch :: int
  cp_embeddings      :: bool
  cp_causal_attn     :: bool
  cp_flash_attn      :: bool
  cp_pooling_type    :: llama_pooling_type

record 'f llama_outputs =
  lo_sbatch      :: llama_sbatch
  lo_buf_output  :: "'f list option"
  lo_logits_size :: nat
  lo_logits      :: "nat option"
  lo_output_ids  :: "int list"
  lo_output_size :: nat
  lo_n_outputs   :: int
  lo_embd_size   :: nat
  lo_embd        :: "nat option"
  lo_embd_seq    :: "int \<rightharpoonup> 'f list"

section \<open>Reserving the buffer\<close>

text \<open>\<open>alloc\<close> is the backend: the size of the buffer it gives for a request in bytes, if any.\<close>

definition llama_output_reserve :: "(nat \<Rightarrow> nat option) \<Rightarrow> llama_hparams \<Rightarrow> llama_cparams \<Rightarrow> ('f :: zero, 'z) llama_outputs_scheme
    \<Rightarrow> nat \<Rightarrow> nat \<times> ('f, 'z) llama_outputs_scheme" where
  "llama_output_reserve alloc hp cp c n_outputs =
     (let n_outputs_max = max n_outputs (cp_n_seq_max cp);
          has_logits = cp_causal_attn cp;
          has_embd = (cp_embeddings cp \<and> cp_pooling_type cp = PoolNone);
          logits_size = (if has_logits then u64 (hp_n_vocab hp * n_outputs_max) else 0);
          embd_size = (if has_embd then u64 (hp_n_embd hp * n_outputs_max) else 0);
          c = (if lo_output_ids c = [] then c\<lparr>lo_output_ids := replicate (cp_n_batch cp) 0\<rparr> else c);
          prev_size = (case lo_buf_output c of Some b \<Rightarrow> 4 * length b | None \<Rightarrow> 0);
          new_size = u64 ((logits_size + embd_size) * 4);
          c = (if lo_buf_output c = None \<or> prev_size < new_size
               then (if lo_buf_output c \<noteq> None then c\<lparr>lo_logits := None, lo_embd := None\<rparr> else c)
                      \<lparr>lo_buf_output := map_option (\<lambda>k. replicate (k div 4) 0) (alloc new_size)\<rparr>
               else c)
      in case lo_buf_output c of
           None \<Rightarrow> (0, c)
         | Some b \<Rightarrow>
             (n_outputs_max,
              c\<lparr>lo_logits := if has_logits then Some 0 else None,
                lo_embd := if has_embd then Some logits_size else None,
                lo_output_size := n_outputs_max, lo_logits_size := logits_size, lo_embd_size := embd_size,
                lo_output_ids := map (\<lambda>_. -1) (lo_output_ids c),
                lo_buf_output := Some (map (\<lambda>_. 0) b),
                lo_n_outputs := 0\<rparr>))"

section \<open>Handing out rows\<close>

text \<open>The checks of the accessors end in an abort of a debug build and in a null pointer of a release
  build. The offset is a 32-bit product.\<close>

definition bad_index :: "bool \<Rightarrow> nat option res" where
  "bad_index ndebug = (if ndebug then Inr None else Inl GgmlAbort)"

definition get_row :: "bool \<Rightarrow> nat option \<Rightarrow> nat \<Rightarrow> ('f, 'z) llama_outputs_scheme \<Rightarrow> int \<Rightarrow> nat option res" where
  "get_row ndebug ptr width c i =
     (case ptr of
        None \<Rightarrow> bad_index ndebug
      | Some base \<Rightarrow>
          if i < 0 \<and> lo_n_outputs c + i < 0 then bad_index ndebug
          else if 0 \<le> i \<and> length (lo_output_ids c) \<le> nat i then bad_index ndebug
          else let j = (if i < 0 then lo_n_outputs c + i else lo_output_ids c ! nat i) in
               if j < 0 then bad_index ndebug
               else if lo_n_outputs c \<le> j then bad_index ndebug
               else Inr (Some (base + u32 (nat j * width))))"

definition llama_get_logits_ith :: "bool \<Rightarrow> llama_hparams \<Rightarrow> ('f, 'z) llama_outputs_scheme \<Rightarrow> int \<Rightarrow> nat option res" where
  "llama_get_logits_ith ndebug hp c i = get_row ndebug (lo_logits c) (hp_n_vocab hp) c i"

definition llama_get_embeddings_ith :: "bool \<Rightarrow> llama_hparams \<Rightarrow> ('f, 'z) llama_outputs_scheme \<Rightarrow> int \<Rightarrow> nat option res" where
  "llama_get_embeddings_ith ndebug hp c i = get_row ndebug (lo_embd c) (hp_n_embd hp) c i"

definition llama_get_embeddings_seq :: "('f, 'z) llama_outputs_scheme \<Rightarrow> int \<Rightarrow> 'f list option" where
  "llama_get_embeddings_seq c seq_id = lo_embd_seq c seq_id"

section \<open>Reordering\<close>

definition j_min :: "nat list \<Rightarrow> nat \<Rightarrow> nat \<Rightarrow> nat" where
  "j_min out_ids n i = fold (\<lambda>j m. if out_ids ! j < out_ids ! m then j else m) [Suc i..<n] i"

definition list_swap :: "'a list \<Rightarrow> nat \<Rightarrow> nat \<Rightarrow> 'a list" where
  "list_swap xs i j = xs[i := xs ! j, j := xs ! i]"

text \<open>Swapping row \<open>i\<close> with row \<open>j\<close>, float by float; the offsets are 32-bit values.\<close>

definition swap_rows :: "nat \<Rightarrow> nat \<Rightarrow> nat \<Rightarrow> nat \<Rightarrow> 'f list \<Rightarrow> 'f list res" where
  "swap_rows base width i j buf =
     rfold (\<lambda>k buf. let a = base + u32 (u32 (i * width) + k); b = base + u32 (u32 (j * width) + k) in
         rbind (rguard (a < length buf \<and> b < length buf) OutOfBounds) (\<lambda>_. Inr (list_swap buf a b)))
       [0..<width] buf"

definition swap_at :: "nat \<Rightarrow> nat option \<Rightarrow> nat \<Rightarrow> nat \<Rightarrow> nat \<Rightarrow> 'f list option \<Rightarrow> 'f list option res" where
  "swap_at sz ptr width i j buf =
     (if sz > 0
      then rbind (deref ptr) (\<lambda>base. rbind (deref buf) (\<lambda>b. rbind (swap_rows base width i j b) (\<lambda>b. Inr (Some b))))
      else Inr buf)"

definition reorder_step :: "llama_hparams \<Rightarrow> ('f, 'z) llama_outputs_scheme \<Rightarrow> nat \<Rightarrow> nat \<Rightarrow> nat list \<times> 'f list option
    \<Rightarrow> (nat list \<times> 'f list option) res" where
  "reorder_step hp c n i s =
     (case s of (ids, buf) \<Rightarrow>
      let j = j_min ids n i in
      if j = i then Inr (ids, buf)
      else rbind (swap_at (lo_logits_size c) (lo_logits c) (hp_n_vocab hp) i j buf) (\<lambda>buf.
           rbind (swap_at (lo_embd_size c) (lo_embd c) (hp_n_embd hp) i j buf) (\<lambda>buf.
           Inr (list_swap ids i j, buf))))"

definition set_output_ids :: "nat list \<Rightarrow> int list \<Rightarrow> int list res" where
  "set_output_ids out_ids ids = rfold (\<lambda>i ids. rupd ids (out_ids ! i) (int i)) [0..<length out_ids] ids"

definition llama_output_reorder :: "llama_hparams \<Rightarrow> ('f, 'z) llama_outputs_scheme \<Rightarrow> ('f, 'z) llama_outputs_scheme res" where
  "llama_output_reorder hp c =
     (let out_ids = sb_out_ids (lo_sbatch c) in
      if out_ids = [] then Inr c
      else rbind (rguard (lo_n_outputs c = int (length out_ids)) GgmlAssert) (\<lambda>_.
           rbind (rfold (reorder_step hp c (length out_ids)) [0..<length out_ids - 1] (out_ids, lo_buf_output c)) (\<lambda>(ids, buf).
           rbind (set_output_ids ids (map (\<lambda>_. -1) (lo_output_ids c))) (\<lambda>oids.
           Inr (c\<lparr>lo_buf_output := buf, lo_output_ids := oids, lo_sbatch := (lo_sbatch c)\<lparr>sb_out_ids := []\<rparr>\<rparr>)))))"

definition llama_get_logits :: "llama_hparams \<Rightarrow> ('f, 'z) llama_outputs_scheme \<Rightarrow> (nat option \<times> ('f, 'z) llama_outputs_scheme) res" where
  "llama_get_logits hp c = rbind (llama_output_reorder hp c) (\<lambda>c. Inr (lo_logits c, c))"

definition llama_get_embeddings :: "llama_hparams \<Rightarrow> ('f, 'z) llama_outputs_scheme \<Rightarrow> (nat option \<times> ('f, 'z) llama_outputs_scheme) res" where
  "llama_get_embeddings hp c = rbind (llama_output_reorder hp c) (\<lambda>c. Inr (lo_embd c, c))"

section \<open>The selection sort\<close>

lemma list_swap_simps [simp]:
  "length (list_swap xs i j) = length xs"
  "i < length xs \<Longrightarrow> j < length xs \<Longrightarrow> k < length xs \<Longrightarrow> list_swap xs i j ! k = (if k = i then xs ! j else if k = j then xs ! i else xs ! k)"
  by (auto simp: list_swap_def nth_list_update)

lemma mset_list_swap [simp]: "i < length xs \<Longrightarrow> j < length xs \<Longrightarrow> mset (list_swap xs i j) = mset xs"
  unfolding list_swap_def by (rule mset_swap)

text \<open>Row \<open>r\<close> of an array of rows that starts at \<open>base\<close>.\<close>

definition row_at :: "nat \<Rightarrow> nat \<Rightarrow> nat \<Rightarrow> 'f list \<Rightarrow> 'f list" where
  "row_at base width r buf = take width (drop (base + r * width) buf)"

lemma row_at_cong:
  assumes "length b = length b'" "\<And>p. base + r * w \<le> p \<Longrightarrow> p < base + r * w + w \<Longrightarrow> p < length b \<Longrightarrow> b ! p = b' ! p"
  shows "row_at base w r b = row_at base w r b'"
  unfolding row_at_def by (rule nth_equalityI) (use assms in auto)

text \<open>What \<open>k\<close> iterations of the loop that swaps the blocks at \<open>A\<close> and \<open>B\<close> have done to offset \<open>p\<close>.\<close>

definition swapped_upto :: "nat \<Rightarrow> nat \<Rightarrow> nat \<Rightarrow> nat \<Rightarrow> nat" where
  "swapped_upto A B k p = (if A \<le> p \<and> p < A + k then p + B - A else if B \<le> p \<and> p < B + k then p + A - B else p)"

lemma swapped_upto_Suc:
  "k < w \<Longrightarrow> A + w \<le> B \<or> B + w \<le> A \<Longrightarrow> swapped_upto A B (Suc k) p =
     (if p = A + k then swapped_upto A B k (B + k) else if p = B + k then swapped_upto A B k (A + k) else swapped_upto A B k p)"
  unfolding swapped_upto_def by (cases "p = A + k"; cases "p = B + k") auto

lemma row_bound: "i < n \<Longrightarrow> i * w + w \<le> n * (w :: nat)"
  by (metis Suc_leI mult_Suc add.commute mult_le_mono1)

lemma row_at_length: "r < n \<Longrightarrow> base + n * w \<le> length buf \<Longrightarrow> length (row_at base w r buf) = w"
  using row_bound [of r n w] by (simp add: row_at_def)

lemma rows_disjoint: "i \<noteq> j \<Longrightarrow> i * w + w \<le> j * w \<or> j * w + w \<le> i * (w :: nat)"
  using row_bound [of i j w] row_bound [of j i w] by (cases i j rule: linorder_cases) auto

lemma swap_rows_blocks:
  assumes ij: "i < n" "j < n" "i \<noteq> j" and room: "base + n * w \<le> length buf" and small: "n * w < 2 ^ 32"
  shows "\<exists>buf'. swap_rows base w i j buf = Inr buf' \<and> length buf' = length buf \<and>
    (\<forall>p < length buf. buf' ! p = buf ! swapped_upto (base + i * w) (base + j * w) w p)"
proof -
  define A B where "A = base + i * w" and "B = base + j * w"
  note b = row_bound [OF ij(1), of w] row_bound [OF ij(2), of w]
  have d: "A + w \<le> B \<or> B + w \<le> A" using rows_disjoint [OF ij(3), of w] unfolding A_def B_def by linarith
  let ?P = "\<lambda>k b. length b = length buf \<and> (\<forall>p < length buf. b ! p = buf ! swapped_upto A B k p)"
  have "\<exists>b. swap_rows base w i j buf = Inr b \<and> ?P w b"
    unfolding swap_rows_def
  proof (rule rfold_upt_inv [where P = ?P])
    show "?P 0 buf" by (auto simp: swapped_upto_def)
  next
    fix k c assume k: "k < w" and c: "?P k c"
    have u: "u32 (i * w) = i * w" "u32 (j * w) = j * w" "u32 (i * w + k) = i * w + k" "u32 (j * w + k) = j * w + k"
      using b k small by simp_all
    have lt: "A + k < length buf" "B + k < length buf" using b k room by (simp_all add: A_def B_def)
    have "?P (Suc k) (list_swap c (A + k) (B + k))" using c lt by (simp add: swapped_upto_Suc [OF k d])
    moreover have "base + (i * w + k) = A + k" "base + (j * w + k) = B + k" by (simp_all add: A_def B_def)
    ultimately show "\<exists>t. (let a = base + u32 (u32 (i * w) + k); b = base + u32 (u32 (j * w) + k)
        in rbind (rguard (a < length c \<and> b < length c) OutOfBounds) (\<lambda>_. Inr (list_swap c a b))) = Inr t \<and> ?P (Suc k) t"
      using c lt by (simp only: u Let_def) simp
  qed
  then show ?thesis unfolding A_def B_def by blast
qed

lemma swap_rows_ok:
  assumes ij: "i < n" "j < n" "i \<noteq> j" and room: "base + n * w \<le> length buf" and small: "n * w < 2 ^ 32"
  shows "\<exists>buf'. swap_rows base w i j buf = Inr buf' \<and> length buf' = length buf \<and>
    (\<forall>p < length buf. p < base \<or> base + n * w \<le> p \<longrightarrow> buf' ! p = buf ! p) \<and>
    (\<forall>r < n. row_at base w r buf' = row_at base w (if r = i then j else if r = j then i else r) buf)"
proof -
  obtain buf' where s: "swap_rows base w i j buf = Inr buf'" "length buf' = length buf"
    "\<And>p. p < length buf \<Longrightarrow> buf' ! p = buf ! swapped_upto (base + i * w) (base + j * w) w p"
    using swap_rows_blocks [OF assms] by blast
  note b = row_bound [OF ij(1), of w] row_bound [OF ij(2), of w] and d = rows_disjoint [OF ij(3), of w]
  have "buf' ! p = buf ! p" if "p < length buf" "p < base \<or> base + n * w \<le> p" for p
  proof -
    have "swapped_upto (base + i * w) (base + j * w) w p = p" unfolding swapped_upto_def using that b by auto
    with s(3) [OF that(1)] show ?thesis by simp
  qed
  moreover have "row_at base w r buf' = row_at base w (if r = i then j else if r = j then i else r) buf" if r: "r < n" for r
  proof -
    let ?r = "if r = i then j else if r = j then i else r"
    have r': "?r < n" using r ij by auto
    have rb: "r * w + w \<le> n * w" "?r * w + w \<le> n * w" using row_bound [OF r] row_bound [OF r'] by auto
    show ?thesis unfolding row_at_def
    proof (rule nth_equalityI)
      show "length (take w (drop (base + r * w) buf')) = length (take w (drop (base + ?r * w) buf))"
        using row_at_length [OF r room] row_at_length [OF r' room] s(2) unfolding row_at_def by simp
      fix k assume "k < length (take w (drop (base + r * w) buf'))"
      then have k: "k < w" "base + r * w + k < length buf" using s(2) by auto
      have "swapped_upto (base + i * w) (base + j * w) w (base + r * w + k) = base + ?r * w + k"
        unfolding swapped_upto_def using rows_disjoint [of r i w] rows_disjoint [of r j w] k(1) d by auto
      then show "take w (drop (base + r * w) buf') ! k = take w (drop (base + ?r * w) buf) ! k"
        using s(3) [OF k(2)] k rb room s(2) by simp
    qed
  qed
  ultimately show ?thesis using s(1,2) by blast
qed


text \<open>The inner loop finds a least element; the outer one sorts.\<close>

lemma j_min_ok:
  assumes "i < n"
  shows "i \<le> j_min ids n i \<and> j_min ids n i < n \<and> (\<forall>k. i \<le> k \<longrightarrow> k < n \<longrightarrow> ids ! j_min ids n i \<le> ids ! k)"
  using Suc_leI [OF assms]
proof (induction rule: nat_induct_at_least)
  case base
  then show ?case by (auto simp: j_min_def le_less_Suc_eq)
next
  case (Suc n)
  then show ?case by (fastforce simp: j_min_def less_Suc_eq)
qed

definition sorted_upto :: "nat \<Rightarrow> nat list \<Rightarrow> bool" where
  "sorted_upto i ids \<longleftrightarrow> (\<forall>a < i. \<forall>b < length ids. a < b \<longrightarrow> ids ! a \<le> ids ! b)"

lemma sorted_upto_step:
  assumes "sorted_upto i ids" "i < length ids"
  shows "sorted_upto (Suc i) (list_swap ids i (j_min ids (length ids) i))"
proof -
  let ?j = "j_min ids (length ids) i"
  note j = j_min_ok [OF assms(2), of ids]
  show ?thesis unfolding sorted_upto_def
  proof (intro allI impI)
    fix a b assume a: "a < Suc i" and b: "b < length (list_swap ids i ?j)" "a < b"
    show "list_swap ids i ?j ! a \<le> list_swap ids i ?j ! b"
    proof (cases "a = i")
      case True
      then show ?thesis using j b assms(2) by (auto simp: le_less)
    next
      case False
      then have "a < i" using a by simp
      then show ?thesis using assms j b unfolding sorted_upto_def by auto
    qed
  qed
qed

lemma sorted_upto_end: "sorted_upto (length ids - 1) ids \<Longrightarrow> sorted ids"
  by (auto simp: sorted_upto_def sorted_iff_nth_mono_less)

section \<open>The rows of a batch\<close>

text \<open>\<open>out\<close> lists the tokens of the rows in the order of the buffer. \<open>maps_rows\<close>: \<open>output_ids\<close> is its
  inverse, with \<open>-1\<close> for tokens without a row.\<close>

definition maps_rows :: "nat list \<Rightarrow> int list \<Rightarrow> bool" where
  "maps_rows out ids \<longleftrightarrow> (\<forall>k < length out. out ! k < length ids \<and> ids ! (out ! k) = int k) \<and>
     (\<forall>t < length ids. t \<notin> set out \<longrightarrow> ids ! t = -1)"

text \<open>An array of rows lies in the buffer.\<close>

definition rows_fit :: "nat \<Rightarrow> nat \<Rightarrow> nat option \<Rightarrow> nat \<Rightarrow> 'f list \<Rightarrow> bool" where
  "rows_fit n sz ptr w buf \<longleftrightarrow>
     (sz > 0 \<longrightarrow> ptr \<noteq> None) \<and> (\<forall>base. ptr = Some base \<longrightarrow> base + n * w \<le> length buf \<and> n * w < 2 ^ 32 \<and> (0 < sz \<or> w = 0))"

lemma rows_fit_mono: "rows_fit m sz ptr w buf \<Longrightarrow> n \<le> m \<Longrightarrow> rows_fit n sz ptr w buf"
proof -
  assume r: "rows_fit m sz ptr w buf" and n: "n \<le> m"
  have "n * w \<le> m * w" using n by simp
  then have "base + n * w \<le> length buf \<and> n * w < 2 ^ 32" if "base + m * w \<le> length buf" "m * w < 2 ^ 32" for base using that by linarith
  with r show ?thesis unfolding rows_fit_def by blast
qed

definition outputs_ok :: "llama_hparams \<Rightarrow> nat list \<Rightarrow> ('f, 'z) llama_outputs_scheme \<Rightarrow> bool" where
  "outputs_ok hp out c \<longleftrightarrow> lo_n_outputs c = int (length out) \<and> maps_rows out (lo_output_ids c) \<and>
     (sb_out_ids (lo_sbatch c) = out \<or> sb_out_ids (lo_sbatch c) = [] \<and> sorted out) \<and>
     (\<exists>buf. lo_buf_output c = Some buf \<and> rows_fit (length out) (lo_logits_size c) (lo_logits c) (hp_n_vocab hp) buf \<and>
        rows_fit (length out) (lo_embd_size c) (lo_embd c) (hp_n_embd hp) buf) \<and>
     (\<forall>l e. lo_logits c = Some l \<longrightarrow> lo_embd c = Some e \<longrightarrow> l + length out * hp_n_vocab hp \<le> e)"

lemma maps_rows_distinct: "maps_rows out ids \<Longrightarrow> distinct out"
  unfolding maps_rows_def distinct_conv_nth by (metis of_nat_eq_iff)

lemma set_output_ids_ok:
  assumes "distinct out" "\<forall>t \<in> set out. t < L"
  shows "\<exists>ids. set_output_ids out (replicate L (-1)) = Inr ids \<and> length ids = L \<and> maps_rows out ids"
proof -
  let ?P = "\<lambda>n ids. length ids = L \<and> maps_rows (take n out) ids"
  have "\<exists>ids. rfold (\<lambda>i ids. rupd ids (out ! i) (int i)) [0..<length out] (replicate L (-1)) = Inr ids \<and> ?P (length out) ids"
  proof (rule rfold_upt_inv)
    show "?P 0 (replicate L (-1))" by (simp add: maps_rows_def)
  next
    fix i ids assume i: "i < length out" and P: "?P i ids"
    have t: "out ! i < L" using i assms(2) by simp
    have "out ! i \<noteq> out ! k" if "k < i" for k using that i assms(1) by (auto simp: distinct_conv_nth)
    then have "maps_rows (take (Suc i) out) (ids[out ! i := int i])"
      using P i t unfolding maps_rows_def by (auto simp: less_Suc_eq take_Suc_conv_app_nth nth_append nth_list_update)
    with P t show "\<exists>t. rupd ids (out ! i) (int i) = Inr t \<and> ?P (Suc i) t" by simp
  qed
  then show ?thesis unfolding set_output_ids_def by auto
qed

text \<open>What a client reads through the pointer it gets.\<close>

definition read_row :: "('f, 'z) llama_outputs_scheme \<Rightarrow> nat \<Rightarrow> nat option res \<Rightarrow> 'f list option" where
  "read_row c w r = (case r of Inr (Some p) \<Rightarrow> map_option (\<lambda>buf. take w (drop p buf)) (lo_buf_output c) | _ \<Rightarrow> None)"

definition logits_of :: "llama_hparams \<Rightarrow> ('f, 'z) llama_outputs_scheme \<Rightarrow> int \<Rightarrow> 'f list option" where
  "logits_of hp c i = read_row c (hp_n_vocab hp) (llama_get_logits_ith True hp c i)"

definition embeddings_of :: "llama_hparams \<Rightarrow> ('f, 'z) llama_outputs_scheme \<Rightarrow> int \<Rightarrow> 'f list option" where
  "embeddings_of hp c i = read_row c (hp_n_embd hp) (llama_get_embeddings_ith True hp c i)"

lemma get_row_hit:
  assumes "maps_rows out (lo_output_ids c)" "lo_n_outputs c = int (length out)" "length out * w < 2 ^ 32" "k < length out"
  shows "get_row True (Some base) w c (int (out ! k)) = Inr (Some (base + k * w))"
proof -
  have "k * w < 2 ^ 32" using row_bound [OF assms(4), of w] assms(3) by simp
  then show ?thesis using assms unfolding maps_rows_def get_row_def by (auto simp: Let_def)
qed

lemma get_row_miss:
  assumes "maps_rows out (lo_output_ids c)" "lo_n_outputs c = int (length out)" "t \<notin> set out"
  shows "get_row True ptr w c (int t) = Inr None"
  using assms unfolding maps_rows_def get_row_def bad_index_def by (auto split: option.split)

lemma read_rows:
  assumes "maps_rows out (lo_output_ids c)" "lo_n_outputs c = int (length out)" "lo_buf_output c = Some buf" "rows_fit (length out) sz ptr w buf"
  shows "k < length out \<Longrightarrow> read_row c w (get_row True ptr w c (int (out ! k))) = map_option (\<lambda>base. row_at base w k buf) ptr"
    and "t \<notin> set out \<Longrightarrow> read_row c w (get_row True ptr w c (int t)) = None"
proof -
  show "read_row c w (get_row True ptr w c (int (out ! k))) = map_option (\<lambda>base. row_at base w k buf) ptr" if "k < length out"
  proof (cases ptr)
    case None
    then show ?thesis by (simp add: get_row_def bad_index_def read_row_def)
  next
    case (Some base)
    then have "length out * w < 2 ^ 32" using assms(4) by (simp add: rows_fit_def)
    from get_row_hit [OF assms(1,2) this that] Some assms(3) show ?thesis by (simp add: read_row_def row_at_def)
  qed
  show "t \<notin> set out \<Longrightarrow> read_row c w (get_row True ptr w c (int t)) = None"
    using get_row_miss [OF assms(1,2)] by (simp add: read_row_def)
qed


section \<open>Reordering keeps every row\<close>

text \<open>One step of the sort on one of the two arrays, seen through the rows: rows \<open>i\<close> and \<open>j\<close> change
  places, and nothing outside the array changes.\<close>

lemma swap_at_ok:
  assumes fit: "rows_fit n sz ptr w buf" and ij: "i < n" "j < n" "i \<noteq> j"
  shows "\<exists>buf'. swap_at sz ptr w i j (Some buf) = Inr (Some buf') \<and> length buf' = length buf \<and>
    (\<forall>base. ptr = Some base \<longrightarrow>
       (\<forall>p < length buf. p < base \<or> base + n * w \<le> p \<longrightarrow> buf' ! p = buf ! p) \<and>
       (\<forall>r < n. row_at base w r buf' = row_at base w (if r = i then j else if r = j then i else r) buf)) \<and>
    (ptr = None \<longrightarrow> buf' = buf)"
proof (cases "sz > 0")
  case True
  then obtain base where b: "ptr = Some base" "base + n * w \<le> length buf" "n * w < 2 ^ 32" using fit by (auto simp: rows_fit_def)
  from swap_rows_ok [OF ij b(2,3)] True b(1) show ?thesis by (auto simp: swap_at_def deref_def)
next
  case False
  then have "ptr = None \<or> w = 0" using fit by (auto simp: rows_fit_def)
  with False show ?thesis by (auto simp: swap_at_def row_at_def)
qed

text \<open>The rows of an array and the tokens they belong to, as the state of the sort.\<close>

definition rows_of :: "(nat \<Rightarrow> 'f list) \<Rightarrow> nat option \<Rightarrow> nat \<Rightarrow> nat list \<Rightarrow> 'f list \<Rightarrow> bool" where
  "rows_of R ptr w ids buf \<longleftrightarrow> (\<forall>base. ptr = Some base \<longrightarrow> (\<forall>k < length ids. row_at base w k buf = R (ids ! k)))"

lemma rows_of_swap:
  assumes "rows_of R ptr w ids buf" "i < length ids" "j < length ids"
    and "\<forall>base. ptr = Some base \<longrightarrow> (\<forall>r < length ids. row_at base w r buf' = row_at base w (if r = i then j else if r = j then i else r) buf)"
  shows "rows_of R ptr w (list_swap ids i j) buf'"
  using assms by (auto simp: rows_of_def)

lemma rows_of_frame:
  assumes "rows_of R ptr w ids buf" "length buf' = length buf"
    and "\<And>base p. ptr = Some base \<Longrightarrow> base \<le> p \<Longrightarrow> p < base + length ids * w \<Longrightarrow> p < length buf \<Longrightarrow> buf' ! p = buf ! p"
  shows "rows_of R ptr w ids buf'"
  unfolding rows_of_def
proof (intro allI impI)
  fix base k assume b: "ptr = Some base" and k: "k < length ids"
  have "row_at base w k buf' = row_at base w k buf"
    by (rule row_at_cong) (use assms(2,3) b row_bound [OF k, of w] in auto)
  with assms(1) b k show "row_at base w k buf' = R (ids ! k)" by (simp add: rows_of_def)
qed

definition sort_state :: "llama_hparams \<Rightarrow> ('f, 'z) llama_outputs_scheme \<Rightarrow> (nat \<Rightarrow> 'f list) \<Rightarrow> (nat \<Rightarrow> 'f list) \<Rightarrow> nat list \<Rightarrow> nat
    \<Rightarrow> nat \<Rightarrow> nat list \<times> 'f list option \<Rightarrow> bool" where
  "sort_state hp c RL RE out len i s \<longleftrightarrow> (\<exists>buf. snd s = Some buf \<and> length buf = len \<and> mset (fst s) = mset out \<and> sorted_upto i (fst s) \<and>
     rows_of RL (lo_logits c) (hp_n_vocab hp) (fst s) buf \<and> rows_of RE (lo_embd c) (hp_n_embd hp) (fst s) buf)"

lemma rows_fit_length: "rows_fit n sz ptr w b \<Longrightarrow> length b' = length b \<Longrightarrow> rows_fit n sz ptr w b'"
  by (simp add: rows_fit_def)

lemma reorder_step_ok:
  assumes ok: "outputs_ok hp out c" "lo_buf_output c = Some buf0" and i: "i < length out - 1"
    and st: "sort_state hp c RL RE out (length buf0) i s"
  shows "\<exists>t. reorder_step hp c (length out) i s = Inr t \<and> sort_state hp c RL RE out (length buf0) (Suc i) t"
proof -
  let ?n = "length out"
  obtain ids buf where s: "s = (ids, Some buf)" and len: "length buf = length buf0" and ms: "mset ids = mset out"
    and srt: "sorted_upto i ids" and rl: "rows_of RL (lo_logits c) (hp_n_vocab hp) ids buf"
    and re: "rows_of RE (lo_embd c) (hp_n_embd hp) ids buf"
    using st unfolding sort_state_def by (cases s) auto
  have ln: "length ids = ?n" using ms by (metis size_mset)
  have i': "i < ?n" using i by simp
  let ?j = "j_min ids ?n i"
  note j = j_min_ok [OF i', of ids]
  have nxt: "sorted_upto (Suc i) (list_swap ids i ?j)" using sorted_upto_step [OF srt] i' ln by simp
  show ?thesis
  proof (cases "?j = i")
    case True
    then have "list_swap ids i ?j = ids" using i' ln by (simp add: list_swap_def)
    with nxt True s len ms rl re show ?thesis by (simp add: reorder_step_def sort_state_def)
  next
    case False
    have fit: "rows_fit ?n (lo_logits_size c) (lo_logits c) (hp_n_vocab hp) buf" "rows_fit ?n (lo_embd_size c) (lo_embd c) (hp_n_embd hp) buf"
      using ok len unfolding outputs_ok_def by (auto intro: rows_fit_length)
    have jn: "?j < ?n" "i \<noteq> ?j" using j False by auto
    obtain b1 where b1: "swap_at (lo_logits_size c) (lo_logits c) (hp_n_vocab hp) i ?j (Some buf) = Inr (Some b1)" "length b1 = length buf"
      "\<forall>base. lo_logits c = Some base \<longrightarrow> (\<forall>p < length buf. p < base \<or> base + ?n * hp_n_vocab hp \<le> p \<longrightarrow> b1 ! p = buf ! p) \<and>
        (\<forall>r < ?n. row_at base (hp_n_vocab hp) r b1 = row_at base (hp_n_vocab hp) (if r = i then ?j else if r = ?j then i else r) buf)"
      "lo_logits c = None \<longrightarrow> b1 = buf"
      using swap_at_ok [OF fit(1) i' jn] by auto
    obtain b2 where b2: "swap_at (lo_embd_size c) (lo_embd c) (hp_n_embd hp) i ?j (Some b1) = Inr (Some b2)" "length b2 = length b1"
      "\<forall>base. lo_embd c = Some base \<longrightarrow> (\<forall>p < length b1. p < base \<or> base + ?n * hp_n_embd hp \<le> p \<longrightarrow> b2 ! p = b1 ! p) \<and>
        (\<forall>r < ?n. row_at base (hp_n_embd hp) r b2 = row_at base (hp_n_embd hp) (if r = i then ?j else if r = ?j then i else r) b1)"
      "lo_embd c = None \<longrightarrow> b2 = b1"
      using swap_at_ok [OF rows_fit_length [OF fit(2) b1(2)] i' jn] by auto
    have apart: "\<And>l e. lo_logits c = Some l \<Longrightarrow> lo_embd c = Some e \<Longrightarrow> l + ?n * hp_n_vocab hp \<le> e" using ok(1) by (simp add: outputs_ok_def)
    have "rows_of RL (lo_logits c) (hp_n_vocab hp) (list_swap ids i ?j) b1"
      by (rule rows_of_swap [OF rl]) (use i' jn ln b1(3) in auto)
    then have "rows_of RL (lo_logits c) (hp_n_vocab hp) (list_swap ids i ?j) b2"
      by (rule rows_of_frame) (use b1(2) b2 apart ln in \<open>cases "lo_embd c"; fastforce\<close>)+
    moreover have "rows_of RE (lo_embd c) (hp_n_embd hp) ids b1"
      by (rule rows_of_frame [OF re]) (use b1 apart ln in \<open>cases "lo_logits c"; fastforce\<close>)+
    then have "rows_of RE (lo_embd c) (hp_n_embd hp) (list_swap ids i ?j) b2"
      by (rule rows_of_swap) (use i' jn ln b2(3) in auto)
    ultimately show ?thesis
      using False s len ms ln i' jn nxt b1(1,2) b2(1,2) by (simp add: reorder_step_def sort_state_def)
  qed
qed

lemma maps_rows_index: "maps_rows out ids \<Longrightarrow> k < length out \<Longrightarrow> nat (ids ! (out ! k)) = k"
  by (simp add: maps_rows_def)

text \<open>Two contexts that hold the same rows for the same tokens look the same to a client.\<close>

lemma same_rows:
  assumes "maps_rows out (lo_output_ids c)" "lo_n_outputs c = int (length out)" "lo_buf_output c = Some buf"
    and "rows_fit (length out) sz ptr w buf" "rows_of R ptr w out buf"
  shows "read_row c w (get_row True ptr w c (int t)) = (if t \<in> set out then map_option (\<lambda>_. R t) ptr else None)"
proof (cases "t \<in> set out")
  case True
  then obtain k where k: "t = out ! k" "k < length out" by (auto simp: in_set_conv_nth)
  from read_rows(1) [OF assms(1-4) k(2)] True k assms(5) show ?thesis by (cases ptr) (auto simp: rows_of_def)
qed (use read_rows(2) [OF assms(1-4)] in simp)

lemma sort_rows:
  assumes ok: "outputs_ok hp out c" "lo_buf_output c = Some buf"
    and R: "rows_of RL (lo_logits c) (hp_n_vocab hp) out buf" "rows_of RE (lo_embd c) (hp_n_embd hp) out buf"
  shows "\<exists>buf'. rfold (reorder_step hp c (length out)) [0..<length out - 1] (out, Some buf) = Inr (sort out, Some buf') \<and>
    length buf' = length buf \<and> rows_of RL (lo_logits c) (hp_n_vocab hp) (sort out) buf' \<and> rows_of RE (lo_embd c) (hp_n_embd hp) (sort out) buf'"
proof -
  let ?P = "sort_state hp c RL RE out (length buf)"
  have "?P 0 (out, Some buf)" using R by (simp add: sort_state_def sorted_upto_def)
  then obtain s where s: "rfold (reorder_step hp c (length out)) [0..<length out - 1] (out, Some buf) = Inr s" "?P (length out - 1) s"
    using rfold_upt_inv [where P = ?P] reorder_step_ok [OF ok] by (metis (no_types, lifting))
  obtain ids buf' where st: "s = (ids, Some buf')" "length buf' = length buf" "mset ids = mset out" "sorted_upto (length out - 1) ids"
    "rows_of RL (lo_logits c) (hp_n_vocab hp) ids buf'" "rows_of RE (lo_embd c) (hp_n_embd hp) ids buf'"
    using s(2) unfolding sort_state_def by (cases s) auto
  have "length ids = length out" using st(3) by (metis size_mset)
  then have "sorted ids" using st(4) sorted_upto_end by simp
  then have "ids = sort out" using st(3) by (metis properties_for_sort)
  with s(1) st show ?thesis by auto
qed

lemma reorder_ok:
  assumes ok: "outputs_ok hp out c"
  shows "\<exists>c'. llama_output_reorder hp c = Inr c' \<and> outputs_ok hp (sort out) c' \<and> sb_out_ids (lo_sbatch c') = [] \<and>
    (\<forall>t. logits_of hp c' (int t) = logits_of hp c (int t) \<and> embeddings_of hp c' (int t) = embeddings_of hp c (int t))"
proof (cases "sb_out_ids (lo_sbatch c) = []")
  case True
  then have "sort out = out" using ok by (auto simp: outputs_ok_def sorted_sort_id)
  with True ok show ?thesis by (simp add: llama_output_reorder_def)
next
  case False
  then have out: "sb_out_ids (lo_sbatch c) = out" "out \<noteq> []" "lo_n_outputs c = int (length out)" "maps_rows out (lo_output_ids c)"
    using ok by (auto simp: outputs_ok_def)
  obtain buf where buf: "lo_buf_output c = Some buf"
    and fit: "rows_fit (length out) (lo_logits_size c) (lo_logits c) (hp_n_vocab hp) buf" "rows_fit (length out) (lo_embd_size c) (lo_embd c) (hp_n_embd hp) buf"
    using ok by (auto simp: outputs_ok_def)
  define R where "R = (\<lambda>ptr w t. row_at (the ptr) w (nat (lo_output_ids c ! t)) buf)"
  have R: "rows_of (R ptr w) ptr w out buf" for ptr w using maps_rows_index [OF out(4)] by (simp add: rows_of_def R_def)
  obtain buf' where s: "rfold (reorder_step hp c (length out)) [0..<length out - 1] (out, Some buf) = Inr (sort out, Some buf')"
    "length buf' = length buf" and rl: "rows_of (R (lo_logits c) (hp_n_vocab hp)) (lo_logits c) (hp_n_vocab hp) (sort out) buf'"
    and re: "rows_of (R (lo_embd c) (hp_n_embd hp)) (lo_embd c) (hp_n_embd hp) (sort out) buf'"
    using sort_rows [OF ok buf R R] by blast
  have "\<forall>t \<in> set (sort out). t < length (lo_output_ids c)" using out(4) by (auto simp: maps_rows_def in_set_conv_nth)
  then obtain ids where ids: "set_output_ids (sort out) (replicate (length (lo_output_ids c)) (-1)) = Inr ids" "maps_rows (sort out) ids"
    using set_output_ids_ok [of "sort out"] maps_rows_distinct [OF out(4)] by auto
  define c' where "c' = c\<lparr>lo_buf_output := Some buf', lo_output_ids := ids, lo_sbatch := (lo_sbatch c)\<lparr>sb_out_ids := []\<rparr>\<rparr>"
  have run: "llama_output_reorder hp c = Inr c'"
    using out s(1) ids(1) buf by (simp add: llama_output_reorder_def Let_def map_replicate_const c'_def)
  have fit': "rows_fit (length out) (lo_logits_size c) (lo_logits c) (hp_n_vocab hp) buf'" "rows_fit (length out) (lo_embd_size c) (lo_embd c) (hp_n_embd hp) buf'"
    using fit s(2) rows_fit_length by blast+
  have "outputs_ok hp (sort out) c'" using ok ids(2) fit' by (simp add: outputs_ok_def c'_def)
  moreover have "logits_of hp c' (int t) = logits_of hp c (int t)" for t
    unfolding logits_of_def llama_get_logits_ith_def same_rows [OF out(4,3) buf fit(1) R]
    using same_rows [of "sort out" c' buf'] ids(2) out(3) fit'(1) rl by (simp add: c'_def)
  moreover have "embeddings_of hp c' (int t) = embeddings_of hp c (int t)" for t
    unfolding embeddings_of_def llama_get_embeddings_ith_def same_rows [OF out(4,3) buf fit(2) R]
    using same_rows [of "sort out" c' buf'] ids(2) out(3) fit'(2) re by (simp add: c'_def)
  ultimately show ?thesis using run by (auto simp: c'_def)
qed

section \<open>Reserving makes room\<close>

text \<open>If the backend gives at least what it is asked for, there is room for the rows, and the logits
  end before the embeddings begin.\<close>

lemma reserve_ok:
  assumes alloc: "\<And>sz. \<exists>k. alloc sz = Some k \<and> sz \<le> k"
    and m: "m = max n (cp_n_seq_max cp)" "0 < m" and small: "m * hp_n_vocab hp < 2 ^ 32" "m * hp_n_embd hp < 2 ^ 32"
  shows "\<exists>c' buf. llama_output_reserve alloc hp cp c n = (m, c') \<and> lo_buf_output c' = Some buf \<and> lo_n_outputs c' = 0 \<and>
    lo_sbatch c' = lo_sbatch c \<and> lo_embd_seq c' = lo_embd_seq c \<and> llama_outputs.more c' = llama_outputs.more c \<and>
    lo_output_ids c' = replicate (if lo_output_ids c = [] then cp_n_batch cp else length (lo_output_ids c)) (-1) \<and>
    rows_fit m (lo_logits_size c') (lo_logits c') (hp_n_vocab hp) buf \<and> rows_fit m (lo_embd_size c') (lo_embd c') (hp_n_embd hp) buf \<and>
    (lo_logits c' \<noteq> None \<longleftrightarrow> cp_causal_attn cp) \<and> (cp_causal_attn cp \<longrightarrow> lo_logits_size c' = m * hp_n_vocab hp) \<and> (lo_embd c' \<noteq> None \<longleftrightarrow> cp_embeddings cp \<and> cp_pooling_type cp = PoolNone) \<and>
    (\<forall>l e. lo_logits c' = Some l \<longrightarrow> lo_embd c' = Some e \<longrightarrow> l + m * hp_n_vocab hp \<le> e)"
proof -
  define ls where "ls = (if cp_causal_attn cp then u64 (hp_n_vocab hp * m) else 0)"
  define es where "es = (if cp_embeddings cp \<and> cp_pooling_type cp = PoolNone then u64 (hp_n_embd hp * m) else 0)"
  have ls: "cp_causal_attn cp \<Longrightarrow> ls = m * hp_n_vocab hp" and es: "cp_embeddings cp \<and> cp_pooling_type cp = PoolNone \<Longrightarrow> es = m * hp_n_embd hp"
    using small by (simp_all add: ls_def es_def mult.commute)
  have le: "ls < 2 ^ 32" "es < 2 ^ 32" using small ls es by (auto simp: ls_def es_def)
  then have sz: "u64 ((ls + es) * 4) = 4 * (ls + es)" by simp
  obtain k where k: "alloc (4 * (ls + es)) = Some k" "4 * (ls + es) \<le> k" using alloc by blast
  define c1 where "c1 = (if lo_output_ids c = [] then c\<lparr>lo_output_ids := replicate (cp_n_batch cp) 0\<rparr> else c)"
  define fresh where "fresh = (lo_buf_output c = None \<or> (case lo_buf_output c of Some b \<Rightarrow> 4 * length b | None \<Rightarrow> 0) < 4 * (ls + es))"
  define c2 where "c2 = (if fresh then (if lo_buf_output c \<noteq> None then c1\<lparr>lo_logits := None, lo_embd := None\<rparr> else c1)\<lparr>lo_buf_output := Some (replicate (k div 4) 0)\<rparr> else c1)"
  have c1: "lo_buf_output c1 = lo_buf_output c" by (simp add: c1_def)
  obtain b where b: "lo_buf_output c2 = Some b" "ls + es \<le> length b"
  proof -
    have "lo_buf_output c2 = (if fresh then Some (replicate (k div 4) 0) else lo_buf_output c)" by (simp add: c2_def c1)
    moreover have "ls + es \<le> k div 4" using k(2) by simp
    ultimately show ?thesis using that by (cases fresh) (auto simp: fresh_def split: option.splits)
  qed
  define c' where "c' = c2\<lparr>lo_logits := if cp_causal_attn cp then Some 0 else None,
    lo_embd := if cp_embeddings cp \<and> cp_pooling_type cp = PoolNone then Some ls else None, lo_output_size := m, lo_logits_size := ls, lo_embd_size := es,
    lo_output_ids := map (\<lambda>_. -1) (lo_output_ids c2), lo_buf_output := Some (map (\<lambda>_. 0) b), lo_n_outputs := 0\<rparr>"
  have "llama_output_reserve alloc hp cp c n = (m, c')"
    unfolding llama_output_reserve_def Let_def m(1) [symmetric] ls_def [symmetric] es_def [symmetric] sz c1_def [symmetric] c1
      fresh_def [symmetric] k(1) option.map(2) c2_def [symmetric] b(1) by (simp add: c'_def)
  moreover have "rows_fit m ls (if cp_causal_attn cp then Some 0 else None) (hp_n_vocab hp) b"
    using small(1) ls b(2) m(2) by (auto simp: rows_fit_def ls_def)
  moreover have "rows_fit m es (if cp_embeddings cp \<and> cp_pooling_type cp = PoolNone then Some ls else None) (hp_n_embd hp) b"
    using small(2) es b(2) m(2) by (auto simp: rows_fit_def es_def)
  ultimately show ?thesis using ls rows_fit_length [where b = b and b' = "map (\<lambda>_. 0) b"]
    by (intro exI [of _ c'] exI [of _ "map (\<lambda>_. 0) b"]) (auto simp: c'_def c2_def c1_def map_replicate_const)
qed

section \<open>Properties\<close>

text \<open>C27: Reordering the outputs. \<open>llama_output_reorder\<close> returns, puts the rows into the order of the
  batch, and no client sees a difference: the logits and the embeddings of every token are the ones it
  had before, and a token without a row still has none. Afterwards row \<open>k\<close> of the buffer is the row of
  the \<open>k\<close>-th token that asked for one.\<close>

theorem reorder_keeps_rows:
  assumes "outputs_ok hp out c"
  shows "\<exists>c' buf. llama_output_reorder hp c = Inr c' \<and> lo_buf_output c' = Some buf \<and> outputs_ok hp (sort out) c' \<and>
    (\<forall>t. logits_of hp c' (int t) = logits_of hp c (int t) \<and> embeddings_of hp c' (int t) = embeddings_of hp c (int t)) \<and>
    (\<forall>k < length out. logits_of hp c (int (sort out ! k)) = map_option (\<lambda>base. row_at base (hp_n_vocab hp) k buf) (lo_logits c'))"
proof -
  obtain c' where c': "llama_output_reorder hp c = Inr c'" "outputs_ok hp (sort out) c'"
    "\<And>t. logits_of hp c' (int t) = logits_of hp c (int t)" "\<And>t. embeddings_of hp c' (int t) = embeddings_of hp c (int t)"
    using reorder_ok [OF assms] by blast
  obtain buf where buf: "lo_buf_output c' = Some buf" "rows_fit (length (sort out)) (lo_logits_size c') (lo_logits c') (hp_n_vocab hp) buf"
    using c'(2) by (auto simp: outputs_ok_def)
  have "logits_of hp c' (int (sort out ! k)) = map_option (\<lambda>base. row_at base (hp_n_vocab hp) k buf) (lo_logits c')" if "k < length out" for k
    unfolding logits_of_def llama_get_logits_ith_def
    by (rule read_rows(1) [OF _ _ buf]) (use c'(2) that in \<open>auto simp: outputs_ok_def\<close>)
  with c' buf(1) show ?thesis by auto
qed

definition demo_outputs :: "nat list \<Rightarrow> int llama_outputs" where
  "demo_outputs buf = \<lparr>lo_sbatch = \<lparr>sb_n_tokens = 0, sb_n_embd = 0, sb_logits_all = False, sb_ids = [], sb_out_ids = [2, 0], sb_seq = [], sb_batch = None,
     ubuf_token = [], ubuf_embd = [], ubuf_pos = [], ubuf_n_seq_id = [], ubuf_seq_id = [], ubuf_output = []\<rparr>,
     lo_buf_output = Some (map int buf), lo_logits_size = 4, lo_logits = Some 0, lo_output_ids = [1, -1, 0], lo_output_size = 2, lo_n_outputs = 2,
     lo_embd_size = 0, lo_embd = None, lo_embd_seq = Map.empty\<rparr>"

text \<open>Two rows of two logits: token 2 came first.\<close>

theorem reorder_keeps_rows_witness:
  "\<exists>c'. llama_output_reorder (hp_of 1 1 1) (demo_outputs [10, 11, 20, 21]) = Inr c' \<and>
     logits_of (hp_of 1 1 1) c' 0 = Some [20, 21] \<and> logits_of (hp_of 1 1 1) c' 1 = None \<and> logits_of (hp_of 1 1 1) c' 2 = Some [10, 11]"
proof -
  have "maps_rows [2, 0] [1, -1, 0]" by (auto simp: maps_rows_def less_Suc_eq numeral_2_eq_2 numeral_3_eq_3)
  then have ok: "outputs_ok (hp_of 1 1 1) [2, 0] (demo_outputs [10, 11, 20, 21])"
    by (simp add: outputs_ok_def demo_outputs_def rows_fit_def hp_of_def)
  have "logits_of (hp_of 1 1 1) (demo_outputs [10, 11, 20, 21]) (int 0) = Some [20, 21]"
    "logits_of (hp_of 1 1 1) (demo_outputs [10, 11, 20, 21]) (int 1) = None"
    "logits_of (hp_of 1 1 1) (demo_outputs [10, 11, 20, 21]) (int 2) = Some [10, 11]"
    by (simp_all add: logits_of_def llama_get_logits_ith_def get_row_def read_row_def bad_index_def demo_outputs_def hp_of_def u32_def)
  with reorder_keeps_rows [OF ok] show ?thesis by (metis of_nat_0 of_nat_1 of_nat_numeral)
qed

text \<open>The offset of a row is a 32-bit product although the buffer may be larger: with a vocabulary of
  \<open>2\<^sup>1\<^sup>7\<close> tokens, row \<open>2\<^sup>1\<^sup>5\<close> is handed out as row 0.\<close>

lemma logits_offset_wraps:
  assumes "hp_n_vocab hp = 131072" "lo_logits c = Some 0" "lo_output_ids c = replicate 32768 (-1) @ [32768]" "lo_n_outputs c = 32769"
  shows "llama_get_logits_ith True hp c 32768 = Inr (Some 0)"
  using assms by (simp add: llama_get_logits_ith_def get_row_def nth_append u32_def)

end
