(* ===== verification/Inputs.thy ===== *)
theory Inputs
  imports KvCache Output
begin

text \<open>
  The inputs of a graph: \<^verbatim>\<open>llama_set_inputs\<close> of \<^verbatim>\<open>llama-context.cpp\<close> fills the tensors the
  graph reads, above all the attention masks, from the micro-batch and the cells of the cache.

  A tensor is the list of its elements, in host memory as the assertions of the code demand; \<open>None\<close>
  is a tensor the graph does not have. Of the floats only three kinds are written, which \<open>flt\<close> names.
\<close>

section \<open>Data\<close>

datatype flt =
    NegInf        \<comment> \<open>\<open>-INFINITY\<close>\<close>
  | OfInt int     \<comment> \<open>the conversion of an integer\<close>
  | Recip nat     \<comment> \<open>\<open>1.0f/float(s)\<close>\<close>

record 'f llama_inputs =
  inp_tokens           :: "int list option"
  inp_embd             :: "nat list option"
  inp_pos              :: "int list option"
  inp_out_ids          :: "int list option"
  inp_KQ_mask          :: "flt list option"
  inp_KQ_mask_swa      :: "flt list option"
  inp_K_shift          :: "int list option"
  inp_mean             :: "flt list option"
  inp_cls              :: "nat list option"
  inp_s_copy           :: "int list option"
  inp_s_mask           :: "flt list option"
  inp_pos_bucket       :: "int list option"
  inp_embd_enc         :: "'f list option"
  inp_KQ_mask_cross    :: "flt list option"
  inp_cross_attn_state :: "nat list option"

text \<open>The context: the outputs, the cache with its rows of keys and values, and the inputs.\<close>

record ('f, 'r) llama_context = "'f llama_outputs" +
  lc_kv_self         :: llama_kv_cache
  lc_rows            :: "'r list"
  lc_inputs          :: "'f llama_inputs"
  lc_n_queued_tokens :: nat
  lc_logits_all      :: bool
  lc_is_encoding     :: bool
  lc_n_pos_per_token :: nat
  lc_embd_enc        :: "'f list"
  lc_seq_ids_enc     :: "int set list"

definition GGML_KQ_MASK_PAD :: nat where
  "GGML_KQ_MASK_PAD = 64"

text \<open>Rounding up to a multiple of a power of two.\<close>

definition ggml_pad :: "nat \<Rightarrow> nat \<Rightarrow> nat" where
  "ggml_pad x n = (x + n - 1) div n * n"

section \<open>Copied inputs\<close>

text \<open>\<open>ggml_backend_tensor_set\<close>: the first \<open>n\<close> elements.\<close>

definition tensor_set :: "'a list option \<Rightarrow> 'a list \<Rightarrow> nat \<Rightarrow> 'a list option res" where
  "tensor_set t src n =
     rbind (deref t) (\<lambda>d.
     rbind (rguard (n \<le> length d) GgmlAssert) (\<lambda>_.
     rbind (rguard (n \<le> length src) OutOfBounds) (\<lambda>_.
     Inr (Some (take n src @ drop n d)))))"

definition set_tokens :: "llama_ubatch \<Rightarrow> 'f llama_inputs \<Rightarrow> 'f llama_inputs res" where
  "set_tokens ub inp =
     (case ub_token ub of
        None \<Rightarrow> Inr inp
      | Some ts \<Rightarrow> rbind (tensor_set (inp_tokens inp) ts (ub_n_tokens ub)) (\<lambda>t. Inr (inp\<lparr>inp_tokens := t\<rparr>)))"

definition set_embd :: "llama_hparams \<Rightarrow> llama_ubatch \<Rightarrow> 'f llama_inputs \<Rightarrow> 'f llama_inputs res" where
  "set_embd hp ub inp =
     (case ub_embd ub of
        None \<Rightarrow> Inr inp
      | Some e \<Rightarrow>
          (case inp_cross_attn_state inp of
             Some cas \<Rightarrow>
               rbind (tensor_set (Some cas) e (length cas)) (\<lambda>t.
               rbind (deref (inp_embd inp)) (\<lambda>d.
               Inr (inp\<lparr>inp_cross_attn_state := t, inp_embd := Some (map (\<lambda>_. 0) d)\<rparr>)))
           | None \<Rightarrow> rbind (tensor_set (inp_embd inp) e (ub_n_tokens ub * hp_n_embd hp)) (\<lambda>t. Inr (inp\<lparr>inp_embd := t\<rparr>))))"

definition set_pos :: "nat \<Rightarrow> llama_ubatch \<Rightarrow> 'f llama_inputs \<Rightarrow> 'f llama_inputs res" where
  "set_pos n_pos ub inp =
     (case (ub_pos ub, inp_pos inp) of
        (Some ps, Some t) \<Rightarrow> rbind (tensor_set (Some t) ps (ub_n_tokens ub * n_pos)) (\<lambda>t. Inr (inp\<lparr>inp_pos := t\<rparr>))
      | _ \<Rightarrow> Inr inp)"

section \<open>The rows to output\<close>

definition out_ids_data :: "int \<Rightarrow> llama_ubatch \<Rightarrow> int list \<Rightarrow> int list res" where
  "out_ids_data n_outputs ub data =
     (if n_outputs = int (ub_n_tokens ub) then rfold (\<lambda>i d. rupd d i (int i)) [0..<ub_n_tokens ub] data
      else if ub_output ub \<noteq> [] then
        rbind (rfold (\<lambda>i (d, k). rbind (rnth (ub_output ub) i) (\<lambda>o'.
                 if o' \<noteq> 0 then rbind (rupd d k (int i)) (\<lambda>d. Inr (d, Suc k)) else Inr (d, k)))
               [0..<ub_n_tokens ub] (data, 0)) (\<lambda>(d, k).
        rbind (rguard (n_outputs = int k) GgmlAssert) (\<lambda>_. Inr d))
      else if n_outputs = 1 then rupd data 0 (int (ub_n_tokens ub) - 1)
      else rbind (rguard (n_outputs = 0) GgmlAssert) (\<lambda>_. Inr data))"

definition set_out_ids :: "llama_hparams \<Rightarrow> llama_cparams \<Rightarrow> int \<Rightarrow> llama_ubatch \<Rightarrow> 'f llama_inputs \<Rightarrow> 'f llama_inputs res" where
  "set_out_ids hp cp n_outputs ub inp =
     (if hp_causal_attn hp \<or> cp_pooling_type cp = PoolNone then
        case inp_out_ids inp of
          None \<Rightarrow> Inr inp
        | Some d \<Rightarrow> rbind (out_ids_data n_outputs ub d) (\<lambda>d. Inr (inp\<lparr>inp_out_ids := Some d\<rparr>))
      else Inr inp)"

section \<open>Attention masks\<close>

text \<open>What token at \<open>pos\<close> of sequence \<open>seq_id\<close> sees of a cell: nothing, or a bias. The second mask is
  cut off behind a sliding window.\<close>

definition mask_value :: "bool \<Rightarrow> llama_kv_cell \<Rightarrow> int \<Rightarrow> int \<Rightarrow> flt res" where
  "mask_value alibi cell seq_id pos =
     (if \<not> has_seq_id cell seq_id \<or> c_pos cell > pos then Inr NegInf
      else if alibi then rbind (i32_add (c_pos cell) (- pos)) (\<lambda>d. Inr (OfInt (- \<bar>d\<bar>)))
      else Inr (OfInt 0))"

definition swa_value :: "nat \<Rightarrow> llama_kv_cell \<Rightarrow> int \<Rightarrow> flt \<Rightarrow> flt res" where
  "swa_value n_swa cell pos f = rbind (i32_add pos (- c_pos cell)) (\<lambda>d. Inr (if d \<ge> to_i32 n_swa then NegInf else f))"

definition put_opt :: "nat \<Rightarrow> 'a \<Rightarrow> 'a list option \<Rightarrow> 'a list option res" where
  "put_opt k v t = (case t of None \<Rightarrow> Inr None | Some d \<Rightarrow> rbind (rupd d k v) (\<lambda>d. Inr (Some d)))"

definition mask_cell :: "llama_hparams \<Rightarrow> llama_kv_cache \<Rightarrow> int \<Rightarrow> int \<Rightarrow> nat \<Rightarrow> nat \<Rightarrow> flt list option \<times> flt list option
    \<Rightarrow> (flt list option \<times> flt list option) res" where
  "mask_cell hp kv seq_id pos t i st =
     (case st of (data, data_swa) \<Rightarrow>
      rbind (rnth (kv_cells kv) i) (\<lambda>cell.
      rbind (mask_value (hp_use_alibi hp) cell seq_id pos) (\<lambda>f.
      rbind (put_opt (t * kv_n kv + i) f data) (\<lambda>data.
      if data_swa = None then Inr (data, data_swa)
      else rbind (swa_value (hp_n_swa hp) cell pos f) (\<lambda>f.
           rbind (put_opt (t * kv_n kv + i) f data_swa) (\<lambda>data_swa.
           Inr (data, data_swa)))))))"

definition pad_mask :: "nat \<Rightarrow> nat \<Rightarrow> flt list option \<Rightarrow> flt list option res" where
  "pad_mask n_tokens n_kv =
     rfold (\<lambda>t. rfold (\<lambda>j. put_opt (t * n_kv + j) NegInf) [0..<n_kv]) [n_tokens..<ggml_pad n_tokens GGML_KQ_MASK_PAD]"

definition set_causal_mask :: "llama_hparams \<Rightarrow> llama_kv_cache \<Rightarrow> llama_ubatch \<Rightarrow> flt list option \<times> flt list option
    \<Rightarrow> (flt list option \<times> flt list option) res" where
  "set_causal_mask hp kv ub st =
     rbind (rfold (\<lambda>s st.
         rbind (ub_seq ub s 0) (\<lambda>seq_id.
         rfold (\<lambda>j st.
             let t = s * ub_n_seq_tokens ub + j in
             rbind (deref (ub_pos ub)) (\<lambda>ps. rbind (rnth ps t) (\<lambda>pos.
             rfold (mask_cell hp kv seq_id pos t) [0..<kv_n kv] st)))
           [0..<ub_n_seq_tokens ub] st))
       [0..<ub_n_seqs ub] st) (\<lambda>(data, data_swa).
     rbind (pad_mask (ub_n_tokens ub) (kv_n kv) data) (\<lambda>data.
     rbind (pad_mask (ub_n_tokens ub) (kv_n kv) data_swa) (\<lambda>data_swa.
     Inr (data, data_swa))))"

text \<open>Without causal attention a token sees the tokens of the micro-batch that share its sequence.\<close>

definition shares_seq :: "llama_ubatch \<Rightarrow> nat \<Rightarrow> int \<Rightarrow> bool res" where
  "shares_seq ub s0 seq_id =
     rbind (rnth (ub_n_seq_id ub) s0) (\<lambda>n.
     rfold (\<lambda>k found. if found then Inr True else rbind (ub_seq ub s0 k) (\<lambda>x. Inr (x = seq_id))) [0..<nat n] False)"

definition full_value :: "llama_hparams \<Rightarrow> llama_ubatch \<Rightarrow> nat \<Rightarrow> int \<Rightarrow> nat \<Rightarrow> nat \<Rightarrow> flt res" where
  "full_value hp ub s0 seq_id ti tj =
     rbind (shares_seq ub s0 seq_id) (\<lambda>found.
     if \<not> found then Inr NegInf
     else if hp_use_alibi hp then
       rbind (deref (ub_pos ub)) (\<lambda>ps. rbind (rnth ps ti) (\<lambda>pi. rbind (rnth ps tj) (\<lambda>pj.
       rbind (i32_add pi (- pj)) (\<lambda>d. Inr (OfInt (- \<bar>d\<bar>))))))
     else Inr (OfInt 0))"

definition set_full_mask :: "llama_hparams \<Rightarrow> nat \<Rightarrow> llama_ubatch \<Rightarrow> flt list \<Rightarrow> flt list res" where
  "set_full_mask hp n_stride ub data =
     rfold (\<lambda>s1 data.
         rbind (ub_seq ub s1 0) (\<lambda>seq_id.
         rfold (\<lambda>j data.
             let tj = s1 * ub_n_seq_tokens ub + j in
             rbind (rfold (\<lambda>s0 data.
                 rfold (\<lambda>i data.
                     let ti = s0 * ub_n_seq_tokens ub + i in
                     rbind (full_value hp ub s0 seq_id ti tj) (\<lambda>f. rupd data (tj * n_stride + ti) f))
                   [0..<ub_n_seq_tokens ub] data)
               [0..<ub_n_seqs ub] data) (\<lambda>data.
             rfold (\<lambda>i data. rupd data (tj * n_stride + i) NegInf) [ub_n_tokens ub..<n_stride] data))
           [0..<ub_n_seq_tokens ub] data))
       [0..<ub_n_seqs ub] data"

definition set_masks :: "llama_hparams \<Rightarrow> llama_cparams \<Rightarrow> bool \<Rightarrow> llama_kv_cache \<Rightarrow> llama_ubatch \<Rightarrow> 'f llama_inputs \<Rightarrow> 'f llama_inputs res" where
  "set_masks hp cp is_encoding kv ub inp =
     (if inp_KQ_mask inp \<noteq> None \<or> inp_KQ_mask_swa inp \<noteq> None then
        if cp_causal_attn cp \<and> \<not> is_encoding then
          rbind (set_causal_mask hp kv ub (inp_KQ_mask inp, inp_KQ_mask_swa inp)) (\<lambda>(data, data_swa).
          Inr (inp\<lparr>inp_KQ_mask := data, inp_KQ_mask_swa := data_swa\<rparr>))
        else
          rbind (deref (inp_KQ_mask inp)) (\<lambda>data.
          rbind (set_full_mask hp (if hp_causal_attn hp \<and> \<not> is_encoding then kv_n kv else ub_n_tokens ub) ub data) (\<lambda>data.
          Inr (inp\<lparr>inp_KQ_mask := Some data\<rparr>)))
      else Inr inp)"

section \<open>Pooling\<close>

text \<open>A sequence id used as an index of a vector with one element per token.\<close>

definition seq_index :: "llama_ubatch \<Rightarrow> nat \<Rightarrow> nat res" where
  "seq_index ub s =
     rbind (ub_seq ub s 0) (\<lambda>seq_id.
     rbind (rguard (seq_id < int (ub_n_tokens ub)) GgmlAssert) (\<lambda>_.
     rbind (rguard (0 \<le> seq_id) OutOfBounds) (\<lambda>_. Inr (nat seq_id))))"

text \<open>\<open>memset\<close> of the first \<open>n\<close> elements.\<close>

definition clear_first :: "nat \<Rightarrow> 'a \<Rightarrow> 'a list \<Rightarrow> 'a list res" where
  "clear_first n z d = rbind (rguard (n \<le> length d) OutOfBounds) (\<lambda>_. Inr (replicate n z @ drop n d))"

definition mean_data :: "llama_ubatch \<Rightarrow> flt list \<Rightarrow> flt list res" where
  "mean_data ub data =
     (let n = ub_n_tokens ub in
      rbind (clear_first (n * n) (OfInt 0) data) (\<lambda>data.
      rbind (rfold (\<lambda>s sum. rbind (seq_index ub s) (\<lambda>k. Inr (sum[k := sum ! k + ub_n_seq_tokens ub])))
               [0..<ub_n_seqs ub] (replicate n 0)) (\<lambda>sum.
      let dv = map (\<lambda>s. if s > 0 then Recip s else OfInt 0) sum in
      rfold (\<lambda>s data. rbind (seq_index ub s) (\<lambda>k.
          rfold (\<lambda>i data. rupd data (k * n + s * ub_n_seq_tokens ub + i) (dv ! k)) [0..<ub_n_seq_tokens ub] data))
        [0..<ub_n_seqs ub] data)))"

definition cls_data :: "llama_ubatch \<Rightarrow> nat list \<Rightarrow> nat list res" where
  "cls_data ub data =
     rbind (clear_first (ub_n_tokens ub) 0 data) (\<lambda>data.
     rfold (\<lambda>s data. rbind (seq_index ub s) (\<lambda>k.
         rfold (\<lambda>i data.
             let t = s * ub_n_seq_tokens ub + i in
             rbind (deref (ub_pos ub)) (\<lambda>ps. rbind (rnth ps t) (\<lambda>pos.
             if pos = 0 then rupd data k t else Inr data)))
           [0..<ub_n_seq_tokens ub] data))
       [0..<ub_n_seqs ub] data)"

definition last_rows :: "llama_ubatch \<Rightarrow> ((int \<times> int) list) res" where
  "last_rows ub =
     rfold (\<lambda>s l. rbind (seq_index ub s) (\<lambda>k.
         rfold (\<lambda>i l.
             let t = s * ub_n_seq_tokens ub + i in
             rbind (deref (ub_pos ub)) (\<lambda>ps. rbind (rnth ps t) (\<lambda>pos.
             if pos \<ge> fst (l ! k) then rupd l k (pos, int t) else Inr l)))
           [0..<ub_n_seq_tokens ub] l))
       [0..<ub_n_seqs ub] (replicate (ub_n_tokens ub) (-1, -1))"

definition last_data :: "llama_ubatch \<Rightarrow> nat list \<Rightarrow> nat list res" where
  "last_data ub data =
     rbind (clear_first (ub_n_tokens ub) 0 data) (\<lambda>data.
     rbind (last_rows ub) (\<lambda>l.
     rfold (\<lambda>i data. if snd (l ! i) \<ge> 0 then rupd data i (nat (snd (l ! i))) else Inr data) [0..<ub_n_tokens ub] data))"

definition set_pooling :: "llama_cparams \<Rightarrow> llama_ubatch \<Rightarrow> 'f llama_inputs \<Rightarrow> 'f llama_inputs res" where
  "set_pooling cp ub inp =
     (if \<not> cp_embeddings cp then Inr inp
      else case cp_pooling_type cp of
        PoolMean \<Rightarrow> rbind (rguard (inp_mean inp \<noteq> None) GgmlAssert) (\<lambda>_. rbind (deref (inp_mean inp)) (\<lambda>d.
                    rbind (mean_data ub d) (\<lambda>d. Inr (inp\<lparr>inp_mean := Some d\<rparr>))))
      | PoolCls \<Rightarrow> rbind (rguard (inp_cls inp \<noteq> None) GgmlAssert) (\<lambda>_. rbind (deref (inp_cls inp)) (\<lambda>d.
                   rbind (cls_data ub d) (\<lambda>d. Inr (inp\<lparr>inp_cls := Some d\<rparr>))))
      | PoolRank \<Rightarrow> rbind (rguard (inp_cls inp \<noteq> None) GgmlAssert) (\<lambda>_. rbind (deref (inp_cls inp)) (\<lambda>d.
                    rbind (cls_data ub d) (\<lambda>d. Inr (inp\<lparr>inp_cls := Some d\<rparr>))))
      | PoolLast \<Rightarrow> rbind (rguard (inp_cls inp \<noteq> None) GgmlAssert) (\<lambda>_. rbind (deref (inp_cls inp)) (\<lambda>d.
                    rbind (last_data ub d) (\<lambda>d. Inr (inp\<lparr>inp_cls := Some d\<rparr>))))
      | _ \<Rightarrow> Inr inp)"

section \<open>States of recurrent models\<close>

text \<open>Both loops visit the cells between \<open>head\<close> and \<open>head + n\<close> and change their \<open>src\<close>.\<close>

definition s_mask_step :: "nat \<Rightarrow> nat \<Rightarrow> llama_kv_cell list \<times> flt list \<Rightarrow> (llama_kv_cell list \<times> flt list) res" where
  "s_mask_step head i st =
     (case st of (cs, data) \<Rightarrow>
      let cell_id = u32 (i + head) in
      rbind (rnth cs cell_id) (\<lambda>x.
      rbind (rupd data i (OfInt (if c_src x \<ge> 0 then 1 else 0))) (\<lambda>data.
      Inr (if c_src x < 0 then cs[cell_id := x\<lparr>c_src := to_i32 cell_id\<rparr>] else cs, data))))"

definition s_copy_step :: "nat \<Rightarrow> nat \<Rightarrow> nat \<Rightarrow> llama_kv_cell list \<times> int list \<Rightarrow> (llama_kv_cell list \<times> int list) res" where
  "s_copy_step sz head i st =
     (case st of (cs, data) \<Rightarrow>
      let cell_id = u32 (i + head) in
      rbind (rnth cs cell_id) (\<lambda>x.
      let src = (if c_src x < 0 \<or> nat (c_src x) \<ge> sz then to_i32 cell_id else c_src x) in
      rbind (rupd data i src) (\<lambda>data.
      Inr (cs[cell_id := x\<lparr>c_src := to_i32 cell_id\<rparr>], data))))"

definition set_states :: "llama_kv_cache \<Rightarrow> 'f llama_inputs \<Rightarrow> (llama_kv_cache \<times> 'f llama_inputs) res" where
  "set_states kv inp =
     (if kv_recurrent kv then
        rbind (case inp_s_mask inp of
                 None \<Rightarrow> Inr (kv_cells kv, inp)
               | Some d \<Rightarrow> rbind (rfold (s_mask_step (kv_head kv)) [0..<kv_n kv] (kv_cells kv, d)) (\<lambda>(cs, d).
                           Inr (cs, inp\<lparr>inp_s_mask := Some d\<rparr>))) (\<lambda>(cs, inp).
        rbind (case inp_s_copy inp of
                 None \<Rightarrow> Inr (cs, inp)
               | Some d \<Rightarrow> rbind (rfold (s_copy_step (kv_size kv) (kv_head kv)) [0..<kv_n kv] (cs, d)) (\<lambda>(cs, d).
                           Inr (cs, inp\<lparr>inp_s_copy := Some d\<rparr>))) (\<lambda>(cs, inp).
        Inr (kv\<lparr>kv_cells := cs\<rparr>, inp)))
      else Inr (kv, inp))"

definition llama_set_k_shift :: "llama_kv_cache \<Rightarrow> int list \<Rightarrow> int list res" where
  "llama_set_k_shift kv data =
     rfold (\<lambda>i data. rbind (rnth (kv_cells kv) i) (\<lambda>x. rupd data i (c_delta x))) [0..<kv_size kv] data"

definition llama_set_s_copy :: "llama_kv_cache \<Rightarrow> int list \<Rightarrow> int list res" where
  "llama_set_s_copy kv data =
     rfold (\<lambda>i data. rbind (rnth (kv_cells kv) i) (\<lambda>x. rupd data i (c_src x))) [0..<kv_size kv] data"

section \<open>Relative positions and cross attention\<close>

text \<open>The bucket of a large distance is computed with floats: \<open>large\<close> is that computation.\<close>

definition llama_relative_position_bucket :: "(int \<Rightarrow> nat \<Rightarrow> nat \<Rightarrow> int) \<Rightarrow> int \<Rightarrow> int \<Rightarrow> nat \<Rightarrow> bool \<Rightarrow> int res" where
  "llama_relative_position_bucket large x y n_buckets bidirectional =
     (let n_buckets = (if bidirectional then n_buckets div 2 else n_buckets);
          max_exact = n_buckets div 2 in
      rbind (i32_add x (- y)) (\<lambda>rel.
      let bucket = (if bidirectional \<and> rel > 0 then int n_buckets else 0);
          rel = (if bidirectional then \<bar>rel\<bar> else - min rel 0) in
      rbind (rguard (i32_ok rel) SignedOverflow) (\<lambda>_.
      let if_large = min (large rel max_exact n_buckets) (int n_buckets - 1) in
      Inr (bucket + (if rel < int max_exact then rel else if_large)))))"

definition set_pos_bucket :: "(int \<Rightarrow> nat \<Rightarrow> nat \<Rightarrow> int) \<Rightarrow> llama_hparams \<Rightarrow> bool \<Rightarrow> llama_kv_cache \<Rightarrow> llama_ubatch \<Rightarrow> 'f llama_inputs
    \<Rightarrow> 'f llama_inputs res" where
  "set_pos_bucket large hp is_encoding kv ub inp =
     (case inp_pos_bucket inp of
        None \<Rightarrow> Inr inp
      | Some data \<Rightarrow>
          rbind (rguard (\<not> ub_equal_seqs ub) GgmlAssert) (\<lambda>_.
          let n = (if is_encoding then ub_n_tokens ub else kv_n kv) in
          rbind (rfold (\<lambda>j data. rfold (\<lambda>i data.
              rbind (deref (ub_pos ub)) (\<lambda>ps.
              rbind (if is_encoding then rnth ps i else rbind (rnth (kv_cells kv) i) (\<lambda>x. Inr (c_pos x))) (\<lambda>p.
              rbind (rnth ps j) (\<lambda>q.
              rbind (llama_relative_position_bucket large p q (hp_n_rel_attn_bkts hp) is_encoding) (\<lambda>b.
              rupd data (j * n + i) b))))) [0..<n] data) [0..<ub_n_tokens ub] data) (\<lambda>data.
          Inr (inp\<lparr>inp_pos_bucket := Some data\<rparr>))))"

definition set_embd_enc :: "bool \<Rightarrow> 'f list \<Rightarrow> 'f llama_inputs \<Rightarrow> 'f llama_inputs res" where
  "set_embd_enc is_encoding embd_enc inp =
     (case inp_embd_enc inp of
        Some t \<Rightarrow> if is_encoding then Inr inp
                  else rbind (tensor_set (Some t) embd_enc (length t)) (\<lambda>t. Inr (inp\<lparr>inp_embd_enc := t\<rparr>))
      | None \<Rightarrow> Inr inp)"

definition cross_value :: "llama_ubatch \<Rightarrow> int set list \<Rightarrow> nat \<Rightarrow> nat \<Rightarrow> flt res" where
  "cross_value ub seq_ids_enc i j =
     rbind (rnth (ub_n_seq_id ub) j) (\<lambda>n.
     rfold (\<lambda>s f. rbind (ub_seq ub j s) (\<lambda>seq_id. rbind (rnth seq_ids_enc i) (\<lambda>ids. Inr (if seq_id \<in> ids then OfInt 0 else f)))) [0..<nat n] NegInf)"

definition set_cross_mask :: "llama_hparams \<Rightarrow> bool \<Rightarrow> 'f list \<Rightarrow> int set list \<Rightarrow> llama_ubatch \<Rightarrow> 'f llama_inputs \<Rightarrow> 'f llama_inputs res" where
  "set_cross_mask hp is_encoding embd_enc seq_ids_enc ub inp =
     (case inp_KQ_mask_cross inp of
        None \<Rightarrow> Inr inp
      | Some data \<Rightarrow>
          if is_encoding then Inr inp
          else rbind (rguard (hp_n_embd hp \<noteq> 0) DivByZero) (\<lambda>_.
               let n = length embd_enc div hp_n_embd hp in
               rbind (rguard (\<not> ub_equal_seqs ub) GgmlAssert) (\<lambda>_.
               rbind (rfold (\<lambda>j data. rfold (\<lambda>i data.
                   rbind (cross_value ub seq_ids_enc i j) (\<lambda>f. rupd data (j * n + i) f))
                   [0..<n] data) [0..<ub_n_tokens ub] data) (\<lambda>data.
               rbind (pad_mask (ub_n_tokens ub) n (Some data)) (\<lambda>data.
               Inr (inp\<lparr>inp_KQ_mask_cross := data\<rparr>))))))"

section \<open>All inputs\<close>

definition llama_set_inputs :: "(int \<Rightarrow> nat \<Rightarrow> nat \<Rightarrow> int) \<Rightarrow> llama_hparams \<Rightarrow> llama_cparams \<Rightarrow> llama_ubatch \<Rightarrow> ('f, 'r) llama_context
    \<Rightarrow> ('f, 'r) llama_context res" where
  "llama_set_inputs large hp cp ub c =
     rbind (set_tokens ub (lc_inputs c)) (\<lambda>inp.
     rbind (set_embd hp ub inp) (\<lambda>inp.
     rbind (set_pos (lc_n_pos_per_token c) ub inp) (\<lambda>inp.
     rbind (set_out_ids hp cp (lo_n_outputs c) ub inp) (\<lambda>inp.
     rbind (rguard (hp_causal_attn hp \<or> \<not> cp_causal_attn cp) GgmlAssert) (\<lambda>_.
     rbind (set_masks hp cp (lc_is_encoding c) (lc_kv_self c) ub inp) (\<lambda>inp.
     rbind (set_pooling cp ub inp) (\<lambda>inp.
     rbind (set_states (lc_kv_self c) inp) (\<lambda>(kv, inp).
     rbind (set_pos_bucket large hp (lc_is_encoding c) kv ub inp) (\<lambda>inp.
     rbind (set_embd_enc (lc_is_encoding c) (lc_embd_enc c) inp) (\<lambda>inp.
     rbind (set_cross_mask hp (lc_is_encoding c) (lc_embd_enc c) (lc_seq_ids_enc c) ub inp) (\<lambda>inp.
     Inr (c\<lparr>lc_kv_self := kv, lc_inputs := inp\<rparr>))))))))))))"

section \<open>The causal mask\<close>

text \<open>The sequence a token is looked up by, and what the masks should hold.\<close>

definition first_seq :: "llama_ubatch \<Rightarrow> nat \<Rightarrow> int" where
  "first_seq ub t = hd (the (ub_seq_id ub ! (t div ub_n_seq_tokens ub)))"

definition mask_val :: "bool \<Rightarrow> llama_kv_cell \<Rightarrow> int \<Rightarrow> int \<Rightarrow> flt" where
  "mask_val alibi x k p = (if k \<in> c_seq_id x \<and> c_pos x \<le> p then OfInt (if alibi then - \<bar>c_pos x - p\<bar> else 0) else NegInf)"

definition swa_val :: "nat \<Rightarrow> llama_kv_cell \<Rightarrow> int \<Rightarrow> flt \<Rightarrow> flt" where
  "swa_val n_swa x p f = (if p - c_pos x \<ge> to_i32 n_swa then NegInf else f)"

lemma mask_open:
  "mask_val alibi x k p \<noteq> NegInf \<longleftrightarrow> k \<in> c_seq_id x \<and> c_pos x \<le> p"
  "swa_val n_swa x p f \<noteq> NegInf \<longleftrightarrow> f \<noteq> NegInf \<and> p - c_pos x < to_i32 n_swa"
  by (auto simp: mask_val_def swa_val_def)

text \<open>Positions far from the ends of the integers: an empty cell has position \<open>-1\<close>.\<close>

definition pos_ok :: "int \<Rightarrow> bool" where
  "pos_ok p \<longleftrightarrow> -1 \<le> p \<and> p < INT32_MAX"

lemma mask_value_eq:
  "0 \<le> p \<Longrightarrow> p \<le> INT32_MAX \<Longrightarrow> cell_ok x \<Longrightarrow> mask_value alibi x k p = Inr (mask_val alibi x k p)"
  by (auto simp: mask_value_def mask_val_def has_seq_id_def i32_add_def i32_ok_def cell_ok_def INT32_MAX_def)

lemma swa_value_eq: "pos_ok p \<Longrightarrow> pos_ok (c_pos x) \<Longrightarrow> swa_value n_swa x p f = Inr (swa_val n_swa x p f)"
  by (auto simp: swa_value_def swa_val_def i32_add_def i32_ok_def pos_ok_def INT32_MAX_def)

text \<open>The element of the masks at offset \<open>q\<close>, and the state of the loops after \<open>q\<close> writes: the three
  nested loops and the padding write the offsets in ascending order.\<close>

definition mask_elem :: "llama_hparams \<Rightarrow> llama_kv_cache \<Rightarrow> llama_ubatch \<Rightarrow> nat \<Rightarrow> flt" where
  "mask_elem hp kv ub q =
     (let t = q div kv_n kv; i = q mod kv_n kv in
      if t < ub_n_tokens ub then mask_val (hp_use_alibi hp) (kv_cells kv ! i) (first_seq ub t) (tok_pos ub t) else NegInf)"

definition swa_elem :: "llama_hparams \<Rightarrow> llama_kv_cache \<Rightarrow> llama_ubatch \<Rightarrow> nat \<Rightarrow> flt" where
  "swa_elem hp kv ub q =
     (let t = q div kv_n kv; i = q mod kv_n kv in
      if t < ub_n_tokens ub then swa_val (hp_n_swa hp) (kv_cells kv ! i) (tok_pos ub t) (mask_elem hp kv ub q) else NegInf)"

definition masks_upto :: "llama_hparams \<Rightarrow> llama_kv_cache \<Rightarrow> llama_ubatch \<Rightarrow> flt list option \<times> flt list option \<Rightarrow> nat \<Rightarrow> flt list option \<times> flt list option" where
  "masks_upto hp kv ub d q = map_prod (map_option (seq_fill (mask_elem hp kv ub) q)) (map_option (seq_fill (swa_elem hp kv ub) q)) d"

definition mask_room :: "nat \<Rightarrow> flt list option \<Rightarrow> bool" where
  "mask_room n d = (case d of None \<Rightarrow> True | Some l \<Rightarrow> n \<le> length l)"

lemma put_opt_fill: "mask_room n d \<Longrightarrow> q < n \<Longrightarrow> put_opt q (f q) (map_option (seq_fill f q) d) = Inr (map_option (seq_fill f (Suc q)) d)"
  by (cases d) (simp_all add: put_opt_def mask_room_def)

lemma mask_cell_eq:
  assumes room: "mask_room n (fst d)" "mask_room n (snd d)" "t * kv_n kv + i < n" and i: "i < kv_n kv" "kv_n kv \<le> length (kv_cells kv)"
    and t: "t < ub_n_tokens ub" and p: "0 \<le> tok_pos ub t" "tok_pos ub t \<le> INT32_MAX" and cells: "\<forall>x \<in> set (kv_cells kv). cell_ok x"
    and ok: "snd d \<noteq> None \<Longrightarrow> pos_ok (tok_pos ub t) \<and> (\<forall>x \<in> set (kv_cells kv). pos_ok (c_pos x))"
  shows "mask_cell hp kv (first_seq ub t) (tok_pos ub t) t i (masks_upto hp kv ub d (t * kv_n kv + i)) =
    Inr (masks_upto hp kv ub d (Suc (t * kv_n kv + i)))"
proof -
  let ?q = "t * kv_n kv + i" and ?x = "kv_cells kv ! i"
  have q: "?q div kv_n kv = t" "?q mod kv_n kv = i" using i(1) by simp_all
  have x: "?x \<in> set (kv_cells kv)" using i by simp
  have m: "mask_value (hp_use_alibi hp) ?x (first_seq ub t) (tok_pos ub t) = Inr (mask_elem hp kv ub ?q)"
    using mask_value_eq [OF p] x cells t i(1) by (simp add: mask_elem_def Let_def q)
  have s: "swa_value (hp_n_swa hp) ?x (tok_pos ub t) (mask_elem hp kv ub ?q) = Inr (swa_elem hp kv ub ?q)" if "snd d \<noteq> None"
    using swa_value_eq [of "tok_pos ub t" ?x] ok [OF that] x t i(1) by (simp add: swa_elem_def Let_def q)
  show ?thesis
    using put_opt_fill [OF room(1,3), of "mask_elem hp kv ub"] put_opt_fill [OF room(2,3), of "swa_elem hp kv ub"] i m s
    by (cases d; cases "snd d") (simp_all add: mask_cell_def masks_upto_def)
qed

lemma ggml_pad_ge: "0 < k \<Longrightarrow> n \<le> ggml_pad n k"
  using div_mult_mod_eq [of "n + k - 1" k] mod_less_divisor [of k "n + k - 1"] unfolding ggml_pad_def by linarith

lemma mask_pad_ge: "n \<le> ggml_pad n GGML_KQ_MASK_PAD"
  by (rule ggml_pad_ge) (simp add: GGML_KQ_MASK_PAD_def)

lemma pad_mask_eq:
  assumes room: "mask_room (ggml_pad n GGML_KQ_MASK_PAD * m) d" and f: "\<And>q. n \<le> q div m \<Longrightarrow> f q = NegInf"
  shows "pad_mask n m (map_option (seq_fill f (n * m)) d) = Inr (map_option (seq_fill f (ggml_pad n GGML_KQ_MASK_PAD * m)) d)"
proof -
  let ?P = "ggml_pad n GGML_KQ_MASK_PAD"
  have le: "n \<le> ?P" by (rule mask_pad_ge)
  show ?thesis unfolding pad_mask_def
  proof (rule rfold_upt_closed_from [OF le, where g = "\<lambda>t. map_option (seq_fill f (t * m)) d"])
    fix t assume t: "n \<le> t" "t < ?P"
    have "rfold (\<lambda>j. put_opt (t * m + j) NegInf) [0..<m] (map_option (seq_fill f (t * m + 0)) d) = Inr (map_option (seq_fill f (t * m + m)) d)"
    proof (rule rfold_upt_closed)
      fix j assume j: "j < m"
      have "t * m + j < ?P * m" using row_bound [OF t(2), of m] j by simp
      moreover have "f (t * m + j) = NegInf" by (rule f) (use t(1) j in simp)
      ultimately show "put_opt (t * m + j) NegInf (map_option (seq_fill f (t * m + j)) d) = Inr (map_option (seq_fill f (t * m + Suc j)) d)"
        using put_opt_fill [OF room, of "t * m + j" f] by simp
    qed
    then show "rfold (\<lambda>j. put_opt (t * m + j) NegInf) [0..<m] (map_option (seq_fill f (t * m)) d) = Inr (map_option (seq_fill f (Suc t * m)) d)"
      by (simp add: add.commute)
  qed
qed

lemma ub_seq_first:
  assumes "ubatch_ok ub" "s < ub_n_seqs ub" "j < ub_n_seq_tokens ub"
  shows "ub_seq ub s 0 = Inr (first_seq ub (s * ub_n_seq_tokens ub + j))"
proof -
  obtain l where l: "ub_seq_id ub ! s = Some l" "0 < ub_n_seq_id ub ! s" "ub_n_seq_id ub ! s \<le> int (length l)" "s < length (ub_seq_id ub)"
    using assms(1,2) by (fastforce simp: ubatch_ok_def)
  then have "l \<noteq> []" by auto
  with l assms(3) show ?thesis by (simp add: ub_seq_def deref_def first_seq_def hd_conv_nth)
qed

lemma set_causal_mask_eq:
  assumes ok: "ubatch_ok ub" "kv_n kv \<le> length (kv_cells kv)" and cells: "\<forall>x \<in> set (kv_cells kv). cell_ok x"
    and pos: "snd d \<noteq> None \<Longrightarrow> (\<forall>t < ub_n_tokens ub. tok_pos ub t < INT32_MAX) \<and> (\<forall>x \<in> set (kv_cells kv). pos_ok (c_pos x))"
    and room: "mask_room (ggml_pad (ub_n_tokens ub) GGML_KQ_MASK_PAD * kv_n kv) (fst d)" "mask_room (ggml_pad (ub_n_tokens ub) GGML_KQ_MASK_PAD * kv_n kv) (snd d)"
  shows "set_causal_mask hp kv ub d = Inr (masks_upto hp kv ub d (ggml_pad (ub_n_tokens ub) GGML_KQ_MASK_PAD * kv_n kv))"
proof -
  let ?b = "ub_n_seq_tokens ub" and ?m = "kv_n kv" and ?n = "ub_n_tokens ub" and ?P = "ggml_pad (ub_n_tokens ub) GGML_KQ_MASK_PAD"
  let ?st = "masks_upto hp kv ub d"
  have n: "?n = ub_n_seqs ub * ?b" using ok(1) by (simp add: ubatch_ok_def)
  have le: "?n \<le> ?P" by (rule mask_pad_ge)
  obtain ps where ps: "ub_pos ub = Some ps" "?n \<le> length ps" using ok(1) by (auto simp: ubatch_ok_def)
  have row: "rfold (mask_cell hp kv (first_seq ub t) (tok_pos ub t) t) [0..<?m] (?st (t * ?m)) = Inr (?st (Suc t * ?m))" if t: "t < ?n" for t
  proof -
    have p: "snd d \<noteq> None \<Longrightarrow> pos_ok (tok_pos ub t) \<and> (\<forall>x \<in> set (kv_cells kv). pos_ok (c_pos x))"
      using pos t tok_facts(1) [OF ok(1) t] by (simp add: pos_ok_def)
    have "rfold (mask_cell hp kv (first_seq ub t) (tok_pos ub t) t) [0..<?m] (?st (t * ?m + 0)) = Inr (?st (t * ?m + ?m))"
    proof (rule rfold_upt_closed)
      fix i assume i: "i < ?m"
      have "t * ?m + i < ?P * ?m" using row_bound [of t ?P ?m] t le i by simp
      from mask_cell_eq [OF room this i ok(2) t tok_facts(1,2) [OF ok(1) t] cells p]
      show "mask_cell hp kv (first_seq ub t) (tok_pos ub t) t i (?st (t * ?m + i)) = Inr (?st (t * ?m + Suc i))" by simp
    qed
    then show ?thesis by (simp add: add.commute)
  qed
  let ?tok = "\<lambda>s seq_id j st. let t = s * ?b + j in rbind (deref (ub_pos ub)) (\<lambda>ps. rbind (rnth ps t) (\<lambda>pos. rfold (mask_cell hp kv seq_id pos t) [0..<?m] st))"
  have seq: "rbind (ub_seq ub s 0) (\<lambda>seq_id. rfold (?tok s seq_id) [0..<?b] (?st (s * ?b * ?m))) = Inr (?st (Suc s * ?b * ?m))"
    if s: "s < ub_n_seqs ub" for s
  proof -
    obtain l where "ub_seq_id ub ! s = Some l" "0 < ub_n_seq_id ub ! s" "ub_n_seq_id ub ! s \<le> int (length l)" "s < length (ub_seq_id ub)"
      using ok(1) s by (fastforce simp: ubatch_ok_def)
    moreover from calculation have "0 < length l" by linarith
    ultimately obtain k where k: "ub_seq ub s 0 = Inr k" by (simp add: ub_seq_def deref_def)
    have "rfold (?tok s k) [0..<?b] (?st ((s * ?b + 0) * ?m)) = Inr (?st ((s * ?b + ?b) * ?m))"
    proof (rule rfold_upt_closed)
      fix j assume j: "j < ?b"
      have t: "s * ?b + j < ?n" using tok_index(1) [OF s j] n by simp
      have "k = first_seq ub (s * ?b + j)" using ub_seq_first [OF ok(1) s j] k by simp
      with row [OF t] t ps show "?tok s k j (?st ((s * ?b + j) * ?m)) = Inr (?st ((s * ?b + Suc j) * ?m))"
        by (simp add: deref_def tok_pos_def)
    qed
    then show ?thesis by (simp add: k add.commute)
  qed
  have "rfold (\<lambda>s st. rbind (ub_seq ub s 0) (\<lambda>seq_id. rfold (?tok s seq_id) [0..<?b] st)) [0..<ub_n_seqs ub] (?st (0 * ?b * ?m)) =
      Inr (?st (ub_n_seqs ub * ?b * ?m))"
    by (rule rfold_upt_closed) (rule seq)
  moreover have "?st 0 = d" by (cases d; cases "fst d"; cases "snd d") (simp_all add: masks_upto_def)
  ultimately have all: "rfold (\<lambda>s st. rbind (ub_seq ub s 0) (\<lambda>seq_id. rfold (?tok s seq_id) [0..<?b] st)) [0..<ub_n_seqs ub] d = Inr (?st (?n * ?m))"
    using n by simp
  have pads: "pad_mask ?n ?m (map_option (seq_fill (mask_elem hp kv ub) (?n * ?m)) (fst d)) = Inr (map_option (seq_fill (mask_elem hp kv ub) (?P * ?m)) (fst d))"
    "pad_mask ?n ?m (map_option (seq_fill (swa_elem hp kv ub) (?n * ?m)) (snd d)) = Inr (map_option (seq_fill (swa_elem hp kv ub) (?P * ?m)) (snd d))"
    by (rule pad_mask_eq; use room in \<open>simp add: mask_elem_def swa_elem_def Let_def\<close>)+
  show ?thesis unfolding set_causal_mask_def all using pads by (simp add: masks_upto_def map_prod_def split_beta)
qed


text \<open>C28: The causal mask. For a well-formed cache of which \<open>n\<close> covers every occupied cell, the masks of a
  micro-batch are filled without a fault. A token sees exactly the cells that hold its sequence at its
  own or an earlier position, and through the mask of a sliding window those of them that are less
  than \<open>n_swa\<close> positions back. A visible cell is biased by its distance if the model uses ALiBi and not
  at all otherwise, and the rows that pad the mask see nothing.\<close>

theorem causal_mask_exact:
  assumes "kv_wf kv" and "ubatch_ok ub" and "llama_kv_cache_cell_max kv \<le> kv_n kv" and "kv_n kv \<le> kv_size kv"
    and "\<forall>t < ub_n_tokens ub. tok_pos ub t < INT32_MAX" and "\<forall>x \<in> set (kv_cells kv). pos_ok (c_pos x)"
    and "inp_KQ_mask inp = Some d" and "ggml_pad (ub_n_tokens ub) GGML_KQ_MASK_PAD * kv_n kv \<le> length d"
    and "inp_KQ_mask_swa inp = Some w" and "ggml_pad (ub_n_tokens ub) GGML_KQ_MASK_PAD * kv_n kv \<le> length w"
    and "cp_causal_attn cp"
  shows "\<exists>d' w'. set_masks hp cp False kv ub inp = Inr (inp\<lparr>inp_KQ_mask := Some d', inp_KQ_mask_swa := Some w'\<rparr>) \<and>
    (\<forall>t < ub_n_tokens ub.
       {i. i < kv_n kv \<and> d' ! (t * kv_n kv + i) \<noteq> NegInf} = {i. \<exists>p \<le> tok_pos ub t. (first_seq ub t, p, i) \<in> kv_view kv} \<and>
       {i. i < kv_n kv \<and> w' ! (t * kv_n kv + i) \<noteq> NegInf} =
         {i. \<exists>p \<le> tok_pos ub t. (first_seq ub t, p, i) \<in> kv_view kv \<and> tok_pos ub t - p < to_i32 (hp_n_swa hp)} \<and>
       (\<forall>p i. p \<le> tok_pos ub t \<longrightarrow> (first_seq ub t, p, i) \<in> kv_view kv \<longrightarrow>
          d' ! (t * kv_n kv + i) = OfInt (if hp_use_alibi hp then p - tok_pos ub t else 0))) \<and>
    (\<forall>q. ub_n_tokens ub * kv_n kv \<le> q \<longrightarrow> q < ggml_pad (ub_n_tokens ub) GGML_KQ_MASK_PAD * kv_n kv \<longrightarrow> d' ! q = NegInf \<and> w' ! q = NegInf)"
proof -
  let ?m = "kv_n kv" and ?n = "ub_n_tokens ub" and ?P = "ggml_pad (ub_n_tokens ub) GGML_KQ_MASK_PAD"
  define d' w' where "d' = seq_fill (mask_elem hp kv ub) (?P * ?m) d" and "w' = seq_fill (swa_elem hp kv ub) (?P * ?m) w"
  have len: "length (kv_cells kv) = kv_size kv" using assms(1) by (simp add: kv_wf_def)
  have "set_causal_mask hp kv ub (Some d, Some w) = Inr (Some d', Some w')"
    using set_causal_mask_eq [OF assms(2), of kv "(Some d, Some w)" hp] assms(1,4-6,8,10) len
    by (simp add: mask_room_def masks_upto_def d'_def w'_def kv_wf_def)
  then have run: "set_masks hp cp False kv ub inp = Inr (inp\<lparr>inp_KQ_mask := Some d', inp_KQ_mask_swa := Some w'\<rparr>)"
    using assms(7,9,11) by (simp add: set_masks_def)
  have nth: "d' ! (t * ?m + i) = mask_val (hp_use_alibi hp) (kv_cells kv ! i) (first_seq ub t) (tok_pos ub t)"
    "w' ! (t * ?m + i) = swa_val (hp_n_swa hp) (kv_cells kv ! i) (tok_pos ub t) (d' ! (t * ?m + i))" if "t < ?n" "i < ?m" for t i
  proof -
    have "t * ?m + i < ?P * ?m" using row_bound [of t ?P ?m] that mask_pad_ge [of ?n] by simp
    then show "d' ! (t * ?m + i) = mask_val (hp_use_alibi hp) (kv_cells kv ! i) (first_seq ub t) (tok_pos ub t)"
      "w' ! (t * ?m + i) = swa_val (hp_n_swa hp) (kv_cells kv ! i) (tok_pos ub t) (d' ! (t * ?m + i))"
      using that by (simp_all add: d'_def w'_def mask_elem_def swa_elem_def Let_def)
  qed
  have below: "i < ?m" if "(k, p, i) \<in> kv_view kv" for k p i
    using cell_max_bounds [of "kv_size kv" "kv_cells kv"] that assms(1,3)
    by (auto simp: kv_view_def llama_kv_cache_cell_max_def kv_wf_def is_empty_cell_def not_le [symmetric])
  have view: "(k, p, i) \<in> kv_view kv \<longleftrightarrow> i < ?m \<and> k \<in> c_seq_id (kv_cells kv ! i) \<and> p = c_pos (kv_cells kv ! i)" for k p i
    using below assms(4) len by (fastforce simp: kv_view_def)
  have pad: "d' ! q = NegInf \<and> w' ! q = NegInf" if "?n * ?m \<le> q" "q < ?P * ?m" for q
  proof -
    have "0 < ?m" using that by (cases ?m) auto
    then have "?n \<le> q div ?m" using that(1) by (simp add: less_eq_div_iff_mult_less_eq)
    with that(2) show ?thesis by (simp add: d'_def w'_def mask_elem_def swa_elem_def Let_def)
  qed
  have sees: "{i. i < ?m \<and> d' ! (t * ?m + i) \<noteq> NegInf} = {i. \<exists>p \<le> tok_pos ub t. (first_seq ub t, p, i) \<in> kv_view kv}"
    "{i. i < ?m \<and> w' ! (t * ?m + i) \<noteq> NegInf} =
      {i. \<exists>p \<le> tok_pos ub t. (first_seq ub t, p, i) \<in> kv_view kv \<and> tok_pos ub t - p < to_i32 (hp_n_swa hp)}" if "t < ?n" for t
    using nth [OF that] by (auto simp: view mask_open cong: conj_cong)
  have bias: "d' ! (t * ?m + i) = OfInt (if hp_use_alibi hp then p - tok_pos ub t else 0)"
    if "t < ?n" "p \<le> tok_pos ub t" "(first_seq ub t, p, i) \<in> kv_view kv" for t p i
    using that nth(1) [of t i] by (auto simp: view mask_val_def)
  show ?thesis
    by (intro exI [of _ d'] exI [of _ w'] conjI allI impI; (rule run sees(1) sees(2) bias pad [THEN conjunct1] pad [THEN conjunct2])?; assumption)
qed

definition no_inputs :: "'f llama_inputs" where
  "no_inputs = \<lparr>inp_tokens = None, inp_embd = None, inp_pos = None, inp_out_ids = None, inp_KQ_mask = None, inp_KQ_mask_swa = None,
     inp_K_shift = None, inp_mean = None, inp_cls = None, inp_s_copy = None, inp_s_mask = None, inp_pos_bucket = None,
     inp_embd_enc = None, inp_KQ_mask_cross = None, inp_cross_attn_state = None\<rparr>"

definition plain_cparams :: llama_cparams where
  "plain_cparams = \<lparr>cp_n_batch = 4, cp_n_ubatch = 2, cp_n_seq_max = 1, cp_n_threads = 1, cp_n_threads_batch = 1, cp_embeddings = False,
     cp_causal_attn = True, cp_flash_attn = False, cp_pooling_type = PoolNone\<rparr>"

text \<open>The token at position 1 of sequence 0 sees positions 0 and 1 of its sequence and neither the cell
  of sequence 1 nor the one at position 2.\<close>

definition mask_cache :: llama_kv_cache where
  "mask_cache = (cache_of False 0 [cell_of 0 {0}, cell_of 0 {1}, cell_of 1 {0}, cell_of 2 {0}])\<lparr>kv_n := 4\<rparr>"

theorem causal_mask_exact_witness:
  "\<exists>d' w'. set_masks (hp_of 1 1 1) plain_cparams False mask_cache (one_token 1 0)
       ((no_inputs :: int llama_inputs)\<lparr>inp_KQ_mask := Some (replicate 256 NegInf), inp_KQ_mask_swa := Some (replicate 256 NegInf)\<rparr>) =
     Inr ((no_inputs :: int llama_inputs)\<lparr>inp_KQ_mask := Some d', inp_KQ_mask_swa := Some w'\<rparr>) \<and> {i. i < 4 \<and> d' ! i \<noteq> NegInf} = {0, 2}"
proof -
  have c: "kv_wf mask_cache" "llama_kv_cache_cell_max mask_cache \<le> kv_n mask_cache" "kv_n mask_cache \<le> kv_size mask_cache"
    "\<forall>x \<in> set (kv_cells mask_cache). pos_ok (c_pos x)" "kv_n mask_cache = 4"
    using cell_max_bounds [of 4 "kv_cells mask_cache"]
    by (simp_all add: mask_cache_def cache_of_def cell_of_def new_cell_def kv_wf_def cell_ok_def is_empty_cell_def INT32_MAX_def
        llama_kv_cache_cell_max_def pos_ok_def)
  have u: "ubatch_ok (one_token 1 0)" "\<forall>t < ub_n_tokens (one_token 1 0). tok_pos (one_token 1 0) t < INT32_MAX" "ub_n_tokens (one_token 1 0) = 1"
    "tok_pos (one_token 1 0) 0 = 1" "first_seq (one_token 1 0) 0 = 0"
    by (simp_all add: ubatch_ok_def one_token_def tok_pos_def INT32_MAX_def first_seq_def)
  have v: "{i. \<exists>p \<le> 1. (0, p, i) \<in> kv_view mask_cache} = {0, 2}"
    by (auto simp: kv_view_def mask_cache_def cache_of_def cell_of_def new_cell_def less_Suc_eq numeral_eq_Suc)
  let ?inp = "(no_inputs :: int llama_inputs)\<lparr>inp_KQ_mask := Some (replicate 256 NegInf), inp_KQ_mask_swa := Some (replicate 256 NegInf)\<rparr>"
  have m: "ggml_pad (ub_n_tokens (one_token 1 0)) GGML_KQ_MASK_PAD * kv_n mask_cache \<le> length (replicate 256 NegInf)"
    by (simp add: u(3) c(5) ggml_pad_def GGML_KQ_MASK_PAD_def)
  obtain d' w' where "set_masks (hp_of 1 1 1) plain_cparams False mask_cache (one_token 1 0) ?inp =
      Inr (?inp\<lparr>inp_KQ_mask := Some d', inp_KQ_mask_swa := Some w'\<rparr>)" "{i. i < 4 \<and> d' ! (0 * 4 + i) \<noteq> NegInf} = {0, 2}"
    using causal_mask_exact [OF c(1) u(1) c(2,3) u(2) c(4) _ m _ m, of ?inp plain_cparams "hp_of 1 1 1"] u(3-5) c(5) v
    by (auto simp: plain_cparams_def)
  then show ?thesis by - (rule exI [of _ d'], rule exI [of _ w'], simp)
qed

end
