(* ===== verification/Decode.thy ===== *)
theory Decode
  imports KvDefrag BatchRun Inputs
begin

text \<open>
  Evaluating a batch: \<^verbatim>\<open>llama_prepare_sbatch\<close>, \<^verbatim>\<open>llama_prepare_ubatch\<close> and \<^verbatim>\<open>llama_decode_impl\<close> of
  \<^verbatim>\<open>llama.cpp\<close>, which join the batch, the cache, its defragmentation, the inputs and the outputs.

  The tensor library is a parameter: \<open>de_build\<close> gives the input tensors of the graph that is built for a
  micro-batch, \<open>de_graph\<close> runs it on the filled inputs and gives the status, the new rows of keys and
  values and the output tensors. So are the rotation of keys, the allocator, \<^verbatim>\<open>std::sort\<close> and the float
  comparison that asks for a defragmentation.
\<close>

section \<open>Parameters\<close>

datatype ggml_status = GgmlAllocFailed | GgmlFailed | GgmlSuccess | GgmlAborted

record ('f, 'r) graph_result =
  gr_status :: ggml_status
  gr_rows   :: "'r list"
  gr_res    :: "'f list"
  gr_embd   :: "'f list option"

record ('f, 'r) decode_env =
  de_vocab_n_tokens :: nat
  de_rot            :: "int \<Rightarrow> 'r \<Rightarrow> 'r"
  de_has_rope       :: bool
  de_max_nodes      :: nat
  de_alloc          :: "nat \<Rightarrow> nat option"
  de_large          :: "int \<Rightarrow> nat \<Rightarrow> nat \<Rightarrow> int"
  de_sort_ids       :: "(nat \<Rightarrow> nat \<Rightarrow> bool) \<Rightarrow> nat list \<Rightarrow> nat list"
  de_sort_seq       :: "(llama_sbatch_seq \<Rightarrow> llama_sbatch_seq \<Rightarrow> bool) \<Rightarrow> llama_sbatch_seq list \<Rightarrow> llama_sbatch_seq list"
  de_build          :: "('f, 'r) llama_context \<Rightarrow> llama_ubatch \<Rightarrow> 'f llama_inputs"
  de_graph          :: "('f, 'r) llama_context \<Rightarrow> llama_ubatch \<Rightarrow> ('f, 'r) graph_result"
  de_defrag_on      :: bool
  de_fragmented     :: "nat \<Rightarrow> nat \<Rightarrow> bool"

section \<open>Preparing the batch\<close>

text \<open>Pooled embeddings are computed from all tokens.\<close>

definition embd_pooled :: "llama_cparams \<Rightarrow> bool" where
  "embd_pooled cp \<longleftrightarrow> cp_embeddings cp \<and> cp_pooling_type cp \<noteq> PoolNone"

definition bad_token :: "nat \<Rightarrow> int list \<Rightarrow> nat \<Rightarrow> bool res" where
  "bad_token n_vocab ts n =
     rfold (\<lambda>i bad. if bad then Inr True else rbind (rnth ts i) (\<lambda>t. Inr (t < 0 \<or> nat t \<ge> n_vocab))) [0..<n] False"

definition count_outputs :: "llama_cparams \<Rightarrow> bool \<Rightarrow> llama_batch \<Rightarrow> nat \<Rightarrow> nat res" where
  "count_outputs cp logits_all b n_all =
     (case b_logits b of
        Some lg \<Rightarrow>
          if \<not> embd_pooled cp
          then rfold (\<lambda>i n. rbind (rnth lg i) (\<lambda>x. Inr (if x \<noteq> 0 then Suc n else n))) [0..<n_all] 0
          else Inr n_all
      | None \<Rightarrow> Inr (if logits_all \<or> embd_pooled cp then n_all else 1))"

text \<open>The result is the return value, the number of outputs and the context.\<close>

definition llama_prepare_sbatch :: "('f :: zero, 'r) decode_env \<Rightarrow> llama_cparams \<Rightarrow> llama_hparams \<Rightarrow> llama_batch \<Rightarrow> ('f, 'r) llama_context
    \<Rightarrow> (int \<times> nat \<times> ('f, 'r) llama_context) res" where
  "llama_prepare_sbatch env cp hp b c =
     (let n_all = nat (b_n_tokens b mod 2 ^ 32) in
      rbind (rguard (b_token b = None \<and> b_embd b \<noteq> None \<or> b_token b \<noteq> None \<and> b_embd b = None) GgmlAssert) (\<lambda>_.
      rbind (case b_token b of Some ts \<Rightarrow> bad_token (de_vocab_n_tokens env) ts n_all | None \<Rightarrow> Inr False) (\<lambda>bad.
      if bad then Inr (-1, 0, c)
      else
        rbind (rguard (n_all \<le> cp_n_batch cp) GgmlAssert) (\<lambda>_.
        rbind (rguard (cp_causal_attn cp \<or> cp_n_ubatch cp \<ge> n_all) GgmlAssert) (\<lambda>_.
        rbind (count_outputs cp (lc_logits_all c) b n_all) (\<lambda>n_outputs.
        rbind (from_batch (de_sort_ids env) (de_sort_seq env) (lo_sbatch c) b (nat (b_n_embd b))
                 (\<not> kv_recurrent (lc_kv_self c)) (n_outputs = n_all)) (\<lambda>sb.
        let c = c\<lparr>lc_n_queued_tokens := lc_n_queued_tokens c + n_all, lo_embd_seq := Map.empty, lo_sbatch := sb\<rparr>;
            (m, c) = llama_output_reserve (de_alloc env) hp cp c n_outputs
        in Inr (if m < n_outputs then -2 else 0, n_outputs, c))))))))"

section \<open>Preparing a micro-batch\<close>

definition llama_kv_cache_update :: "('f, 'r) decode_env \<Rightarrow> llama_hparams \<Rightarrow> ('f, 'r) llama_context \<Rightarrow> ('f, 'r) llama_context run" where
  "llama_kv_cache_update env hp c =
     run_bind (llama_kv_cache_update_impl (de_rot env) (de_has_rope env) (de_max_nodes env) (hp_n_layer hp) (lc_kv_self c) (lc_rows c))
       (\<lambda>(kv, rows). ret (c\<lparr>lc_kv_self := kv, lc_rows := rows\<rparr>))"

definition next_ubatch :: "llama_cparams \<Rightarrow> bool \<Rightarrow> llama_sbatch \<Rightarrow> (llama_sbatch \<times> llama_ubatch) res" where
  "next_ubatch cp recurrent sb =
     (if recurrent then if embd_pooled cp then split_seq sb (cp_n_ubatch cp) else split_equal sb (cp_n_ubatch cp)
      else split_simple sb (cp_n_ubatch cp))"

definition ubatch_outputs :: "nat \<Rightarrow> nat \<Rightarrow> llama_ubatch \<Rightarrow> nat res" where
  "ubatch_outputs n_outputs n_all ub =
     (if n_outputs = n_all then Inr (ub_n_tokens ub)
      else rbind (rguard (ub_output ub \<noteq> []) GgmlAssert) (\<lambda>_.
           rfold (\<lambda>i n. rbind (rnth (ub_output ub) i) (\<lambda>x. Inr (if x \<noteq> 0 then Suc n else n))) [0..<ub_n_tokens ub] 0))"

text \<open>The head starts over when there is room before it.\<close>

definition rewind_head :: "nat \<Rightarrow> llama_kv_cache \<Rightarrow> llama_kv_cache" where
  "rewind_head n kv = (if kv_head kv > u32 (kv_used kv + u32 (2 * n)) then kv\<lparr>kv_head := 0\<rparr> else kv)"

definition attention_window :: "llama_cparams \<Rightarrow> llama_kv_cache \<Rightarrow> nat" where
  "attention_window cp kv =
     (let pad = llama_kv_cache_get_padding (cp_flash_attn cp) in
      min (kv_size kv) (max pad (ggml_pad (llama_kv_cache_cell_max kv) pad)))"

text \<open>A slot for the micro-batch, if necessary after a defragmentation.\<close>

definition obtain_slot :: "('f, 'r) decode_env \<Rightarrow> llama_hparams \<Rightarrow> llama_ubatch \<Rightarrow> ('f, 'r) llama_context
    \<Rightarrow> (llama_kv_cache_slot_info \<times> ('f, 'r) llama_context) run" where
  "obtain_slot env hp ub c =
     run_bind (llama_kv_cache_update env hp c) (\<lambda>c.
     run_bind (Some (llama_kv_cache_find_slot (rewind_head (ub_n_tokens ub) (lc_kv_self c)) ub)) (\<lambda>(slot, kv).
     if si_found slot then ret (slot, c\<lparr>lc_kv_self := kv\<rparr>)
     else run_bind (llama_kv_cache_update env hp (c\<lparr>lc_kv_self := llama_kv_cache_defrag kv\<rparr>)) (\<lambda>c.
          run_bind (Some (llama_kv_cache_find_slot (lc_kv_self c) ub)) (\<lambda>(slot, kv).
          ret (slot, c\<lparr>lc_kv_self := kv\<rparr>)))))"

definition llama_prepare_ubatch :: "('f, 'r) decode_env \<Rightarrow> llama_cparams \<Rightarrow> llama_hparams \<Rightarrow> nat \<Rightarrow> nat \<Rightarrow> llama_kv_slot_restorer
    \<Rightarrow> ('f, 'r) llama_context \<Rightarrow> (int \<times> llama_ubatch \<times> llama_kv_slot_restorer \<times> ('f, 'r) llama_context) run" where
  "llama_prepare_ubatch env cp hp n_outputs n_all rs c =
     run_bind (Some (rguard (sb_n_tokens (lo_sbatch c) > 0) GgmlAssert)) (\<lambda>_.
     run_bind (Some (next_ubatch cp (kv_recurrent (lc_kv_self c)) (lo_sbatch c))) (\<lambda>(sb, ub).
     run_bind (Some (ubatch_outputs n_outputs n_all ub)) (\<lambda>n_new.
     let c = c\<lparr>lo_sbatch := sb, lo_n_outputs := to_i32 n_new\<rparr> in
     if hp_causal_attn hp then
       run_bind (obtain_slot env hp ub c) (\<lambda>(slot, c).
       if \<not> si_found slot then ret (1, ub, rs, c)
       else let kv = lc_kv_self c;
                kv = (if kv_recurrent kv then kv else kv\<lparr>kv_n := attention_window cp kv\<rparr>)
            in ret (0, ub, restorer_save slot rs, c\<lparr>lc_kv_self := kv\<rparr>))
     else ret (0, ub, rs, c))))"

section \<open>Extracting the outputs\<close>

text \<open>\<open>ggml_backend_tensor_get_async\<close> into the output buffer at an offset.\<close>

definition copy_out :: "'f list \<Rightarrow> nat \<Rightarrow> nat \<Rightarrow> 'f list option \<Rightarrow> 'f list option res" where
  "copy_out src n at buf =
     rbind (rguard (n \<le> length src) GgmlAssert) (\<lambda>_.
     rbind (deref buf) (\<lambda>b.
     rbind (rguard (at + n \<le> length b) OutOfBounds) (\<lambda>_.
     Inr (Some (take at b @ take n src @ drop (at + n) b)))))"

definition extract_rows :: "nat option \<Rightarrow> nat \<Rightarrow> nat \<Rightarrow> nat \<Rightarrow> nat \<Rightarrow> 'f list \<Rightarrow> ('f, 'r) llama_context \<Rightarrow> ('f, 'r) llama_context res" where
  "extract_rows ptr sz width n_outputs n_prev src c =
     rbind (rguard (ptr \<noteq> None) GgmlAssert) (\<lambda>_.
     let n_new = nat (lo_n_outputs c) in
     if lo_n_outputs c \<noteq> 0 then
       rbind (rguard (n_prev + n_new \<le> n_outputs) GgmlAssert) (\<lambda>_.
       rbind (rguard ((n_prev + n_new) * width \<le> sz) GgmlAssert) (\<lambda>_.
       rbind (copy_out src (n_new * width) (the ptr + n_prev * width) (lo_buf_output c)) (\<lambda>buf.
       Inr (c\<lparr>lo_buf_output := buf\<rparr>))))
     else Inr c)"

text \<open>Embeddings of sequences: the first micro-batch of a sequence counts.\<close>

definition extract_seqs :: "nat \<Rightarrow> llama_ubatch \<Rightarrow> 'f list \<Rightarrow> ('f, 'r) llama_context \<Rightarrow> ('f, 'r) llama_context res" where
  "extract_seqs width ub src c =
     rfold (\<lambda>s c. rbind (ub_seq ub s 0) (\<lambda>seq_id.
         if lo_embd_seq c seq_id \<noteq> None then Inr c
         else rbind (rguard (0 \<le> seq_id \<and> width * nat seq_id + width \<le> length src) GgmlAssert) (\<lambda>_.
              Inr (c\<lparr>lo_embd_seq := (lo_embd_seq c)(seq_id \<mapsto> take width (drop (width * nat seq_id) src))\<rparr>))))
       [0..<ub_n_seqs ub] c"

definition extract_embd :: "llama_cparams \<Rightarrow> llama_hparams \<Rightarrow> nat \<Rightarrow> nat \<Rightarrow> llama_ubatch \<Rightarrow> 'f list \<Rightarrow> ('f, 'r) llama_context
    \<Rightarrow> ('f, 'r) llama_context res" where
  "extract_embd cp hp n_outputs n_prev ub src c =
     (case cp_pooling_type cp of
        PoolNone \<Rightarrow> extract_rows (lo_embd c) (lo_embd_size c) (hp_n_embd hp) n_outputs n_prev src c
      | PoolMean \<Rightarrow> extract_seqs (hp_n_embd hp) ub src c
      | PoolCls \<Rightarrow> extract_seqs (hp_n_embd hp) ub src c
      | PoolLast \<Rightarrow> extract_seqs (hp_n_embd hp) ub src c
      | PoolRank \<Rightarrow> extract_seqs 1 ub src c
      | PoolUnspecified \<Rightarrow> Inl GgmlAbort)"

section \<open>Evaluating\<close>

text \<open>The ring buffer's head after a micro-batch.\<close>

definition advance_head :: "nat \<Rightarrow> llama_kv_cache \<Rightarrow> llama_kv_cache" where
  "advance_head n kv = (let h = u32 (kv_head kv + n) in kv\<lparr>kv_head := if h \<ge> kv_size kv then 0 else h\<rparr>)"

definition status_code :: "ggml_status \<Rightarrow> int" where
  "status_code s = (case s of GgmlAborted \<Rightarrow> 2 | GgmlAllocFailed \<Rightarrow> -2 | _ \<Rightarrow> -3)"

text \<open>One micro-batch after its preparation: a return value if the computation failed.\<close>

definition eval_ubatch :: "('f, 'r) decode_env \<Rightarrow> llama_cparams \<Rightarrow> llama_hparams \<Rightarrow> nat \<Rightarrow> nat \<Rightarrow> llama_ubatch \<Rightarrow> llama_kv_slot_restorer
    \<Rightarrow> ('f, 'r) llama_context \<Rightarrow> (int option \<times> ('f, 'r) llama_context) res" where
  "eval_ubatch env cp hp n_outputs n_prev ub rs c =
     rbind (rguard ((if ub_n_tokens ub = 1 then cp_n_threads cp else cp_n_threads_batch cp) > 0) GgmlAssert) (\<lambda>_.
     rbind (llama_set_inputs (de_large env) hp cp ub (c\<lparr>lc_inputs := de_build env c ub\<rparr>)) (\<lambda>c.
     let r = de_graph env c ub;
         c = c\<lparr>lc_rows := gr_rows r\<rparr>;
         res = (if lo_n_outputs c = 0 \<or> \<not> cp_causal_attn cp then None else Some (gr_res r));
         embd = (if lo_n_outputs c \<noteq> 0 \<and> cp_embeddings cp then gr_embd r else None)
     in if gr_status r \<noteq> GgmlSuccess then
          rbind (restorer_restore rs (lc_kv_self c)) (\<lambda>kv.
          Inr (Some (status_code (gr_status r)), c\<lparr>lc_kv_self := kv\<rparr>))
        else
          let c = c\<lparr>lc_kv_self := advance_head (ub_n_tokens ub) (lc_kv_self c)\<rparr> in
          rbind (case res of None \<Rightarrow> Inr c
                 | Some t \<Rightarrow> extract_rows (lo_logits c) (lo_logits_size c) (hp_n_vocab hp) n_outputs n_prev t c) (\<lambda>c.
          rbind (case embd of None \<Rightarrow> Inr c | Some t \<Rightarrow> extract_embd cp hp n_outputs n_prev ub t c) (\<lambda>c.
          Inr (None, c)))))"

text \<open>The loop over the micro-batches; \<open>Some\<close> return value is an early return.\<close>

fun decode_loop :: "nat \<Rightarrow> ('f, 'r) decode_env \<Rightarrow> llama_cparams \<Rightarrow> llama_hparams \<Rightarrow> nat \<Rightarrow> nat \<Rightarrow> nat \<Rightarrow> llama_kv_slot_restorer
    \<Rightarrow> ('f, 'r) llama_context \<Rightarrow> (int option \<times> ('f, 'r) llama_context) run" where
  "decode_loop 0 env cp hp n_outputs n_all n_prev rs c = (if sb_n_tokens (lo_sbatch c) > 0 then None else ret (None, c))"
| "decode_loop (Suc fuel) env cp hp n_outputs n_all n_prev rs c =
     (if sb_n_tokens (lo_sbatch c) > 0 then
        run_bind (llama_prepare_ubatch env cp hp n_outputs n_all rs c) (\<lambda>(code, ub, rs, c).
        if code \<noteq> 0 then ret (Some code, c)
        else run_bind (Some (eval_ubatch env cp hp n_outputs n_prev ub rs c)) (\<lambda>(code, c).
             if code \<noteq> None then ret (code, c)
             else decode_loop fuel env cp hp n_outputs n_all (n_prev + nat (lo_n_outputs c)) rs c))
      else ret (None, c))"

definition set_output_mapping :: "nat \<Rightarrow> ('f, 'r) llama_context \<Rightarrow> ('f, 'r) llama_context res" where
  "set_output_mapping n_outputs c =
     (let out_ids = sb_out_ids (lo_sbatch c) in
      rbind (rguard (length out_ids = n_outputs) GgmlAssert) (\<lambda>_.
      rbind (set_output_ids out_ids (lo_output_ids c)) (\<lambda>ids.
      let c = c\<lparr>lo_output_ids := ids, lo_n_outputs := to_i32 n_outputs\<rparr> in
      Inr (if out_ids = [0..<n_outputs] then c\<lparr>lo_sbatch := (lo_sbatch c)\<lparr>sb_out_ids := []\<rparr>\<rparr> else c))))"

definition request_defrag :: "('f, 'r) decode_env \<Rightarrow> llama_cparams \<Rightarrow> llama_kv_cache \<Rightarrow> llama_kv_cache" where
  "request_defrag env cp kv =
     (if cp_causal_attn cp \<and> de_defrag_on env \<and> kv_n kv \<ge> 2048 \<and>
         de_fragmented env (kv_n kv) (u32 (kv_used kv + llama_kv_cache_get_padding (cp_flash_attn cp)))
      then llama_kv_cache_defrag kv else kv)"

definition llama_decode_impl :: "nat \<Rightarrow> ('f :: zero, 'r) decode_env \<Rightarrow> llama_cparams \<Rightarrow> llama_hparams \<Rightarrow> llama_batch \<Rightarrow> ('f, 'r) llama_context
    \<Rightarrow> (int \<times> ('f, 'r) llama_context) run" where
  "llama_decode_impl fuel env cp hp inp_batch c =
     (let c = c\<lparr>lc_is_encoding := False\<rparr> in
      if b_n_tokens inp_batch = 0 then ret (-1, c)
      else
        run_bind (Some (if b_pos inp_batch \<noteq> None then Inr (-1) else i32_add (max_pos (lc_kv_self c)) 1)) (\<lambda>p0.
        run_bind (Some (llama_batch_allocr inp_batch p0)) (\<lambda>batch.
        let rs = new_restorer (lc_kv_self c) in
        run_bind (Some (llama_prepare_sbatch env cp hp batch c)) (\<lambda>(code, n_outputs, c).
        if code \<noteq> 0 then ret (code, c)
        else run_bind (decode_loop fuel env cp hp n_outputs (nat (b_n_tokens batch)) 0 rs c) (\<lambda>(code, c).
             case code of
               Some r \<Rightarrow> ret (r, c)
             | None \<Rightarrow> run_bind (Some (set_output_mapping n_outputs c)) (\<lambda>c.
                       ret (0, c\<lparr>lc_kv_self := request_defrag env cp (lc_kv_self c)\<rparr>)))))))"

section \<open>Updating and finding a slot\<close>

text \<open>A cache of a transformer with its rows, ready for an update.\<close>

definition cache_ready :: "llama_kv_cache \<Rightarrow> 'r list \<Rightarrow> bool" where
  "cache_ready kv rows \<longleftrightarrow> kv_wf kv \<and> \<not> kv_recurrent kv \<and> length rows = kv_size kv \<and> (kv_has_shift kv \<longrightarrow> kv_can_shift kv)"

text \<open>The graphs of the updates fit: see \<open>update_ok\<close>.\<close>

definition nodes_ok :: "('f, 'r) decode_env \<Rightarrow> llama_hparams \<Rightarrow> bool" where
  "nodes_ok env hp \<longleftrightarrow> 0 < hp_n_layer hp \<and> 8 * hp_n_layer hp \<le> de_max_nodes env \<and> de_max_nodes env < 2 ^ 31"

lemma cell_tokens_contents:
  "length cs = length rows \<Longrightarrow> cell_tokens cs = image_mset (\<lambda>(x, r). (c_pos x, c_seq_id x)) (contents cs rows)"
  unfolding cell_tokens_def contents_def by (induction cs rows rule: list_induct2) auto

lemma cell_tokens_size: "kv_wf kv \<Longrightarrow> size (cell_tokens (kv_cells kv)) = kv_used kv"
proof -
  have "size (filter_mset occupied (mset cs)) = count_if occupied cs" for cs by (induction cs) auto
  then show "kv_wf kv \<Longrightarrow> size (cell_tokens (kv_cells kv)) = kv_used kv" by (simp add: cell_tokens_def kv_wf_def)
qed

lemma update_ctx:
  assumes "cache_ready (lc_kv_self c) (lc_rows c)" "nodes_ok env hp"
  shows "\<exists>kv rows. llama_kv_cache_update env hp c = ret (c\<lparr>lc_kv_self := kv, lc_rows := rows\<rparr>) \<and> cache_ready kv rows \<and>
    kv_size kv = kv_size (lc_kv_self c) \<and> kv_used kv = kv_used (lc_kv_self c) \<and>
    cell_tokens (kv_cells kv) = cell_tokens (kv_cells (lc_kv_self c)) \<and>
    (kv_do_defrag (lc_kv_self c) \<longrightarrow> (\<forall>i < kv_size kv. occupied (kv_cells kv ! i) \<longleftrightarrow> i < kv_used kv))"
proof -
  let ?kv = "lc_kv_self c"
  from assms have h: "kv_wf ?kv" "length (lc_rows c) = kv_size ?kv" "kv_has_shift ?kv \<longrightarrow> kv_can_shift ?kv" "\<not> kv_recurrent ?kv"
    "0 < hp_n_layer hp" "8 * hp_n_layer hp \<le> de_max_nodes env" "de_max_nodes env < 2 ^ 31" by (simp_all add: cache_ready_def nodes_ok_def)
  obtain kv rows cs h' where u: "llama_kv_cache_update_impl (de_rot env) (de_has_rope env) (de_max_nodes env) (hp_n_layer hp) ?kv (lc_rows c) = ret (kv, rows)"
    "kv_wf kv" "kv = ?kv\<lparr>kv_has_shift := False, kv_do_defrag := False, kv_cells := cs, kv_head := h'\<rparr>" "length rows = kv_size ?kv"
    "contents (kv_cells kv) rows = image_mset (\<lambda>(x, r). if kv_has_shift ?kv then (x\<lparr>c_delta := 0\<rparr>, if de_has_rope env then de_rot env (c_delta x) r else r) else (x, r))
      (contents (kv_cells ?kv) (lc_rows c))"
    "kv_do_defrag ?kv \<longrightarrow> (\<forall>i < kv_size ?kv. occupied (kv_cells kv ! i) \<longleftrightarrow> i < kv_used ?kv)"
    using update_ok [OF h(1-3,5-7), of "de_rot env" "de_has_rope env"] by blast
  have len: "length (kv_cells kv) = length rows" "length (kv_cells ?kv) = length (lc_rows c)" using u(2-4) h(1,2) by (simp_all add: kv_wf_def)
  have "cell_tokens (kv_cells kv) = cell_tokens (kv_cells ?kv)"
    unfolding cell_tokens_contents [OF len(1)] cell_tokens_contents [OF len(2)] u(5)
    by (auto simp: multiset.map_comp intro!: image_mset_cong)
  with u h show ?thesis by (intro exI [of _ kv] exI [of _ rows]) (simp add: llama_kv_cache_update_def cache_ready_def)
qed

lemma free_after_used:
  assumes "kv_wf kv" "\<forall>i < kv_size kv. occupied (kv_cells kv ! i) \<longleftrightarrow> i < kv_used kv" "kv_used kv + n \<le> kv_size kv"
  shows "free_run (kv_cells kv) (kv_used kv) n"
  unfolding free_run_def
proof (intro allI impI)
  fix i assume "i < n"
  then have i: "kv_used kv + i < kv_size kv" using assms(3) by simp
  then have "is_empty_cell (kv_cells kv ! (kv_used kv + i))" using assms(2) by auto
  with kv_wf_cell [OF assms(1), of "kv_used kv + i"] assms(1) i show "c_pos (kv_cells kv ! (kv_used kv + i)) < 0"
    by (auto simp: kv_wf_def cell_ok_def is_empty_cell_def)
qed

lemma rewind_head_ok: "cache_ready kv rows \<Longrightarrow> cache_ready (rewind_head n kv) rows"
  "kv_size (rewind_head n kv) = kv_size kv" "kv_cells (rewind_head n kv) = kv_cells kv" "kv_used (rewind_head n kv) = kv_used kv"
  by (auto simp: rewind_head_def cache_ready_def kv_wf_def)

text \<open>What finding a slot leaves: the cache with the tokens of the micro-batch.\<close>

definition placed :: "llama_kv_cache \<Rightarrow> llama_ubatch \<Rightarrow> llama_kv_cache \<Rightarrow> 'r list \<Rightarrow> bool" where
  "placed kv0 ub kv rows \<longleftrightarrow> cache_ready kv rows \<and> kv_size kv = kv_size kv0 \<and>
     cell_tokens (kv_cells kv) = cell_tokens (kv_cells kv0) + ubatch_tokens ub"

lemma slot_range_simps: "si_found (slot_range b e)"
  by (simp add: slot_range_def)

lemma found_placed:
  assumes "cache_ready kv rows" "ubatch_ok ub" "h + ub_n_tokens ub \<le> kv_size kv" "free_run (kv_cells kv) h (ub_n_tokens ub)"
  shows "placed kv ub (kv\<lparr>kv_cells := filled_upto ub h (kv_cells kv) (ub_n_tokens ub), kv_head := h, kv_used := u32 (kv_used kv + ub_n_tokens ub)\<rparr>) rows"
  using assms place_ok(1) [OF _ assms(2-4)] place_tokens [OF _ assms(2-4)] by (simp add: placed_def cache_ready_def)

text \<open>Fragmentation does not matter: if there are enough free cells, a slot is found.\<close>

lemma obtain_slot_ok:
  assumes ready: "cache_ready (lc_kv_self c) (lc_rows c)" and nodes: "nodes_ok env hp" and ok: "ubatch_ok ub"
    and room: "kv_used (lc_kv_self c) + ub_n_tokens ub \<le> kv_size (lc_kv_self c)"
  shows "\<exists>slot kv rows. obtain_slot env hp ub c = ret (slot, c\<lparr>lc_kv_self := kv, lc_rows := rows\<rparr>) \<and> si_found slot \<and> placed (lc_kv_self c) ub kv rows"
proof -
  obtain kv1 rows1 where u1: "llama_kv_cache_update env hp c = ret (c\<lparr>lc_kv_self := kv1, lc_rows := rows1\<rparr>)" "cache_ready kv1 rows1"
    "kv_size kv1 = kv_size (lc_kv_self c)" "kv_used kv1 = kv_used (lc_kv_self c)" "cell_tokens (kv_cells kv1) = cell_tokens (kv_cells (lc_kv_self c))"
    using update_ctx [OF ready nodes] by blast
  let ?kv = "rewind_head (ub_n_tokens ub) kv1"
  note rw = rewind_head_ok(1) [OF u1(2), of "ub_n_tokens ub"] rewind_head_ok(2-4) [of "ub_n_tokens ub" kv1]
  have wf: "kv_wf ?kv" "\<not> kv_recurrent ?kv" using rw(1) by (simp_all add: cache_ready_def)
  from wf ok show ?thesis
  proof (cases rule: find_slot_cases)
    case (found h)
    let ?k = "?kv\<lparr>kv_cells := filled_upto ub h (kv_cells ?kv) (ub_n_tokens ub), kv_head := h, kv_used := u32 (kv_used ?kv + ub_n_tokens ub)\<rparr>"
    have "obtain_slot env hp ub c = ret (slot_range h (h + ub_n_tokens ub), c\<lparr>lc_kv_self := ?k, lc_rows := rows1\<rparr>)"
      using found(3) u1(1) by (simp add: obtain_slot_def slot_range_def)
    moreover have "placed (lc_kv_self c) ub ?k rows1"
      using found_placed [OF rw(1) ok found(1,2)] u1(3,5) rw(2,3) by (simp add: placed_def)
    ultimately show ?thesis by (metis slot_range_simps)
  next
    case (none h)
    let ?c2 = "c\<lparr>lc_rows := rows1, lc_kv_self := llama_kv_cache_defrag (?kv\<lparr>kv_head := h\<rparr>)\<rparr>"
    have "cache_ready (lc_kv_self ?c2) (lc_rows ?c2)"
      using rw(1) none(2) wf(2) by (auto simp: cache_ready_def llama_kv_cache_defrag_def kv_wf_def)
    from update_ctx [OF this nodes] obtain kv2 rows2 where u2: "llama_kv_cache_update env hp ?c2 = ret (?c2\<lparr>lc_kv_self := kv2, lc_rows := rows2\<rparr>)"
      "cache_ready kv2 rows2" "kv_size kv2 = kv_size kv1" "kv_used kv2 = kv_used kv1" "cell_tokens (kv_cells kv2) = cell_tokens (kv_cells kv1)"
      "\<forall>i < kv_size kv2. occupied (kv_cells kv2 ! i) \<longleftrightarrow> i < kv_used kv2"
      using wf(2) rw(2-4) by (auto simp: llama_kv_cache_defrag_def)
    have wf2: "kv_wf kv2" "\<not> kv_recurrent kv2" using u2(2) by (simp_all add: cache_ready_def)
    have "free_run (kv_cells kv2) (kv_used kv2) (ub_n_tokens ub)"
      by (rule free_after_used) (use wf2 u2(3,4,6) u1(3,4) room in auto)
    then obtain h2 where f2: "h2 + ub_n_tokens ub \<le> kv_size kv2" "free_run (kv_cells kv2) h2 (ub_n_tokens ub)"
      "llama_kv_cache_find_slot kv2 ub = Inr (slot_range h2 (h2 + ub_n_tokens ub),
         kv2\<lparr>kv_cells := filled_upto ub h2 (kv_cells kv2) (ub_n_tokens ub), kv_head := h2, kv_used := u32 (kv_used kv2 + ub_n_tokens ub)\<rparr>)"
      using find_slot_cases [OF wf2 ok] room u1(3,4) u2(3,4) by metis
    let ?k = "kv2\<lparr>kv_cells := filled_upto ub h2 (kv_cells kv2) (ub_n_tokens ub), kv_head := h2, kv_used := u32 (kv_used kv2 + ub_n_tokens ub)\<rparr>"
    have "obtain_slot env hp ub c = ret (slot_range h2 (h2 + ub_n_tokens ub), c\<lparr>lc_kv_self := ?k, lc_rows := rows2\<rparr>)"
      using f2(3) none(1) u1(1) u2(1) by (simp add: obtain_slot_def slot_failed_def)
    moreover have "placed (lc_kv_self c) ub ?k rows2"
      using found_placed [OF u2(2) ok f2(1,2)] u1(3,5) u2(3,5) by (simp add: placed_def)
    ultimately show ?thesis by (metis slot_range_simps)
  qed
qed

section \<open>The micro-batches of a batch\<close>

text \<open>The tokens with batch indices \<open>ts\<close>, as the cache stores them.\<close>

definition batch_tokens :: "llama_batch \<Rightarrow> nat list \<Rightarrow> (int \<times> int set) multiset" where
  "batch_tokens b ts = mset (map (\<lambda>t. (the (b_pos b) ! t, set (take (nat (the (b_n_seq_id b) ! t)) (the (b_seq_id b) ! t)))) ts)"

definition positions_ok :: "llama_batch \<Rightarrow> nat \<Rightarrow> bool" where
  "positions_ok b n \<longleftrightarrow> (\<forall>t < n. 0 \<le> the (b_pos b) ! t \<and> the (b_pos b) ! t \<le> INT32_MAX)"

lemma batch_tokens_append [simp]: "batch_tokens b (xs @ ys) = batch_tokens b xs + batch_tokens b ys"
  by (simp add: batch_tokens_def)

lemma simple_view_ubatch:
  assumes ok: "batch_ok b n ne" "positions_ok b n" and v: "simple_view b ne off len ub" and n: "off + len \<le> n"
  shows "ubatch_ok ub" "ubatch_tokens ub = batch_tokens b [off..<off + len]"
proof -
  obtain ps ns ss where b: "b_pos b = Some ps" "b_n_seq_id b = Some ns" "b_seq_id b = Some ss"
    using ok(1) by (auto simp: batch_ok_def split: option.splits)
  have l: "n \<le> length ps" "n \<le> length ns" "n \<le> length ss" "\<forall>x \<in> set (take n ns). 0 < x" "\<forall>i < n. int (length (ss ! i)) = ns ! i"
    using ok(1) b by (auto simp: batch_ok_def)
  have u: "ub_n_tokens ub = len" "ub_n_seqs ub = len" "ub_n_seq_tokens ub = 1" "ub_pos ub = Some (drop off ps)"
    "ub_n_seq_id ub = drop off ns" "ub_seq_id ub = map Some (drop off ss)"
    using v b by (simp_all add: simple_view_def)
  have pos: "0 < ns ! t" if "t < n" for t using l(2,4) that nth_mem [of t "take n ns"] by fastforce
  show "ubatch_ok ub"
    using u n l pos ok(2) b unfolding ubatch_ok_def positions_ok_def by (auto simp: less_diff_conv add.commute)
  have "map (\<lambda>k. (tok_pos ub k, tok_seqs ub k)) [0..<len] =
      map (\<lambda>t. (ps ! t, set (take (nat (ns ! t)) (ss ! t)))) [off..<off + len]"
    by (rule nth_equalityI) (use u n l in \<open>auto simp: tok_pos_def tok_seqs_def Let_def\<close>)
  then show "ubatch_tokens ub = batch_tokens b [off..<off + len]"
    using b u(1) unfolding ubatch_tokens_def batch_tokens_def by (simp only: option.sel)
qed

text \<open>The batch between two micro-batches of a transformer.\<close>

definition sb_ready :: "llama_batch \<Rightarrow> nat \<Rightarrow> bool \<Rightarrow> nat \<Rightarrow> llama_sbatch \<Rightarrow> bool" where
  "sb_ready b n la ne sb \<longleftrightarrow> simple_inv sb \<and> sb_batch sb = Some b \<and> length (sb_ids sb) = n \<and> sb_logits_all sb = la \<and> sb_n_embd sb = ne"

lemma sb_ready_wanted: "sb_ready b n la ne sb \<Longrightarrow> wanted sb = wants_output b la n"
  by (auto simp: sb_ready_def wanted_def)

lemma sb_rest_length: "sb_inv sb \<Longrightarrow> length (sb_rest sb) = sb_n_tokens sb"
proof -
  assume inv: "sb_inv sb"
  have "length (seq_rest (sb_ids sb) s) = sq_length s" if "s \<in> set (sb_seq sb)" for s
    using inv that by (cases "sq_length s = 0") (auto simp: sb_inv_def seq_rest_def)
  then have "map (\<lambda>s. length (seq_rest (sb_ids sb) s)) (sb_seq sb) = map sq_length (sb_seq sb)" by simp
  then have "length (sb_rest sb) = sum_list (map sq_length (sb_seq sb))" by (simp only: sb_rest_def length_concat map_map comp_def)
  with inv show ?thesis by (simp add: sb_inv_def)
qed

lemma next_piece:
  assumes r: "sb_ready b n la ne sb" and t: "0 < sb_n_tokens sb" and u: "0 < cp_n_ubatch cp"
  shows "\<exists>sb' ub off. next_ubatch cp False sb = Inr (sb', ub) \<and> sb_ready b n la ne sb' \<and> 0 < ub_n_tokens ub \<and>
    off + ub_n_tokens ub \<le> n \<and> simple_view b ne off (ub_n_tokens ub) ub \<and> sb_rest sb = [off..<off + ub_n_tokens ub] @ sb_rest sb' \<and>
    sb_n_tokens sb = ub_n_tokens ub + sb_n_tokens sb' \<and>
    sb_out_ids sb' = sb_out_ids sb @ filter (wants_output b la n) [off..<off + ub_n_tokens ub] \<and>
    ub_n_tokens ub \<le> length (ub_output ub) \<and> (\<forall>i < ub_n_tokens ub. ub_output ub ! i \<noteq> 0 \<longleftrightarrow> wants_output b la n (off + i))"
proof -
  have inv: "simple_inv sb" "sb_batch sb = Some b" using r by (simp_all add: sb_ready_def)
  obtain sb' ub off where s: "split_simple sb (cp_n_ubatch cp) = Inr (sb', ub)" "split_post sb (cp_n_ubatch cp) sb' ub" "simple_inv sb'"
    "simple_piece sb sb' b off ub" using split_simple_step [OF inv u] t by blast
  have p: "0 < ub_n_tokens ub" using s(2) t unfolding split_post_def by blast
  have rest: "sb_rest sb = [off..<off + ub_n_tokens ub] @ sb_rest sb'" using s(4) by (simp add: simple_piece_def)
  have "sb_inv sb" "sb_inv sb'" using inv(1) s(3) by (simp_all add: simple_inv_def)
  from this [THEN sb_rest_length] rest have cnt: "sb_n_tokens sb = ub_n_tokens ub + sb_n_tokens sb'" by simp
  have "sb_ready b n la ne sb'" using r s(3,4) by (simp add: sb_ready_def simple_piece_def same_frame_def)
  then show ?thesis using s(1,4) p rest cnt sb_ready_wanted [OF r] r
    by (intro exI [of _ sb'] exI [of _ ub] exI [of _ off]) (simp add: next_ubatch_def simple_piece_def sb_ready_def)
qed

lemma count_loop:
  assumes "k \<le> length xs"
  shows "rfold (\<lambda>i n. rbind (rnth xs i) (\<lambda>x. Inr (if P x then Suc n else n))) [0..<k] 0 = Inr (length (filter (\<lambda>i. P (xs ! i)) [0..<k]))"
proof -
  let ?g = "\<lambda>i. length (filter (\<lambda>i. P (xs ! i)) [0..<i])"
  have "rfold (\<lambda>i n. rbind (rnth xs i) (\<lambda>x. Inr (if P x then Suc n else n))) [0..<k] (?g 0) = Inr (?g k)"
    by (rule rfold_upt_closed) (use assms in auto)
  then show ?thesis by simp
qed

lemma length_filter_shift: "length (filter (\<lambda>i. P (off + i)) [0..<len]) = length (filter P [off..<off + len])"
proof -
  have m: "[off..<off + len] = map ((+) off) [0..<len]" by (rule nth_equalityI) simp_all
  show ?thesis unfolding m by (simp add: filter_map comp_def)
qed

lemma count_flags:
  assumes "len \<le> length (ub_output ub)" "\<forall>i < len. ub_output ub ! i \<noteq> 0 \<longleftrightarrow> P (off + i)"
  shows "length (filter (\<lambda>i. ub_output ub ! i \<noteq> 0) [0..<len]) = length (filter P [off..<off + len])"
proof -
  have "filter (\<lambda>i. ub_output ub ! i \<noteq> 0) [0..<len] = filter (\<lambda>i. P (off + i)) [0..<len]" by (rule filter_cong) (use assms in auto)
  then show ?thesis by (simp add: length_filter_shift)
qed

lemma ubatch_outputs_ok:
  assumes "0 < ub_n_tokens ub" "ub_n_tokens ub \<le> length (ub_output ub)"
    and "\<forall>i < ub_n_tokens ub. ub_output ub ! i \<noteq> 0 \<longleftrightarrow> P (off + i)" and "n_outputs = n \<Longrightarrow> \<forall>t. P t"
  shows "ubatch_outputs n_outputs n ub = Inr (length (filter P [off..<off + ub_n_tokens ub]))"
proof (cases "n_outputs = n")
  case True
  then have "filter P [off..<off + ub_n_tokens ub] = [off..<off + ub_n_tokens ub]" using assms(4) by simp
  with True show ?thesis by (simp add: ubatch_outputs_def)
next
  case False
  have "ub_output ub \<noteq> []" using assms(1,2) by auto
  with False show ?thesis
    using count_loop [OF assms(2), of "\<lambda>x. x \<noteq> 0"] count_flags [OF assms(2,3)] by (simp add: ubatch_outputs_def)
qed

section \<open>Filling the inputs\<close>

text \<open>What the graph of a decoder that is built for a micro-batch offers: room for its tokens, the rows
  to output and the mask; no sliding window, no relative positions, no encoder.\<close>

definition inputs_fit :: "llama_ubatch \<Rightarrow> llama_kv_cache \<Rightarrow> nat \<Rightarrow> 'f llama_inputs \<Rightarrow> bool" where
  "inputs_fit ub kv n_out inp \<longleftrightarrow>
     (\<exists>t. inp_tokens inp = Some t \<and> ub_n_tokens ub \<le> length t) \<and>
     (\<forall>t. inp_pos inp = Some t \<longrightarrow> ub_n_tokens ub \<le> length t) \<and>
     (\<forall>t. inp_out_ids inp = Some t \<longrightarrow> n_out \<le> length t) \<and>
     (\<forall>t. inp_KQ_mask inp = Some t \<longrightarrow> ggml_pad (ub_n_tokens ub) GGML_KQ_MASK_PAD * kv_n kv \<le> length t) \<and>
     inp_KQ_mask_swa inp = None \<and> inp_pos_bucket inp = None \<and> inp_embd_enc inp = None \<and> inp_KQ_mask_cross inp = None"

lemma out_ids_data_ok:
  assumes k: "k = length (filter (\<lambda>i. ub_output ub ! i \<noteq> 0) [0..<ub_n_tokens ub]) \<or> k = ub_n_tokens ub" "k \<le> length d"
    and flags: "0 < ub_n_tokens ub" "ub_n_tokens ub \<le> length (ub_output ub)"
  shows "\<exists>d'. out_ids_data (int k) ub d = Inr d'"
proof (cases "k = ub_n_tokens ub")
  case True
  have "\<exists>d'. rfold (\<lambda>i d. rupd d i (int i)) [0..<ub_n_tokens ub] d = Inr d' \<and> length d' = length d"
    by (rule rfold_upt_inv [where P = "\<lambda>i d'. length d' = length d"]) (use True k(2) in auto)
  with True show ?thesis by (auto simp: out_ids_data_def)
next
  case False
  let ?f = "\<lambda>i. ub_output ub ! i \<noteq> 0" and ?n = "ub_n_tokens ub"
  let ?P = "\<lambda>i (d', j). length d' = length d \<and> j = length (filter ?f [0..<i])"
  have k': "k = length (filter ?f [0..<?n])" using k False by simp
  have "\<exists>t. rfold (\<lambda>i (d, k). rbind (rnth (ub_output ub) i) (\<lambda>o'. if o' \<noteq> 0 then rbind (rupd d k (int i)) (\<lambda>d. Inr (d, Suc k)) else Inr (d, k)))
      [0..<?n] (d, 0) = Inr t \<and> ?P ?n t"
  proof (rule rfold_upt_inv [where P = ?P])
    fix i and s :: "int list \<times> nat" assume i: "i < ?n" and P: "?P i s"
    obtain d' j where s: "s = (d', j)" "length d' = length d" "j = length (filter ?f [0..<i])" using P by (cases s) auto
    have "j < length d'" if "?f i"
    proof -
      have "[0..<?n] = [0..<Suc i] @ [Suc i..<?n]" using i by (metis Suc_leI le0 upt_add_eq_append le_add_diff_inverse)
      then have "length (filter ?f [0..<Suc i]) \<le> k" unfolding k' by simp
      with that s(2,3) k(2) show ?thesis by simp
    qed
    with i s flags(2) show "\<exists>t. (case s of (d, k) \<Rightarrow> rbind (rnth (ub_output ub) i) (\<lambda>o'. if o' \<noteq> 0 then rbind (rupd d k (int i)) (\<lambda>d. Inr (d, Suc k)) else Inr (d, k))) = Inr t \<and> ?P (Suc i) t"
      by auto
  qed simp
  then obtain d' j where "rfold (\<lambda>i (d, k). rbind (rnth (ub_output ub) i) (\<lambda>o'. if o' \<noteq> 0 then rbind (rupd d k (int i)) (\<lambda>d. Inr (d, Suc k)) else Inr (d, k)))
      [0..<?n] (d, 0) = Inr (d', j)" "j = k" using k' by auto
  moreover have "ub_output ub \<noteq> []" using flags by auto
  ultimately show ?thesis using False by (simp add: out_ids_data_def)
qed

lemma tensor_set_ok: "t = Some d \<Longrightarrow> n \<le> length d \<Longrightarrow> n \<le> length src \<Longrightarrow> tensor_set t src n = Inr (Some (take n src @ drop n d))"
  by (simp add: tensor_set_def deref_def)

lemma set_masks_ok:
  assumes "kv_wf kv" "ubatch_ok ub" "kv_n kv \<le> kv_size kv" "cp_causal_attn cp" "inp_KQ_mask_swa inp = None"
    and "\<And>t. inp_KQ_mask inp = Some t \<Longrightarrow> ggml_pad (ub_n_tokens ub) GGML_KQ_MASK_PAD * kv_n kv \<le> length t"
  shows "\<exists>d. set_masks hp cp False kv ub inp = Inr (inp\<lparr>inp_KQ_mask := d\<rparr>)"
proof (cases "inp_KQ_mask inp")
  case None
  with assms(5) show ?thesis by (intro exI [of _ None]) (simp add: set_masks_def)
next
  case (Some d)
  have "set_causal_mask hp kv ub (Some d, None) = Inr (masks_upto hp kv ub (Some d, None) (ggml_pad (ub_n_tokens ub) GGML_KQ_MASK_PAD * kv_n kv))"
    by (rule set_causal_mask_eq) (use assms Some in \<open>auto simp: kv_wf_def mask_room_def\<close>)
  moreover have "inp\<lparr>inp_KQ_mask := d', inp_KQ_mask_swa := None\<rparr> = inp\<lparr>inp_KQ_mask := d'\<rparr>" for d' using assms(5) by simp
  ultimately show ?thesis using Some assms(4,5)
    by (intro exI [of _ "Some (seq_fill (mask_elem hp kv ub) (ggml_pad (ub_n_tokens ub) GGML_KQ_MASK_PAD * kv_n kv) d)"])
      (simp add: set_masks_def masks_upto_def)
qed

lemma set_inputs_ok:
  assumes cfg: "cp_causal_attn cp" "hp_causal_attn hp" "\<not> cp_embeddings cp" and kv: "kv_wf (lc_kv_self c)" "\<not> kv_recurrent (lc_kv_self c)" "kv_n (lc_kv_self c) \<le> kv_size (lc_kv_self c)"
    and ub: "ubatch_ok ub" "0 < ub_n_tokens ub" "ub_token ub = Some ts" "ub_n_tokens ub \<le> length ts" "ub_embd ub = None"
      "ub_n_tokens ub \<le> length (ub_output ub)"
    and k: "lo_n_outputs c = int k" "k = length (filter (\<lambda>i. ub_output ub ! i \<noteq> 0) [0..<ub_n_tokens ub]) \<or> k = ub_n_tokens ub"
    and fit: "inputs_fit ub (lc_kv_self c) k (lc_inputs c)" and env: "lc_n_pos_per_token c = 1" "\<not> lc_is_encoding c"
  shows "\<exists>inp. llama_set_inputs large hp cp ub c = Inr (c\<lparr>lc_inputs := inp\<rparr>)"
proof -
  let ?i0 = "lc_inputs c"
  obtain t where t: "inp_tokens ?i0 = Some t" "ub_n_tokens ub \<le> length t" using fit by (auto simp: inputs_fit_def)
  obtain ps where ps: "ub_pos ub = Some ps" "ub_n_tokens ub \<le> length ps" using ub(1) by (auto simp: ubatch_ok_def)
  define i1 where "i1 = ?i0\<lparr>inp_tokens := Some (take (ub_n_tokens ub) ts @ drop (ub_n_tokens ub) t)\<rparr>"
  have s1: "set_tokens ub ?i0 = Inr i1" using ub(3,4) t by (simp add: set_tokens_def i1_def tensor_set_ok)
  have s2: "set_embd hp ub i1 = Inr i1" using ub(5) by (simp add: set_embd_def)
  have "\<exists>p. set_pos 1 ub i1 = Inr (i1\<lparr>inp_pos := p\<rparr>)"
  proof (cases "inp_pos ?i0")
    case None
    with ps show ?thesis by (intro exI [of _ None]) (simp add: set_pos_def i1_def)
  next
    case (Some p)
    then have "ub_n_tokens ub \<le> length p" using fit by (simp add: inputs_fit_def)
    with Some ps show ?thesis
      by (intro exI [of _ "Some (take (ub_n_tokens ub) ps @ drop (ub_n_tokens ub) p)"]) (simp add: set_pos_def i1_def tensor_set_ok)
  qed
  then obtain p where s3: "set_pos 1 ub i1 = Inr (i1\<lparr>inp_pos := p\<rparr>)" by blast
  have "\<exists>d. set_out_ids hp cp (int k) ub (i1\<lparr>inp_pos := p\<rparr>) = Inr (i1\<lparr>inp_pos := p, inp_out_ids := d\<rparr>)"
  proof (cases "inp_out_ids ?i0")
    case None
    with cfg(2) show ?thesis by (intro exI [of _ None]) (simp add: set_out_ids_def i1_def)
  next
    case (Some d)
    then have "k \<le> length d" using fit by (simp add: inputs_fit_def)
    from out_ids_data_ok [OF k(2) this ub(2,6)] Some cfg(2) show ?thesis by (auto simp: set_out_ids_def i1_def)
  qed
  then obtain d where s4: "set_out_ids hp cp (int k) ub (i1\<lparr>inp_pos := p\<rparr>) = Inr (i1\<lparr>inp_pos := p, inp_out_ids := d\<rparr>)" by blast
  define i4 where "i4 = i1\<lparr>inp_pos := p, inp_out_ids := d\<rparr>"
  have f: "inp_KQ_mask_swa i4 = None" "inp_KQ_mask i4 = inp_KQ_mask ?i0" "inp_pos_bucket i4 = None" "inp_embd_enc i4 = None" "inp_KQ_mask_cross i4 = None"
    using fit by (simp_all add: inputs_fit_def i4_def i1_def)
  obtain m where s5: "set_masks hp cp False (lc_kv_self c) ub i4 = Inr (i4\<lparr>inp_KQ_mask := m\<rparr>)"
    using set_masks_ok [OF kv(1) ub(1) kv(3) cfg(1) f(1), of hp] f(2) fit by (auto simp: inputs_fit_def)
  show ?thesis
    using s1 s2 s3 s4 s5 f cfg kv(2) env k(1)
    by (simp add: llama_set_inputs_def i4_def set_pooling_def set_states_def set_pos_bucket_def set_embd_enc_def set_cross_mask_def) blast
qed

section \<open>One micro-batch\<close>

lemma copy_out_ok:
  assumes "n \<le> length src" "at + n \<le> length b"
  shows "\<exists>b'. copy_out src n at (Some b) = Inr (Some b') \<and> length b' = length b"
  using assms by (simp add: copy_out_def deref_def)

lemma extract_rows_ok:
  assumes buf: "lo_buf_output c = Some buf" "rows_fit m sz ptr w buf" and ptr: "ptr \<noteq> None" "sz = m * w"
    and k: "lo_n_outputs c = int k" "n_prev + k \<le> n_outputs" "n_outputs \<le> m" and src: "k * w \<le> length src"
  shows "\<exists>buf'. extract_rows ptr sz w n_outputs n_prev src c = Inr (c\<lparr>lo_buf_output := Some buf'\<rparr>) \<and> length buf' = length buf"
proof (cases "k = 0")
  case True
  have "c\<lparr>lo_buf_output := Some buf\<rparr> = c" using buf(1) by simp
  with True k(1) ptr(1) show ?thesis by (intro exI [of _ buf]) (simp add: extract_rows_def)
next
  case False
  obtain base where b: "ptr = Some base" "base + m * w \<le> length buf" using ptr(1) buf(2) by (auto simp: rows_fit_def)
  have le: "(n_prev + k) * w \<le> m * w" using k(2,3) by (intro mult_le_mono1) simp
  then have "base + n_prev * w + k * w \<le> length buf" using b(2) by (simp add: distrib_right)
  from copy_out_ok [OF src this] buf(1) b(1) k le False ptr(2) show ?thesis by (auto simp: extract_rows_def)
qed

definition graph_ok :: "('f, 'r) decode_env \<Rightarrow> llama_hparams \<Rightarrow> bool" where
  "graph_ok env hp \<longleftrightarrow> (\<forall>c ub. gr_status (de_graph env c ub) = GgmlSuccess \<and> length (gr_rows (de_graph env c ub)) = length (lc_rows c) \<and>
     nat (lo_n_outputs c) * hp_n_vocab hp \<le> length (gr_res (de_graph env c ub)) \<and>
     inputs_fit ub (lc_kv_self c) (nat (lo_n_outputs c)) (de_build env c ub))"

definition decoder_config :: "llama_cparams \<Rightarrow> llama_hparams \<Rightarrow> bool" where
  "decoder_config cp hp \<longleftrightarrow> cp_causal_attn cp \<and> hp_causal_attn hp \<and> \<not> cp_embeddings cp \<and> 0 < cp_n_ubatch cp \<and> 0 < cp_n_seq_max cp \<and>
     0 < cp_n_threads cp \<and> 0 < cp_n_threads_batch cp"

text \<open>The output buffer holds \<open>m\<close> rows of logits and maps no token yet.\<close>

definition out_ready :: "llama_hparams \<Rightarrow> nat \<Rightarrow> nat \<Rightarrow> ('f, 'r) llama_context \<Rightarrow> bool" where
  "out_ready hp m l c \<longleftrightarrow> (\<exists>buf. lo_buf_output c = Some buf \<and> rows_fit m (lo_logits_size c) (lo_logits c) (hp_n_vocab hp) buf \<and>
        rows_fit m (lo_embd_size c) (lo_embd c) (hp_n_embd hp) buf) \<and>
     lo_logits c \<noteq> None \<and> lo_logits_size c = m * hp_n_vocab hp \<and> lo_embd c = None \<and> lo_output_ids c = replicate l (-1) \<and>
     \<not> lc_is_encoding c \<and> lc_n_pos_per_token c = 1"

lemma eval_ubatch_ok:
  assumes env: "graph_ok env hp" "decoder_config cp hp" and out: "out_ready hp m l c"
    and kv: "kv_wf (lc_kv_self c)" "\<not> kv_recurrent (lc_kv_self c)" "kv_n (lc_kv_self c) \<le> kv_size (lc_kv_self c)"
    and ub: "ubatch_ok ub" "0 < ub_n_tokens ub" "ub_token ub = Some ts" "ub_n_tokens ub \<le> length ts" "ub_embd ub = None"
      "ub_n_tokens ub \<le> length (ub_output ub)"
    and k: "lo_n_outputs c = int k" "k = length (filter (\<lambda>i. ub_output ub ! i \<noteq> 0) [0..<ub_n_tokens ub]) \<or> k = ub_n_tokens ub"
    and n: "n_prev + k \<le> n_outputs" "n_outputs \<le> m"
  shows "\<exists>c'. eval_ubatch env cp hp n_outputs n_prev ub rs c = Inr (None, c') \<and> out_ready hp m l c' \<and>
    lc_kv_self c' = advance_head (ub_n_tokens ub) (lc_kv_self c) \<and> length (lc_rows c') = length (lc_rows c) \<and>
    lo_sbatch c' = lo_sbatch c \<and> lo_n_outputs c' = int k"
proof -
  let ?ci = "c\<lparr>lc_inputs := de_build env c ub\<rparr>"
  have cfg: "cp_causal_attn cp" "hp_causal_attn hp" "\<not> cp_embeddings cp" "0 < cp_n_threads cp" "0 < cp_n_threads_batch cp"
    using env(2) by (simp_all add: decoder_config_def)
  have o: "lc_n_pos_per_token ?ci = 1" "\<not> lc_is_encoding ?ci" "inputs_fit ub (lc_kv_self ?ci) k (lc_inputs ?ci)"
    using out env(1) [unfolded graph_ok_def, rule_format, of c ub] k(1) by (simp_all add: out_ready_def)
  obtain inp where si: "llama_set_inputs (de_large env) hp cp ub ?ci = Inr (?ci\<lparr>lc_inputs := inp\<rparr>)"
    using set_inputs_ok [OF cfg(1-3), of ?ci ub ts k "de_large env"] kv ub k o by auto
  define c1 where "c1 = c\<lparr>lc_inputs := inp\<rparr>"
  have si': "llama_set_inputs (de_large env) hp cp ub (c\<lparr>lc_inputs := de_build env c ub\<rparr>) = Inr c1" using si by (simp add: c1_def)
  have f1: "lo_n_outputs c1 = int k" "lc_kv_self c1 = lc_kv_self c" using k(1) by (simp_all add: c1_def)
  define r where "r = de_graph env c1 ub"
  have r: "gr_status r = GgmlSuccess" "length (gr_rows r) = length (lc_rows c)" "k * hp_n_vocab hp \<le> length (gr_res r)"
    using env(1) [unfolded graph_ok_def, rule_format, of c1 ub] k(1) by (simp_all add: r_def c1_def)
  define c2 where "c2 = c1\<lparr>lc_rows := gr_rows r, lc_kv_self := advance_head (ub_n_tokens ub) (lc_kv_self c)\<rparr>"
  obtain buf where buf: "lo_buf_output c2 = Some buf" "rows_fit m (lo_logits_size c2) (lo_logits c2) (hp_n_vocab hp) buf"
    "rows_fit m (lo_embd_size c2) (lo_embd c2) (hp_n_embd hp) buf" using out by (auto simp: out_ready_def c2_def c1_def)
  have "lo_logits c2 \<noteq> None" "lo_logits_size c2 = m * hp_n_vocab hp" "lo_n_outputs c2 = int k" using out k(1) by (auto simp: out_ready_def c2_def c1_def)
  from extract_rows_ok [OF buf(1,2) this n r(3)] obtain buf' where x:
    "extract_rows (lo_logits c2) (lo_logits_size c2) (hp_n_vocab hp) n_outputs n_prev (gr_res r) c2 = Inr (c2\<lparr>lo_buf_output := Some buf'\<rparr>)"
    "length buf' = length buf" by blast
  define c3 where "c3 = (if k = 0 then c2 else c2\<lparr>lo_buf_output := Some buf'\<rparr>)"
  have "eval_ubatch env cp hp n_outputs n_prev ub rs c = Inr (None, c3)"
    using si' cfg r(1) f1 x(1) by (simp add: eval_ubatch_def Let_def r_def [symmetric] c3_def c2_def)
  moreover have "out_ready hp m l c3"
    using out buf x(2) rows_fit_length by (auto simp: out_ready_def c3_def c2_def c1_def)
  ultimately show ?thesis using r(2) k(1) by (intro exI [of _ c3]) (simp add: c3_def c2_def c1_def)
qed

text \<open>The state of the loop: what is in the cache and what is still to come are together the tokens
  \<open>T\<close>; the rows written so far are those of the tokens that asked for one.\<close>

definition dec_inv :: "llama_hparams \<Rightarrow> llama_batch \<Rightarrow> nat \<Rightarrow> bool \<Rightarrow> nat \<Rightarrow> nat \<Rightarrow> nat \<Rightarrow> nat \<Rightarrow> (int \<times> int set) multiset \<Rightarrow> nat
    \<Rightarrow> ('f, 'r) llama_context \<Rightarrow> bool" where
  "dec_inv hp b n la ne m l sz T n_prev c \<longleftrightarrow>
     cache_ready (lc_kv_self c) (lc_rows c) \<and> kv_size (lc_kv_self c) = sz \<and> sb_ready b n la ne (lo_sbatch c) \<and> out_ready hp m l c \<and>
     cell_tokens (kv_cells (lc_kv_self c)) + batch_tokens b (sb_rest (lo_sbatch c)) = T \<and>
     sb_out_ids (lo_sbatch c) @ filter (wants_output b la n) (sb_rest (lo_sbatch c)) = filter (wants_output b la n) [0..<n] \<and>
     n_prev = length (sb_out_ids (lo_sbatch c))"

lemma sb_ready_length: "sb_ready b n la ne sb \<Longrightarrow> length (sb_rest sb) = sb_n_tokens sb"
  by (rule sb_rest_length) (simp add: sb_ready_def simple_inv_def)

lemma batch_tokens_size [simp]: "size (batch_tokens b ts) = length ts"
  by (simp add: batch_tokens_def)

lemma dec_inv_room:
  assumes "dec_inv hp b n la ne m l sz T n_prev c" "size T \<le> sz"
  shows "kv_used (lc_kv_self c) + sb_n_tokens (lo_sbatch c) \<le> kv_size (lc_kv_self c)"
proof -
  have "kv_wf (lc_kv_self c)" "size (cell_tokens (kv_cells (lc_kv_self c)) + batch_tokens b (sb_rest (lo_sbatch c))) \<le> sz"
    "sb_ready b n la ne (lo_sbatch c)" "kv_size (lc_kv_self c) = sz"
    using assms by (simp_all add: dec_inv_def cache_ready_def)
  then show ?thesis using cell_tokens_size sb_ready_length by (metis batch_tokens_size size_union)
qed

text \<open>The parts of a batch the loop relies on.\<close>

definition dec_batch :: "llama_batch \<Rightarrow> nat \<Rightarrow> bool \<Rightarrow> nat \<Rightarrow> nat \<Rightarrow> bool" where
  "dec_batch b n la ne n_outputs \<longleftrightarrow> batch_ok b n ne \<and> positions_ok b n \<and> b_token b \<noteq> None \<and> la = (n_outputs = n) \<and>
     n_outputs = length (filter (wants_output b la n) [0..<n])"

lemma simple_view_tokens:
  assumes "simple_view b ne off len ub" "batch_ok b n ne" "b_token b \<noteq> None" "off + len \<le> n"
  shows "\<exists>ts. ub_token ub = Some ts \<and> len \<le> length ts" "ub_embd ub = None"
  using assms by (auto simp: simple_view_def batch_ok_def split: option.splits)

lemma prepare_ubatch_ok:
  assumes inv: "dec_inv hp b n la ne m l sz T n_prev c" and T: "size T \<le> sz" and todo: "0 < sb_n_tokens (lo_sbatch c)"
    and env: "nodes_ok env hp" "decoder_config cp hp" and bt: "dec_batch b n la ne n_outputs"
  shows "\<exists>ub rs' c' k off. llama_prepare_ubatch env cp hp n_outputs n rs c = ret (0, ub, rs', c') \<and>
    cache_ready (lc_kv_self c') (lc_rows c') \<and> kv_size (lc_kv_self c') = sz \<and> kv_n (lc_kv_self c') \<le> kv_size (lc_kv_self c') \<and>
    cell_tokens (kv_cells (lc_kv_self c')) + batch_tokens b (sb_rest (lo_sbatch c')) = T \<and>
    sb_ready b n la ne (lo_sbatch c') \<and> out_ready hp m l c' \<and>
    sb_out_ids (lo_sbatch c') @ filter (wants_output b la n) (sb_rest (lo_sbatch c')) = filter (wants_output b la n) [0..<n] \<and>
    length (sb_out_ids (lo_sbatch c')) = n_prev + k \<and> sb_n_tokens (lo_sbatch c) = ub_n_tokens ub + sb_n_tokens (lo_sbatch c') \<and>
    ubatch_ok ub \<and> 0 < ub_n_tokens ub \<and> simple_view b ne off (ub_n_tokens ub) ub \<and> off + ub_n_tokens ub \<le> n \<and>
    ub_n_tokens ub \<le> length (ub_output ub) \<and> lo_n_outputs c' = int k \<and>
    (k = length (filter (\<lambda>i. ub_output ub ! i \<noteq> 0) [0..<ub_n_tokens ub]) \<or> k = ub_n_tokens ub)"
proof -
  let ?w = "wants_output b la n" and ?sb = "lo_sbatch c" and ?kv = "lc_kv_self c"
  have i: "cache_ready ?kv (lc_rows c)" "kv_size ?kv = sz" "sb_ready b n la ne ?sb" "out_ready hp m l c"
    "cell_tokens (kv_cells ?kv) + batch_tokens b (sb_rest ?sb) = T" "sb_out_ids ?sb @ filter ?w (sb_rest ?sb) = filter ?w [0..<n]"
    "n_prev = length (sb_out_ids ?sb)" using inv by (simp_all add: dec_inv_def)
  have cfg: "hp_causal_attn hp" "0 < cp_n_ubatch cp" using env(2) by (simp_all add: decoder_config_def)
  obtain sb' ub off where p: "next_ubatch cp False ?sb = Inr (sb', ub)" "sb_ready b n la ne sb'" "0 < ub_n_tokens ub"
    "off + ub_n_tokens ub \<le> n" "simple_view b ne off (ub_n_tokens ub) ub" "sb_rest ?sb = [off..<off + ub_n_tokens ub] @ sb_rest sb'"
    "sb_n_tokens ?sb = ub_n_tokens ub + sb_n_tokens sb'" "sb_out_ids sb' = sb_out_ids ?sb @ filter ?w [off..<off + ub_n_tokens ub]"
    "ub_n_tokens ub \<le> length (ub_output ub)" "\<forall>i < ub_n_tokens ub. ub_output ub ! i \<noteq> 0 \<longleftrightarrow> ?w (off + i)"
    using next_piece [OF i(3) todo cfg(2)] by blast
  define k where "k = length (filter ?w [off..<off + ub_n_tokens ub])"
  have b: "batch_ok b n ne" "positions_ok b n" "la = (n_outputs = n)" using bt unfolding dec_batch_def by blast+
  note ub = simple_view_ubatch [OF b(1,2) p(5,4)]
  have uo: "ubatch_outputs n_outputs n ub = Inr k"
    unfolding k_def by (rule ubatch_outputs_ok [OF p(3,9,10)]) (simp add: b(3) wants_output_def)
  have k: "k = length (filter (\<lambda>i. ub_output ub ! i \<noteq> 0) [0..<ub_n_tokens ub]) \<or> k = ub_n_tokens ub"
    using count_flags [OF p(9,10)] by (simp add: k_def)
  have room: "kv_used ?kv + ub_n_tokens ub \<le> kv_size ?kv" using dec_inv_room [OF inv T] p(7) by simp
  have "kv_size ?kv < 2 ^ 30" using i(1) by (simp add: cache_ready_def kv_wf_def)
  moreover have "k \<le> ub_n_tokens ub" unfolding k_def by (metis length_filter_le length_upt add_diff_cancel_left')
  ultimately have k32: "to_i32 k = int k" using room by simp
  define c1 where "c1 = c\<lparr>lo_sbatch := sb', lo_n_outputs := int k\<rparr>"
  have c1: "lc_kv_self c1 = ?kv" "lc_rows c1 = lc_rows c" by (simp_all add: c1_def)
  obtain slot kv rows where s: "obtain_slot env hp ub c1 = ret (slot, c1\<lparr>lc_kv_self := kv, lc_rows := rows\<rparr>)" "si_found slot" "placed ?kv ub kv rows"
    using obtain_slot_ok [of c1 env hp ub] i(1) env(1) ub(1) room c1 by auto
  have kv: "cache_ready kv rows" "kv_size kv = sz" "cell_tokens (kv_cells kv) = cell_tokens (kv_cells ?kv) + ubatch_tokens ub"
    using s(3) i(2) by (simp_all add: placed_def)
  have nr: "\<not> kv_recurrent kv" "\<not> kv_recurrent ?kv" using kv(1) i(1) by (simp_all add: cache_ready_def)
  define c2 where "c2 = c1\<lparr>lc_rows := rows, lc_kv_self := kv\<lparr>kv_n := attention_window cp kv\<rparr>\<rparr>"
  have run: "llama_prepare_ubatch env cp hp n_outputs n rs c = ret (0, ub, restorer_save slot rs, c2)"
    using todo p(1) uo k32 cfg(1) s(1,2) nr c1_def by (simp add: llama_prepare_ubatch_def c2_def Let_def)
  have "cache_ready (lc_kv_self c2) (lc_rows c2)" using kv(1) by (simp add: c2_def cache_ready_def kv_wf_def)
  moreover have "kv_n (lc_kv_self c2) \<le> kv_size (lc_kv_self c2)" by (simp add: c2_def attention_window_def Let_def)
  moreover have "cell_tokens (kv_cells (lc_kv_self c2)) + batch_tokens b (sb_rest (lo_sbatch c2)) = T"
    using i(5) kv(3) ub(2) p(6) by (simp add: c2_def c1_def add.assoc)
  moreover have "sb_out_ids sb' @ filter ?w (sb_rest sb') = filter ?w [0..<n]" using i(6) p(6,8) by simp
  moreover have "out_ready hp m l c2" using i(4) by (auto simp: out_ready_def c2_def c1_def)
  moreover have "length (sb_out_ids sb') = n_prev + k" using i(7) p(8) by (simp add: k_def)
  ultimately show ?thesis using run p ub(1) k kv(2)
    by (intro exI [of _ ub] exI [of _ "restorer_save slot rs"] exI [of _ c2] exI [of _ k] exI [of _ off]) (simp add: c2_def c1_def)
qed

lemma advance_head_ok: "cache_ready kv rows \<Longrightarrow> cache_ready (advance_head n kv) rows"
  by (auto simp: cache_ready_def advance_head_def Let_def kv_wf_def)

lemma decode_loop_ok:
  assumes "dec_inv hp b n la ne m l sz T n_prev c" "size T \<le> sz" "sb_n_tokens (lo_sbatch c) \<le> fuel"
    and env: "nodes_ok env hp" "decoder_config cp hp" "graph_ok env hp" and bt: "dec_batch b n la ne n_outputs" and m: "n_outputs \<le> m"
  shows "\<exists>c' n'. decode_loop fuel env cp hp n_outputs n n_prev rs c = ret (None, c') \<and> dec_inv hp b n la ne m l sz T n' c' \<and>
    sb_n_tokens (lo_sbatch c') = 0"
  using assms(1-3)
proof (induction fuel arbitrary: c n_prev rs)
  case 0
  then show ?case by auto
next
  case (Suc fuel)
  show ?case
  proof (cases "sb_n_tokens (lo_sbatch c) > 0")
    case False
    with Suc.prems show ?thesis by auto
  next
    case True
    obtain ub rs' c1 k off where p: "llama_prepare_ubatch env cp hp n_outputs n rs c = ret (0, ub, rs', c1)"
      "cache_ready (lc_kv_self c1) (lc_rows c1)" "kv_size (lc_kv_self c1) = sz" "kv_n (lc_kv_self c1) \<le> kv_size (lc_kv_self c1)"
      "cell_tokens (kv_cells (lc_kv_self c1)) + batch_tokens b (sb_rest (lo_sbatch c1)) = T"
      "sb_ready b n la ne (lo_sbatch c1)" "out_ready hp m l c1"
      "sb_out_ids (lo_sbatch c1) @ filter (wants_output b la n) (sb_rest (lo_sbatch c1)) = filter (wants_output b la n) [0..<n]"
      "length (sb_out_ids (lo_sbatch c1)) = n_prev + k" "sb_n_tokens (lo_sbatch c) = ub_n_tokens ub + sb_n_tokens (lo_sbatch c1)"
      "ubatch_ok ub" "0 < ub_n_tokens ub" "simple_view b ne off (ub_n_tokens ub) ub" "off + ub_n_tokens ub \<le> n"
      "ub_n_tokens ub \<le> length (ub_output ub)" "lo_n_outputs c1 = int k"
      "k = length (filter (\<lambda>i. ub_output ub ! i \<noteq> 0) [0..<ub_n_tokens ub]) \<or> k = ub_n_tokens ub"
      using prepare_ubatch_ok [OF Suc.prems(1,2) True env(1,2) bt, of rs] by blast
    have wf: "kv_wf (lc_kv_self c1)" "\<not> kv_recurrent (lc_kv_self c1)" using p(2) by (simp_all add: cache_ready_def)
    have b: "batch_ok b n ne" "b_token b \<noteq> None" "n_outputs = length (filter (wants_output b la n) [0..<n])" using bt unfolding dec_batch_def by blast+
    obtain ts where ts: "ub_token ub = Some ts" "ub_n_tokens ub \<le> length ts" "ub_embd ub = None"
      using simple_view_tokens [OF p(13) b(1,2) p(14)] by blast
    have "n_prev + k \<le> n_outputs" unfolding b(3) p(8) [symmetric] using p(9) by simp
    from eval_ubatch_ok [OF env(3,2) p(7) wf p(4,11,12) ts p(15-17) this m, of rs']
    obtain c2 where e: "eval_ubatch env cp hp n_outputs n_prev ub rs' c1 = Inr (None, c2)" "out_ready hp m l c2"
      "lc_kv_self c2 = advance_head (ub_n_tokens ub) (lc_kv_self c1)" "length (lc_rows c2) = length (lc_rows c1)"
      "lo_sbatch c2 = lo_sbatch c1" "lo_n_outputs c2 = int k" by blast
    have "dec_inv hp b n la ne m l sz T (n_prev + k) c2"
      using e p(2,3,5,6,8,9) advance_head_ok [OF p(2), of "ub_n_tokens ub"]
      by (simp add: dec_inv_def cache_ready_def advance_head_def Let_def)
    moreover have "sb_n_tokens (lo_sbatch c2) \<le> fuel" using e(5) p(10,12) Suc.prems(3) by simp
    ultimately obtain c' n' where "decode_loop fuel env cp hp n_outputs n (n_prev + k) rs' c2 = ret (None, c')"
      "dec_inv hp b n la ne m l sz T n' c'" "sb_n_tokens (lo_sbatch c') = 0" using Suc.IH Suc.prems(2) by blast
    then show ?thesis using True p(1) e(1,6) by (intro exI [of _ c'] exI [of _ n']) simp
  qed
qed

section \<open>The whole evaluation\<close>

lemma bad_token_ok:
  assumes "n \<le> length ts" "\<forall>i < n. 0 \<le> ts ! i \<and> ts ! i < int v"
  shows "bad_token v ts n = Inr False"
proof -
  have "rfold (\<lambda>i bad. if bad then Inr True else rbind (rnth ts i) (\<lambda>t. Inr (t < 0 \<or> nat t \<ge> v))) [0..<n] ((\<lambda>i. False) 0) = Inr ((\<lambda>i. False) n)"
    by (rule rfold_upt_closed) (use assms in \<open>auto simp: not_le nat_less_iff\<close>)
  then show ?thesis by (simp add: bad_token_def)
qed

text \<open>Which tokens ask for an output row in a completed batch.\<close>

definition asks :: "llama_batch \<Rightarrow> nat \<Rightarrow> bool" where
  "asks b t \<longleftrightarrow> the (b_logits b) ! t \<noteq> 0"

lemma wants_asks:
  assumes "b_logits b = Some lg" "la = (length (filter (asks b) [0..<n]) = n)"
  shows "filter (wants_output b la n) [0..<n] = filter (asks b) [0..<n]"
proof (cases la)
  case True
  then have "filter (asks b) [0..<n] = [0..<n]" using assms(2) by (metis length_filter_less length_upt diff_zero filter_True less_irrefl)
  with True show ?thesis by (simp add: wants_output_def)
qed (use assms in \<open>simp add: wants_output_def [abs_def] asks_def [abs_def]\<close>)

text \<open>A batch a client may evaluate: completed by \<open>llama_batch_allocr\<close>, with tokens of the vocabulary,
  positions that are not negative, and not longer than the context allows.\<close>

definition decodable :: "('f, 'r) decode_env \<Rightarrow> llama_cparams \<Rightarrow> llama_batch \<Rightarrow> nat \<Rightarrow> bool" where
  "decodable env cp b n \<longleftrightarrow> b_n_tokens b = int n \<and> 0 < n \<and> n \<le> cp_n_batch cp \<and> batch_ok b n (nat (b_n_embd b)) \<and> positions_ok b n \<and>
     b_logits b \<noteq> None \<and> (\<exists>ts. b_token b = Some ts \<and> (\<forall>i < n. 0 \<le> ts ! i \<and> ts ! i < int (de_vocab_n_tokens env)))"

lemma prepare_sbatch_ok:
  fixes c :: "('f :: zero, 'r) llama_context"
  assumes b: "decodable env cp b n" and cfg: "decoder_config cp hp" and alloc: "\<And>sz. \<exists>k. de_alloc env sz = Some k \<and> sz \<le> k"
    and ready: "cache_ready (lc_kv_self c) (lc_rows c)" and room: "kv_used (lc_kv_self c) + n \<le> kv_size (lc_kv_self c)"
    and small: "max n (cp_n_seq_max cp) * hp_n_vocab hp < 2 ^ 32" "max n (cp_n_seq_max cp) * hp_n_embd hp < 2 ^ 32"
    and c: "\<not> lc_is_encoding c" "lc_n_pos_per_token c = 1"
  defines "n_outputs \<equiv> length (filter (asks b) [0..<n])"
  defines "la \<equiv> n_outputs = n"
  shows "\<exists>c' m l. llama_prepare_sbatch env cp hp b c = Inr (0, n_outputs, c') \<and> n_outputs \<le> m \<and>
    l = (if lo_output_ids c = [] then cp_n_batch cp else length (lo_output_ids c)) \<and> sb_n_tokens (lo_sbatch c') = n \<and>
    dec_inv hp b n la (nat (b_n_embd b)) m l (kv_size (lc_kv_self c)) (cell_tokens (kv_cells (lc_kv_self c)) + batch_tokens b [0..<n]) 0 c'"
proof -
  obtain ts lg where tl: "b_token b = Some ts" "b_logits b = Some lg" "\<forall>i < n. 0 \<le> ts ! i \<and> ts ! i < int (de_vocab_n_tokens env)"
    using b by (auto simp: decodable_def)
  have bk: "b_n_tokens b = int n" "n \<le> cp_n_batch cp" "batch_ok b n (nat (b_n_embd b))" using b by (simp_all add: decodable_def)
  have len: "n \<le> length ts" "b_embd b = None" "n \<le> length lg" using bk(3) tl by (auto simp: batch_ok_def)
  have n30: "n < 2 ^ 30" using room ready by (simp add: cache_ready_def kv_wf_def)
  have n32: "nat (b_n_tokens b mod 2 ^ 32) = n" using n30 bk(1) by (simp add: nat_mod_distrib)
  have co: "count_outputs cp (lc_logits_all c) b n = Inr n_outputs"
    using tl(2) cfg count_loop [OF len(3), of "\<lambda>x. x \<noteq> 0"] by (simp add: count_outputs_def embd_pooled_def decoder_config_def n_outputs_def asks_def [abs_def])
  have nr: "\<not> kv_recurrent (lc_kv_self c)" using ready by (simp add: cache_ready_def)
  obtain sb where sb: "from_batch (de_sort_ids env) (de_sort_seq env) (lo_sbatch c) b (nat (b_n_embd b)) True la = Inr sb" "simple_inv sb"
    "sb_rest sb = [0..<n]" "sb_n_tokens sb = n" "sb_out_ids sb = []" "sb_batch sb = Some b" "sb_logits_all sb = la" "length (sb_ids sb) = n"
    "sb_n_embd sb = nat (b_n_embd b)" using from_batch_simple [OF bk(3,1)] by metis
  define c1 where "c1 = c\<lparr>lc_n_queued_tokens := lc_n_queued_tokens c + n, lo_embd_seq := Map.empty, lo_sbatch := sb\<rparr>"
  define m where "m = max n_outputs (cp_n_seq_max cp)"
  have "n_outputs \<le> n" unfolding n_outputs_def by (metis length_filter_le length_upt diff_zero)
  then have mm: "0 < m" "m \<le> max n (cp_n_seq_max cp)" using cfg by (auto simp: m_def decoder_config_def)
  have m32: "m * hp_n_vocab hp < 2 ^ 32" "m * hp_n_embd hp < 2 ^ 32"
    using small mult_le_mono1 [OF mm(2)] by (meson le_less_trans)+
  define l where "l = (if lo_output_ids c = [] then cp_n_batch cp else length (lo_output_ids c))"
  obtain c2 buf where rv: "llama_output_reserve (de_alloc env) hp cp c1 n_outputs = (m, c2)" "lo_buf_output c2 = Some buf"
    "lo_sbatch c2 = sb" "llama_outputs.more c2 = llama_outputs.more c1" "lo_output_ids c2 = replicate l (-1)"
    "rows_fit m (lo_logits_size c2) (lo_logits c2) (hp_n_vocab hp) buf" "rows_fit m (lo_embd_size c2) (lo_embd c2) (hp_n_embd hp) buf"
    "lo_logits c2 \<noteq> None" "lo_logits_size c2 = m * hp_n_vocab hp" "lo_embd c2 = None"
    using reserve_ok [OF alloc m_def mm(1) m32, of c1] cfg by (auto simp: decoder_config_def c1_def l_def)
  have more: "lc_kv_self c2 = lc_kv_self c" "lc_rows c2 = lc_rows c" "\<not> lc_is_encoding c2" "lc_n_pos_per_token c2 = 1"
    using rv(4) c by (cases c2; cases c1; cases c; simp add: c1_def)+
  have "llama_prepare_sbatch env cp hp b c = Inr (0, n_outputs, c2)"
    using tl(1) len(2) bad_token_ok [OF len(1) tl(3)] bk(2) cfg co nr sb(1) rv(1) unfolding llama_prepare_sbatch_def Let_def n32 la_def
    by (simp add: decoder_config_def c1_def m_def)
  moreover have "out_ready hp m l c2" using rv more by (auto simp: out_ready_def)
  then have "dec_inv hp b n la (nat (b_n_embd b)) m l (kv_size (lc_kv_self c)) (cell_tokens (kv_cells (lc_kv_self c)) + batch_tokens b [0..<n]) 0 c2"
    using ready more rv(3) sb by (simp add: dec_inv_def sb_ready_def)
  ultimately show ?thesis using rv(3) sb(4) l_def m_def
    by (intro exI [of _ c2] exI [of _ m] exI [of _ l]) simp
qed

lemma output_mapping_ok:
  assumes inv: "dec_inv hp b n la ne m l sz T n' c" and fin: "sb_n_tokens (lo_sbatch c) = 0" and m: "n_outputs \<le> m" and l: "n \<le> l" "n < 2 ^ 30"
    and out: "filter (wants_output b la n) [0..<n] = out" "n_outputs = length out"
  shows "\<exists>c'. set_output_mapping n_outputs c = Inr c' \<and> outputs_ok hp out c' \<and> lc_kv_self c' = lc_kv_self c"
proof -
  have i: "sb_ready b n la ne (lo_sbatch c)" "out_ready hp m l c" "sb_out_ids (lo_sbatch c) @ filter (wants_output b la n) (sb_rest (lo_sbatch c)) = out"
    using inv out(1) by (simp_all add: dec_inv_def)
  have "sb_rest (lo_sbatch c) = []" using sb_ready_length [OF i(1)] fin by simp
  then have ids: "sb_out_ids (lo_sbatch c) = out" using i(3) by simp
  have srt: "sorted out" "distinct out" "\<forall>t \<in> set out. t < l" using out(1) l(1) by (auto simp: sorted_wrt_filter)
  from set_output_ids_ok [OF srt(2,3)] i(2) obtain oids where o: "set_output_ids out (lo_output_ids c) = Inr oids" "maps_rows out oids"
    by (auto simp: out_ready_def)
  have "n_outputs \<le> n" unfolding out(2) out(1) [symmetric] by (metis length_filter_le length_upt diff_zero)
  then have n32: "to_i32 n_outputs = int n_outputs" using l(2) by simp
  define c1 where "c1 = c\<lparr>lo_output_ids := oids, lo_n_outputs := int n_outputs\<rparr>"
  define c' where "c' = (if out = [0..<n_outputs] then c1\<lparr>lo_sbatch := (lo_sbatch c1)\<lparr>sb_out_ids := []\<rparr>\<rparr> else c1)"
  have "set_output_mapping n_outputs c = Inr c'"
    using ids out(2) o(1) n32 by (simp add: set_output_mapping_def Let_def c'_def c1_def)
  moreover have "outputs_ok hp out c'"
    using i(2) o(2) out(2) ids srt(1) rows_fit_mono [OF _ m] by (auto simp: outputs_ok_def out_ready_def c'_def c1_def)
  ultimately show ?thesis by (intro exI [of _ c']) (simp add: c'_def c1_def)
qed

lemma decode_ok:
  fixes c :: "('f :: zero, 'r) llama_context"
  assumes ready: "cache_ready (lc_kv_self c) (lc_rows c)" and env: "nodes_ok env hp" "decoder_config cp hp" "graph_ok env hp"
    and alloc: "\<And>sz. \<exists>k. de_alloc env sz = Some k \<and> sz \<le> k"
    and batch: "llama_batch_allocr inp p0 = Inr b" "p0 = (if b_pos inp \<noteq> None then -1 else max_pos (lc_kv_self c) + 1)" "i32_ok p0"
    and b: "decodable env cp b n" and ids: "lo_output_ids c = [] \<or> n \<le> length (lo_output_ids c)" and c: "lc_n_pos_per_token c = 1"
    and room: "kv_used (lc_kv_self c) + n \<le> kv_size (lc_kv_self c)"
    and small: "max n (cp_n_seq_max cp) * hp_n_vocab hp < 2 ^ 32" "max n (cp_n_seq_max cp) * hp_n_embd hp < 2 ^ 32" and fuel: "n \<le> fuel"
  shows "\<exists>c'. llama_decode_impl fuel env cp hp inp c = ret (0, c') \<and> kv_wf (lc_kv_self c') \<and> kv_size (lc_kv_self c') = kv_size (lc_kv_self c) \<and>
    cell_tokens (kv_cells (lc_kv_self c')) = cell_tokens (kv_cells (lc_kv_self c)) + batch_tokens b [0..<n] \<and>
    outputs_ok hp (filter (asks b) [0..<n]) c'"
proof -
  let ?c0 = "c\<lparr>lc_is_encoding := False\<rparr>" and ?out = "filter (asks b) [0..<n]"
  define la where "la = (length ?out = n)"
  define T where "T = cell_tokens (kv_cells (lc_kv_self c)) + batch_tokens b [0..<n]"
  obtain c1 m l where s: "llama_prepare_sbatch env cp hp b ?c0 = Inr (0, length ?out, c1)" "length ?out \<le> m"
    "l = (if lo_output_ids c = [] then cp_n_batch cp else length (lo_output_ids c))" "sb_n_tokens (lo_sbatch c1) = n"
    "dec_inv hp b n la (nat (b_n_embd b)) m l (kv_size (lc_kv_self c)) T 0 c1"
  proof -
    have c0: "cache_ready (lc_kv_self ?c0) (lc_rows ?c0)" "kv_used (lc_kv_self ?c0) + n \<le> kv_size (lc_kv_self ?c0)" "\<not> lc_is_encoding ?c0"
      "lc_n_pos_per_token ?c0 = 1" using ready room c by simp_all
    have "lo_output_ids ?c0 = lo_output_ids c" "lc_kv_self ?c0 = lc_kv_self c" by simp_all
    with prepare_sbatch_ok [OF b env(2) alloc c0(1,2) small c0(3,4)] that show ?thesis unfolding la_def T_def by metis
  qed
  have bk: "b_n_tokens b = int n" "0 < n" "n \<le> cp_n_batch cp" "batch_ok b n (nat (b_n_embd b))" "positions_ok b n" "b_token b \<noteq> None"
    using b by (auto simp: decodable_def)
  obtain lg where lg: "b_logits b = Some lg" using b by (auto simp: decodable_def)
  note w = wants_asks [OF lg la_def]
  have wf: "kv_wf (lc_kv_self c)" using ready by (simp add: cache_ready_def)
  have T: "size T \<le> kv_size (lc_kv_self c)" unfolding T_def using cell_tokens_size [OF wf] room by simp
  have bt: "dec_batch b n la (nat (b_n_embd b)) (length ?out)"
    unfolding dec_batch_def w using bk by (simp add: la_def)
  obtain c2 n' where lp: "decode_loop fuel env cp hp (length ?out) n 0 (new_restorer (lc_kv_self ?c0)) c1 = ret (None, c2)"
    "dec_inv hp b n la (nat (b_n_embd b)) m l (kv_size (lc_kv_self c)) T n' c2" "sb_n_tokens (lo_sbatch c2) = 0"
    using decode_loop_ok [OF s(5) T _ env bt s(2)] fuel s(4) by blast
  have n30: "n < 2 ^ 30" using room wf by (simp add: kv_wf_def)
  have nl: "n \<le> l" using s(3) ids bk(3) by auto
  obtain c3 where mp: "set_output_mapping (length ?out) c2 = Inr c3" "outputs_ok hp ?out c3" "lc_kv_self c3 = lc_kv_self c2"
    using output_mapping_ok [OF lp(2,3) s(2) nl n30 w refl] by blast
  define c4 where "c4 = c3\<lparr>lc_kv_self := request_defrag env cp (lc_kv_self c3)\<rparr>"
  have nz: "b_n_tokens inp \<noteq> 0" using batch(1) by (auto simp: llama_batch_allocr_def)
  have p: "(if b_pos inp \<noteq> None then Inr (-1) else i32_add (max_pos (lc_kv_self ?c0)) 1) = Inr p0"
    using batch(2,3) by (cases "b_pos inp") (simp_all add: i32_add_def)
  have "llama_decode_impl fuel env cp hp inp c = ret (0, c4)"
    unfolding llama_decode_impl_def Let_def p c4_def using nz batch(1) s(1) lp(1) mp(1) bk(1) by simp
  moreover have "kv_wf (lc_kv_self c2)" "cell_tokens (kv_cells (lc_kv_self c2)) = T" "kv_size (lc_kv_self c2) = kv_size (lc_kv_self c)"
    using lp(2,3) sb_ready_length [of b n la "nat (b_n_embd b)" "lo_sbatch c2"] by (simp_all add: dec_inv_def cache_ready_def batch_tokens_def)
  moreover have "outputs_ok hp ?out c4" using mp(2) by (simp add: outputs_ok_def c4_def)
  ultimately show ?thesis using mp(3)
    by (intro exI [of _ c4]) (simp add: c4_def T_def request_defrag_def llama_kv_cache_defrag_def kv_wf_def)
qed



text \<open>Two tokens and a cache of four cells whose two free cells are not adjacent.\<close>

definition zero_env :: "(int, int) decode_env" where
  "zero_env = \<lparr>de_vocab_n_tokens = 2, de_rot = (\<lambda>d r. r), de_has_rope = True, de_max_nodes = 8192, de_alloc = Some,
     de_large = (\<lambda>r n m. 0), de_sort_ids = (\<lambda>lt xs. xs), de_sort_seq = (\<lambda>lt xs. xs),
     de_build = (\<lambda>c ub. no_inputs\<lparr>inp_tokens := Some (replicate (ub_n_tokens ub) 0)\<rparr>),
     de_graph = (\<lambda>c ub. \<lparr>gr_status = GgmlSuccess, gr_rows = lc_rows c, gr_res = replicate (nat (lo_n_outputs c) * 2) 0, gr_embd = None\<rparr>),
     de_defrag_on = False, de_fragmented = (\<lambda>n used. False)\<rparr>"

definition empty_sbatch :: llama_sbatch where
  "empty_sbatch = \<lparr>sb_n_tokens = 0, sb_n_embd = 0, sb_logits_all = False, sb_ids = [], sb_out_ids = [], sb_seq = [], sb_batch = None,
     ubuf_token = [], ubuf_embd = [], ubuf_pos = [], ubuf_n_seq_id = [], ubuf_seq_id = [], ubuf_output = []\<rparr>"

definition holed_context :: "(int, int) llama_context" where
  "holed_context = \<lparr>lo_sbatch = empty_sbatch, lo_buf_output = None, lo_logits_size = 0, lo_logits = None, lo_output_ids = [],
     lo_output_size = 0, lo_n_outputs = 0, lo_embd_size = 0, lo_embd = None, lo_embd_seq = Map.empty,
     lc_kv_self = cache_of False 0 [cell_of 0 {0}, new_cell, cell_of 1 {0}, new_cell], lc_rows = [10, 0, 11, 0], lc_inputs = no_inputs,
     lc_n_queued_tokens = 0, lc_logits_all = False, lc_is_encoding = False, lc_n_pos_per_token = 1, lc_embd_enc = [], lc_seq_ids_enc = []\<rparr>"


end
