(* ===== verification/Unicode.thy ===== *)
theory Unicode
  imports Prelude
begin

unbundle bit_operations_syntax

text \<open>
  UTF-8 and the byte encoding of the BPE tokenizers: \<^verbatim>\<open>unicode.cpp\<close>.

  Bytes and code points are natural numbers, with the bit operations of the source (a \<open>char\<close> is
  masked before use, so its sign does not matter). The generated tables of \<^verbatim>\<open>unicode-data.cpp\<close> are
  a record that the functions using them take as an argument.
\<close>

section \<open>Encoding and decoding a code point\<close>

definition unicode_len_utf8 :: "nat \<Rightarrow> nat res" where
  "unicode_len_utf8 src = rnth [1, 1, 1, 1, 1, 1, 1, 1, 1, 1, 1, 1, 2, 2, 3, 4] (drop_bit 4 src)"

definition unicode_cpt_to_utf8 :: "nat \<Rightarrow> nat list res" where
  "unicode_cpt_to_utf8 cpt =
    (if cpt \<le> 0x7f then Inr [cpt]
     else if 0x80 \<le> cpt \<and> cpt \<le> 0x7ff then
       Inr [0xc0 OR (drop_bit 6 cpt AND 0x1f), 0x80 OR (cpt AND 0x3f)]
     else if 0x800 \<le> cpt \<and> cpt \<le> 0xffff then
       Inr [0xe0 OR (drop_bit 12 cpt AND 0x0f), 0x80 OR (drop_bit 6 cpt AND 0x3f), 0x80 OR (cpt AND 0x3f)]
     else if 0x10000 \<le> cpt \<and> cpt \<le> 0x10ffff then
       Inr [0xf0 OR (drop_bit 18 cpt AND 0x07), 0x80 OR (drop_bit 12 cpt AND 0x3f),
            0x80 OR (drop_bit 6 cpt AND 0x3f), 0x80 OR (cpt AND 0x3f)]
     else Inl (Thrown ''invalid codepoint''))"

definition is_cont :: "nat list \<Rightarrow> nat \<Rightarrow> bool" where
  "is_cont utf8 i \<longleftrightarrow> i < length utf8 \<and> utf8 ! i AND 0xc0 = 0x80"

text \<open>The offset is an in-out parameter: the result carries its new value; a throw leaves it as it was.\<close>

definition unicode_cpt_from_utf8 :: "nat list \<Rightarrow> nat \<Rightarrow> (nat \<times> nat) res" where
  "unicode_cpt_from_utf8 utf8 off =
    rbind (rnth utf8 off) (\<lambda>b.
    if b AND 0x80 = 0 then Inr (b, off + 1)
    else if b AND 0x40 = 0 then Inl (Thrown ''invalid character'')
    else if b AND 0x20 = 0 then
      (if off + 1 \<ge> length utf8 \<or> \<not> is_cont utf8 (off + 1) then Inl (Thrown ''invalid character'')
       else Inr (push_bit 6 (b AND 0x1f) OR (utf8 ! (off + 1) AND 0x3f), off + 2))
    else if b AND 0x10 = 0 then
      (if off + 2 \<ge> length utf8 \<or> \<not> is_cont utf8 (off + 1) \<or> \<not> is_cont utf8 (off + 2) then Inl (Thrown ''invalid character'')
       else Inr (push_bit 12 (b AND 0x0f) OR push_bit 6 (utf8 ! (off + 1) AND 0x3f) OR (utf8 ! (off + 2) AND 0x3f), off + 3))
    else if b AND 0x08 = 0 then
      (if off + 3 \<ge> length utf8 \<or> \<not> is_cont utf8 (off + 1) \<or> \<not> is_cont utf8 (off + 2) \<or> \<not> is_cont utf8 (off + 3)
       then Inl (Thrown ''invalid character'')
       else Inr (push_bit 18 (b AND 0x07) OR push_bit 12 (utf8 ! (off + 1) AND 0x3f) OR push_bit 6 (utf8 ! (off + 2) AND 0x3f)
                 OR (utf8 ! (off + 3) AND 0x3f), off + 4))
    else Inl (Thrown ''failed to convert utf8 to codepoint''))"

lemma cpt_from_utf8_advances:
  "unicode_cpt_from_utf8 utf8 off = Inr (c, off') \<Longrightarrow> off < off' \<and> off' \<le> length utf8"
  by (auto simp: unicode_cpt_from_utf8_def res_simps rnth_def is_cont_def split: if_splits)

text \<open>The loop of \<open>unicode_cpts_from_utf8\<close>: an invalid byte gives the replacement character.\<close>

function cpts_loop :: "nat list \<Rightarrow> nat \<Rightarrow> nat list" where
  "cpts_loop utf8 off =
     (if off < length utf8
      then case unicode_cpt_from_utf8 utf8 off of
             Inr (c, off') \<Rightarrow> c # cpts_loop utf8 off'
           | Inl _ \<Rightarrow> 0xFFFD # cpts_loop utf8 (off + 1)
      else [])"
  by pat_completeness auto
termination
  by (relation "measure (\<lambda>(u, off). length u - off)") (auto dest!: cpt_from_utf8_advances)

declare cpts_loop.simps [simp del]

definition unicode_cpts_from_utf8 :: "nat list \<Rightarrow> nat list" where
  "unicode_cpts_from_utf8 utf8 = cpts_loop utf8 0"

fun unicode_cpts_to_utf8 :: "nat list \<Rightarrow> nat list res" where
  "unicode_cpts_to_utf8 [] = Inr []"
| "unicode_cpts_to_utf8 (c # cs) =
     rbind (unicode_cpt_to_utf8 c) (\<lambda>s. rbind (unicode_cpts_to_utf8 cs) (\<lambda>r. Inr (s @ r)))"

section \<open>Arithmetic of the bit operations\<close>

lemma mask_bits: "(x::nat) AND 0x1f = x mod 32" "x AND 0x3f = x mod 64" "x AND 0x0f = x mod 16" "x AND 0x07 = x mod 8"
  using take_bit_eq_mask [of 5 x] take_bit_eq_mask [of 6 x] take_bit_eq_mask [of 4 x] take_bit_eq_mask [of 3 x]
  by (simp_all add: take_bit_eq_mod mask_eq_exp_minus_1)

lemma or_disjoint: "y < 2 ^ k \<Longrightarrow> push_bit k x OR y = x * 2 ^ k + (y::nat)"
proof -
  assume y: "y < 2 ^ k"
  have "push_bit k x + y = push_bit k x OR y"
  proof (rule disjunctive_add)
    fix n
    have "take_bit k y = y" using y by (simp add: take_bit_nat_eq_self)
    then have "bit y n \<Longrightarrow> n < k" by (metis bit_take_bit_iff)
    then show "\<not> bit (push_bit k x) n \<or> \<not> bit y n" by (auto simp: bit_push_bit_iff)
  qed
  then show ?thesis by (simp add: push_bit_eq_mult)
qed

lemma lead_bits: "y < 64 \<Longrightarrow> 0x80 OR y = 128 + (y::nat)" "y < 32 \<Longrightarrow> 0xc0 OR y = 192 + y"
    "y < 16 \<Longrightarrow> 0xe0 OR y = 224 + y" "y < 8 \<Longrightarrow> 0xf0 OR y = 240 + y"
  using or_disjoint [of y 6 2] or_disjoint [of y 5 6] or_disjoint [of y 4 14] or_disjoint [of y 3 30]
  by (simp_all add: push_bit_eq_mult)

lemma test_bits: "((b::nat) AND 0x80 = 0) = even (b div 128)" "(b AND 0x40 = 0) = even (b div 64)" "(b AND 0x20 = 0) = even (b div 32)"
    "(b AND 0x10 = 0) = even (b div 16)" "(b AND 0x08 = 0) = even (b div 8)"
  using and_exp_eq_0_iff_not_bit [of b 7] and_exp_eq_0_iff_not_bit [of b 6] and_exp_eq_0_iff_not_bit [of b 5]
    and_exp_eq_0_iff_not_bit [of b 4] and_exp_eq_0_iff_not_bit [of b 3]
  by (simp_all add: bit_iff_odd)

lemma and_push_bit: "(b::nat) AND push_bit k m = push_bit k (drop_bit k b AND m)"
  by (rule bit_eqI) (auto simp: bit_simps)

lemma cont_bits: "((b::nat) AND 0xc0 = 0x80) = (b div 64 mod 4 = 2)"
proof -
  have "b AND 0xc0 = push_bit 6 (drop_bit 6 b AND 3)" using and_push_bit [of b 6 3] by (simp add: push_bit_eq_mult)
  also have "drop_bit 6 b AND 3 = drop_bit 6 b mod 4"
    using take_bit_eq_mask [of 2 "drop_bit 6 b"] by (simp add: take_bit_eq_mod mask_eq_exp_minus_1)
  finally show ?thesis by (simp add: push_bit_eq_mult drop_bit_eq_div)
qed

lemmas utf8_bits = mask_bits lead_bits test_bits cont_bits drop_bit_eq_div

lemma join_bits: "y < 64 \<Longrightarrow> push_bit 6 x OR y = x * 64 + (y::nat)" "y < 4096 \<Longrightarrow> push_bit 12 x OR y = x * 4096 + y"
    "y < 262144 \<Longrightarrow> push_bit 18 x OR y = x * 262144 + y"
  using or_disjoint [of y 6 x] or_disjoint [of y 12 x] or_disjoint [of y 18 x] by simp_all

section \<open>Round trips\<close>

abbreviation valid_cpt :: "nat \<Rightarrow> bool" where
  "valid_cpt c \<equiv> c \<le> 0x10ffff"

text \<open>The encoding of a valid code point, in arithmetic.\<close>

definition utf8_of :: "nat \<Rightarrow> nat list" where
  "utf8_of c =
    (if c \<le> 0x7f then [c]
     else if c \<le> 0x7ff then [192 + c div 64, 128 + c mod 64]
     else if c \<le> 0xffff then [224 + c div 4096, 128 + c div 64 mod 64, 128 + c mod 64]
     else [240 + c div 262144, 128 + c div 4096 mod 64, 128 + c div 64 mod 64, 128 + c mod 64])"

lemma cpt_to_utf8_eq: "unicode_cpt_to_utf8 c = (if valid_cpt c then Inr (utf8_of c) else Inl (Thrown ''invalid codepoint''))"
  by (simp add: unicode_cpt_to_utf8_def utf8_of_def utf8_bits div_le_mono)

lemma utf8_of_bytes: "valid_cpt c \<Longrightarrow> \<forall>b \<in> set (utf8_of c). b < 256"
  by (auto simp: utf8_of_def)

lemma nth_after: "(pre @ x # xs) ! length pre = x" "(pre @ x # y # xs) ! Suc (length pre) = y"
    "(pre @ x # y # z # xs) ! Suc (Suc (length pre)) = z" "(pre @ x # y # z # w # xs) ! Suc (Suc (Suc (length pre))) = w"
  by (simp_all add: nth_append)

lemma div_mod_parts: "r < k \<Longrightarrow> (a * k + r) div k = a \<and> (a * k + r) mod k = (r::nat)"
  by simp

lemma cont_byte: "(128 + c mod 64) div 64 mod 4 = (2::nat)" "(128 + c mod 64) mod 64 = (c mod 64 :: nat)"
  using div_mod_parts [of "c mod 64" 64 2] by simp_all

lemma lead2: "q < 32 \<Longrightarrow> odd ((192 + q) div 128) \<and> odd ((192 + q) div 64) \<and> even ((192 + q) div 32) \<and> (192 + q) mod 32 = (q::nat)"
  using div_mod_parts [of "64 + q" 128 1] div_mod_parts [of q 64 3] div_mod_parts [of q 32 6] by simp

lemma lead3: "q < 16 \<Longrightarrow> odd ((224 + q) div 128) \<and> odd ((224 + q) div 64) \<and> odd ((224 + q) div 32) \<and>
    even ((224 + q) div 16) \<and> (224 + q) mod 16 = (q::nat)"
  using div_mod_parts [of "96 + q" 128 1] div_mod_parts [of "32 + q" 64 3] div_mod_parts [of q 32 7] div_mod_parts [of q 16 14] by simp

lemma lead4: "q < 8 \<Longrightarrow> odd ((240 + q) div 128) \<and> odd ((240 + q) div 64) \<and> odd ((240 + q) div 32) \<and> odd ((240 + q) div 16) \<and>
    even ((240 + q) div 8) \<and> (240 + q) mod 8 = (q::nat)"
  using div_mod_parts [of "112 + q" 128 1] div_mod_parts [of "48 + q" 64 3] div_mod_parts [of "16 + q" 32 7]
    div_mod_parts [of q 16 15] div_mod_parts [of q 8 30] by simp

lemma split3: "c div 4096 * 4096 + (c div 64 mod 64 * 64 + c mod 64) = (c::nat)" "c div 64 mod 64 * 64 + c mod 64 < (4096::nat)"
proof -
  have "c div 4096 = c div 64 div 64" by (simp add: div_mult2_eq [symmetric])
  then show "c div 4096 * 4096 + (c div 64 mod 64 * 64 + c mod 64) = c"
    using div_mult_mod_eq [of c 64] div_mult_mod_eq [of "c div 64" 64] by linarith
  show "c div 64 mod 64 * 64 + c mod 64 < 4096"
    using mod_less_divisor [of 64 "c div 64"] mod_less_divisor [of 64 c] by linarith
qed

lemma split4: "c div 262144 * 262144 + (c div 4096 mod 64 * 4096 + (c div 64 mod 64 * 64 + c mod 64)) = (c::nat)"
    "c div 4096 mod 64 * 4096 + (c div 64 mod 64 * 64 + c mod 64) < (262144::nat)"
proof -
  have "c div 262144 = c div 4096 div 64" by (simp add: div_mult2_eq [symmetric])
  then show "c div 262144 * 262144 + (c div 4096 mod 64 * 4096 + (c div 64 mod 64 * 64 + c mod 64)) = c"
    using div_mult_mod_eq [of "c div 4096" 64] split3 [of c] by linarith
  show "c div 4096 mod 64 * 4096 + (c div 64 mod 64 * 64 + c mod 64) < 262144"
    using split3(2) [of c] mod_less_divisor [of 64 "c div 4096"] by linarith
qed

text \<open>Decoding at the start of an encoded code point gives it back and steps over it.\<close>

lemma from_utf8_of:
  assumes "valid_cpt c"
  shows "unicode_cpt_from_utf8 (pre @ utf8_of c @ post) (length pre) = Inr (c, length pre + length (utf8_of c))"
proof -
  consider "c \<le> 0x7f" | "0x7f < c" "c \<le> 0x7ff" | "0x7ff < c" "c \<le> 0xffff" | "0xffff < c" by linarith
  then show ?thesis
  proof cases
    case 1
    then have "even (c div 128)" by simp
    with 1 show ?thesis by (simp add: utf8_of_def unicode_cpt_from_utf8_def rnth_def utf8_bits nth_after)
  next
    case 2
    have l: "odd ((192 + c div 64) div 128)" "odd ((192 + c div 64) div 64)" "even ((192 + c div 64) div 32)"
      "(192 + c div 64) mod 32 = c div 64" using lead2 [of "c div 64"] 2 by simp_all
    have u: "utf8_of c = [192 + c div 64, 128 + c mod 64]" using 2 by (simp add: utf8_of_def)
    show ?thesis
      by (simp add: u unicode_cpt_from_utf8_def rnth_def utf8_bits nth_after is_cont_def l cont_byte join_bits)
  next
    case 3
    have l: "odd ((224 + c div 4096) div 128)" "odd ((224 + c div 4096) div 64)" "odd ((224 + c div 4096) div 32)"
      "even ((224 + c div 4096) div 16)" "(224 + c div 4096) mod 16 = c div 4096" using lead3 [of "c div 4096"] 3 by simp_all
    have u: "utf8_of c = [224 + c div 4096, 128 + c div 64 mod 64, 128 + c mod 64]" using 3 by (simp add: utf8_of_def)
    show ?thesis
      by (simp add: u unicode_cpt_from_utf8_def rnth_def utf8_bits nth_after is_cont_def l cont_byte join_bits split3)
  next
    case 4
    have l: "odd ((240 + c div 262144) div 128)" "odd ((240 + c div 262144) div 64)" "odd ((240 + c div 262144) div 32)"
      "odd ((240 + c div 262144) div 16)" "even ((240 + c div 262144) div 8)" "(240 + c div 262144) mod 8 = c div 262144"
      using lead4 [of "c div 262144"] assms by simp_all
    have u: "utf8_of c = [240 + c div 262144, 128 + c div 4096 mod 64, 128 + c div 64 mod 64, 128 + c mod 64]"
      using 4 by (simp add: utf8_of_def)
    show ?thesis
      by (simp add: u unicode_cpt_from_utf8_def rnth_def utf8_bits nth_after is_cont_def l cont_byte join_bits split4)
  qed
qed

lemma utf8_of_nonempty [simp]: "utf8_of c \<noteq> []" "0 < length (utf8_of c)"
  by (simp_all add: utf8_of_def)

lemma cpts_loop_of:
  "\<forall>c \<in> set cs. valid_cpt c \<Longrightarrow> cpts_loop (pre @ concat (map utf8_of cs)) (length pre) = cs"
proof (induction cs arbitrary: pre)
  case Nil
  show ?case by (simp add: cpts_loop.simps)
next
  case (Cons c cs)
  have "cpts_loop ((pre @ utf8_of c) @ concat (map utf8_of cs)) (length (pre @ utf8_of c)) = cs"
    by (rule Cons.IH) (use Cons.prems in simp)
  with Cons.prems show ?case
    by (subst cpts_loop.simps) (simp add: from_utf8_of)
qed

lemma cpts_to_utf8_eq: "\<forall>c \<in> set cs. valid_cpt c \<Longrightarrow> unicode_cpts_to_utf8 cs = Inr (concat (map utf8_of cs))"
  by (induction cs) (simp_all add: cpt_to_utf8_eq)

lemma utf8_of_inj: "valid_cpt c \<Longrightarrow> valid_cpt d \<Longrightarrow> utf8_of c = utf8_of d \<Longrightarrow> c = d"
  using from_utf8_of [of c "[]" "[]"] from_utf8_of [of d "[]" "[]"] by simp

section \<open>The byte encoding of the BPE tokenizers\<close>

definition printable :: "nat \<Rightarrow> bool" where
  "printable ch \<longleftrightarrow> (0x21 \<le> ch \<and> ch \<le> 0x7E) \<or> (0xA1 \<le> ch \<and> ch \<le> 0xAC) \<or> (0xAE \<le> ch \<and> ch \<le> 0xFF)"

text \<open>The two maps of the source as \<open>\<rightharpoonup>\<close> functions; a \<open>for\<close> loop is a fold over its range.\<close>

definition put_range :: "nat \<Rightarrow> nat \<Rightarrow> (nat \<rightharpoonup> nat list) \<Rightarrow> (nat \<rightharpoonup> nat list) res" where
  "put_range lo hi m = rfold (\<lambda>ch m. rbind (unicode_cpt_to_utf8 ch) (\<lambda>s. Inr (m(ch \<mapsto> s)))) [lo..<Suc hi] m"

definition unicode_byte_to_utf8_map :: "(nat \<rightharpoonup> nat list) res" where
  "unicode_byte_to_utf8_map =
    rbind (put_range 0x21 0x7E Map.empty) (\<lambda>m. rbind (put_range 0xA1 0xAC m) (\<lambda>m. rbind (put_range 0xAE 0xFF m) (\<lambda>m.
    rbind (rfold (\<lambda>ch (m, n). if m ch = None
             then rbind (unicode_cpt_to_utf8 (256 + n)) (\<lambda>s. Inr (m(ch \<mapsto> s), n + 1)) else Inr (m, n)) [0..<256] (m, 0)) (\<lambda>(m, _).
    Inr m))))"

definition put_range_inv :: "nat \<Rightarrow> nat \<Rightarrow> (nat list \<rightharpoonup> nat) \<Rightarrow> (nat list \<rightharpoonup> nat) res" where
  "put_range_inv lo hi m = rfold (\<lambda>ch m. rbind (unicode_cpt_to_utf8 ch) (\<lambda>s. Inr (m(s \<mapsto> ch)))) [lo..<Suc hi] m"

definition unicode_utf8_to_byte_map :: "(nat list \<rightharpoonup> nat) res" where
  "unicode_utf8_to_byte_map =
    rbind (put_range_inv 0x21 0x7E Map.empty) (\<lambda>m. rbind (put_range_inv 0xA1 0xAC m) (\<lambda>m. rbind (put_range_inv 0xAE 0xFF m) (\<lambda>m.
    rbind (rfold (\<lambda>ch (m, n). rbind (unicode_cpt_to_utf8 ch) (\<lambda>s. if m s = None
             then rbind (unicode_cpt_to_utf8 (256 + n)) (\<lambda>t. Inr (m(t \<mapsto> ch), n + 1)) else Inr (m, n))) [0..<256] (m, 0)) (\<lambda>(m, _).
    Inr m))))"

definition unicode_byte_to_utf8 :: "nat \<Rightarrow> nat list res" where
  "unicode_byte_to_utf8 b = rbind unicode_byte_to_utf8_map (\<lambda>m.
     case m b of Some s \<Rightarrow> Inr s | None \<Rightarrow> Inl (Thrown ''out_of_range''))"

definition unicode_utf8_to_byte :: "nat list \<Rightarrow> nat res" where
  "unicode_utf8_to_byte s = rbind unicode_utf8_to_byte_map (\<lambda>m.
     case m s of Some b \<Rightarrow> Inr b | None \<Rightarrow> Inl (Thrown ''out_of_range''))"

text \<open>The code point that stands for a byte: itself when printable, otherwise the next free one
  from 256.\<close>

definition gap_index :: "nat \<Rightarrow> nat" where
  "gap_index b = length (filter (\<lambda>c. \<not> printable c) [0..<b])"

definition byte_cpt :: "nat \<Rightarrow> nat" where
  "byte_cpt b = (if printable b then b else 256 + gap_index b)"

lemma gap_index_Suc: "gap_index (Suc b) = (if printable b then gap_index b else Suc (gap_index b))"
  by (simp add: gap_index_def)

lemma gap_index_le: "gap_index b \<le> b"
  using length_filter_le [of "\<lambda>c. \<not> printable c" "[0..<b]"] by (simp add: gap_index_def)

lemma gap_index_mono: "b \<le> c \<Longrightarrow> gap_index b \<le> gap_index c"
  by (induction c rule: dec_induct) (auto simp: gap_index_Suc)

lemma gap_index_less: "\<not> printable b \<Longrightarrow> b < c \<Longrightarrow> gap_index b < gap_index c"
  using gap_index_mono [of "Suc b" c] by (simp add: gap_index_Suc)

lemma printable_lt: "printable b \<Longrightarrow> b < 256"
  by (auto simp: printable_def)

lemma byte_cpt_inj: "byte_cpt b = byte_cpt c \<Longrightarrow> b = c"
  using gap_index_less [of b c] gap_index_less [of c b] printable_lt [of b] printable_lt [of c]
  by (cases b c rule: linorder_cases) (auto simp: byte_cpt_def split: if_splits)

lemma byte_cpt_valid: "b < 256 \<Longrightarrow> valid_cpt (byte_cpt b)" "b < 256 \<Longrightarrow> valid_cpt (256 + gap_index b)"
  using gap_index_le [of b] by (simp_all add: byte_cpt_def)

lemma put_range_eq: "hi < 256 \<Longrightarrow> put_range lo hi m = Inr (\<lambda>c. if lo \<le> c \<and> c \<le> hi then Some (utf8_of c) else m c)"
proof -
  assume hi: "hi < 256"
  have "rfold (\<lambda>ch m. rbind (unicode_cpt_to_utf8 ch) (\<lambda>s. Inr (m(ch \<mapsto> s)))) [lo..<lo + n] m =
      Inr (\<lambda>c. if lo \<le> c \<and> c < lo + n then Some (utf8_of c) else m c)" if "lo + n \<le> 256" for n
    using that by (induction n) (auto simp: rfold_append cpt_to_utf8_eq fun_eq_iff)
  from this [of "Suc hi - lo"] hi show ?thesis
    by (cases "lo \<le> hi") (auto simp: put_range_def fun_eq_iff less_Suc_eq_le)
qed

lemma put_range_inv_eq:
  "hi < 256 \<Longrightarrow> \<exists>m'. put_range_inv lo hi m = Inr m' \<and> (\<forall>c. lo \<le> c \<and> c \<le> hi \<longrightarrow> m' (utf8_of c) = Some c) \<and>
     (\<forall>s. (\<forall>c. lo \<le> c \<and> c \<le> hi \<longrightarrow> s \<noteq> utf8_of c) \<longrightarrow> m' s = m s)"
proof -
  assume hi: "hi < 256"
  have "\<exists>m'. rfold (\<lambda>ch m. rbind (unicode_cpt_to_utf8 ch) (\<lambda>s. Inr (m(s \<mapsto> ch)))) [lo..<lo + n] m = Inr m' \<and>
      (\<forall>c. lo \<le> c \<and> c < lo + n \<longrightarrow> m' (utf8_of c) = Some c) \<and>
      (\<forall>s. (\<forall>c. lo \<le> c \<and> c < lo + n \<longrightarrow> s \<noteq> utf8_of c) \<longrightarrow> m' s = m s)" if "lo + n \<le> 256" for n
    using that
  proof (induction n)
    case 0
    then show ?case by auto
  next
    case (Suc n)
    then have "lo + n \<le> 256" by simp
    from Suc.IH [OF this] obtain m' where m': "rfold (\<lambda>ch m. rbind (unicode_cpt_to_utf8 ch) (\<lambda>s. Inr (m(s \<mapsto> ch)))) [lo..<lo + n] m = Inr m'"
      "\<forall>c. lo \<le> c \<and> c < lo + n \<longrightarrow> m' (utf8_of c) = Some c"
      "\<forall>s. (\<forall>c. lo \<le> c \<and> c < lo + n \<longrightarrow> s \<noteq> utf8_of c) \<longrightarrow> m' s = m s" by blast
    let ?m = "m'(utf8_of (lo + n) \<mapsto> lo + n)"
    have "?m (utf8_of c) = Some c" if "lo \<le> c" "c < lo + Suc n" for c
      using that m'(2) utf8_of_inj [of c "lo + n"] Suc.prems by (cases "c = lo + n") auto
    moreover have "?m s = m s" if "\<forall>c. lo \<le> c \<and> c < lo + Suc n \<longrightarrow> s \<noteq> utf8_of c" for s
      using that m'(3) by auto
    moreover have "unicode_cpt_to_utf8 (lo + n) = Inr (utf8_of (lo + n))" using Suc.prems by (simp add: cpt_to_utf8_eq)
    then have "rfold (\<lambda>ch m. rbind (unicode_cpt_to_utf8 ch) (\<lambda>s. Inr (m(s \<mapsto> ch)))) [lo..<lo + Suc n] m = Inr ?m"
      by (simp add: rfold_append m'(1) del: fun_upd_apply)
    ultimately show ?case by blast
  qed
  from this [of "Suc hi - lo"] hi show ?thesis
    by (cases "lo \<le> hi") (auto simp: put_range_inv_def less_Suc_eq_le)
qed

lemma byte_to_utf8_map_eq:
  "\<exists>m. unicode_byte_to_utf8_map = Inr m \<and> (\<forall>b < 256. m b = Some (utf8_of (byte_cpt b)))"
proof -
  define m0 where "m0 = (\<lambda>c. if printable c then Some (utf8_of c) else None)"
  let ?f = "\<lambda>ch (m, n). if m ch = None then rbind (unicode_cpt_to_utf8 (256 + n)) (\<lambda>s. Inr (m(ch \<mapsto> s), n + 1)) else Inr (m, n)"
  let ?g = "\<lambda>k. (\<lambda>c. if c < k then Some (utf8_of (byte_cpt c)) else m0 c, gap_index k)"
  have "put_range 0x21 0x7E Map.empty = Inr (\<lambda>c. if 0x21 \<le> c \<and> c \<le> 0x7E then Some (utf8_of c) else None)"
    by (simp add: put_range_eq)
  moreover have "put_range 0xA1 0xAC (\<lambda>c. if 0x21 \<le> c \<and> c \<le> 0x7E then Some (utf8_of c) else None) =
      Inr (\<lambda>c. if 0x21 \<le> c \<and> c \<le> 0x7E \<or> 0xA1 \<le> c \<and> c \<le> 0xAC then Some (utf8_of c) else None)"
    by (auto simp: put_range_eq fun_eq_iff)
  moreover have "put_range 0xAE 0xFF (\<lambda>c. if 0x21 \<le> c \<and> c \<le> 0x7E \<or> 0xA1 \<le> c \<and> c \<le> 0xAC then Some (utf8_of c) else None) = Inr m0"
    by (auto simp: put_range_eq m0_def printable_def fun_eq_iff)
  moreover have "rfold ?f [0..<256] (?g 0) = Inr (?g 256)"
  proof (rule rfold_upt_closed)
    fix i :: nat assume "i < 256"
    then show "?f i (?g i) = Inr (?g (Suc i))"
      using byte_cpt_valid [of i] by (auto simp: m0_def gap_index_Suc byte_cpt_def cpt_to_utf8_eq fun_eq_iff less_Suc_eq)
  qed
  ultimately have "unicode_byte_to_utf8_map = Inr (fst (?g 256))"
    by (simp add: unicode_byte_to_utf8_map_def gap_index_def)
  then show ?thesis by (intro exI [of _ "fst (?g 256)"]) simp
qed

lemma utf8_to_byte_map_eq:
  "\<exists>m. unicode_utf8_to_byte_map = Inr m \<and> (\<forall>b < 256. m (utf8_of (byte_cpt b)) = Some b)"
proof -
  obtain m1 where m1: "put_range_inv 0x21 0x7E Map.empty = Inr m1" "\<forall>c. 0x21 \<le> c \<and> c \<le> 0x7E \<longrightarrow> m1 (utf8_of c) = Some c"
    "\<forall>s. (\<forall>c. 0x21 \<le> c \<and> c \<le> 0x7E \<longrightarrow> s \<noteq> utf8_of c) \<longrightarrow> m1 s = None" using put_range_inv_eq [of "0x7E" "0x21" Map.empty] by auto
  obtain m2 where m2: "put_range_inv 0xA1 0xAC m1 = Inr m2" "\<forall>c. 0xA1 \<le> c \<and> c \<le> 0xAC \<longrightarrow> m2 (utf8_of c) = Some c"
    "\<forall>s. (\<forall>c. 0xA1 \<le> c \<and> c \<le> 0xAC \<longrightarrow> s \<noteq> utf8_of c) \<longrightarrow> m2 s = m1 s" using put_range_inv_eq [of "0xAC" "0xA1" m1] by auto
  obtain m3 where m3: "put_range_inv 0xAE 0xFF m2 = Inr m3" "\<forall>c. 0xAE \<le> c \<and> c \<le> 0xFF \<longrightarrow> m3 (utf8_of c) = Some c"
    "\<forall>s. (\<forall>c. 0xAE \<le> c \<and> c \<le> 0xFF \<longrightarrow> s \<noteq> utf8_of c) \<longrightarrow> m3 s = m2 s" using put_range_inv_eq [of "0xFF" "0xAE" m2] by auto
  have ne: "utf8_of c \<noteq> utf8_of d" if "c < 512" "d < 512" "c \<noteq> d" for c d using utf8_of_inj [of c d] that by auto
  have p1: "m3 (utf8_of c) = Some c" if pc: "printable c" for c
  proof -
    have c: "c < 256" using printable_lt [OF pc] .
    consider "0xAE \<le> c \<and> c \<le> 0xFF" | "0xA1 \<le> c \<and> c \<le> 0xAC" | "0x21 \<le> c \<and> c \<le> 0x7E" using pc by (auto simp: printable_def)
    then show ?thesis
    proof cases
      case 2
      then have "m3 (utf8_of c) = m2 (utf8_of c)" using m3(3) ne [of c] by auto
      with 2 m2(2) show ?thesis by auto
    next
      case 3
      then have "m3 (utf8_of c) = m2 (utf8_of c)" "m2 (utf8_of c) = m1 (utf8_of c)" using m3(3) m2(3) ne [of c] by auto
      with 3 m1(2) show ?thesis by auto
    qed (use m3(2) in auto)
  qed
  have p2: "m3 (utf8_of c) = None" if "\<not> printable c" "c < 512" for c
  proof -
    have "m3 (utf8_of c) = m2 (utf8_of c)" "m2 (utf8_of c) = m1 (utf8_of c)" "m1 (utf8_of c) = None"
      using m3(3) m2(3) m1(3) ne [of c] that by (auto simp: printable_def)
    then show ?thesis by simp
  qed
  let ?f = "\<lambda>ch (m, n). rbind (unicode_cpt_to_utf8 ch) (\<lambda>s. if m s = None
      then rbind (unicode_cpt_to_utf8 (256 + n)) (\<lambda>t. Inr (m(t \<mapsto> ch), n + 1)) else Inr (m, n))"
  let ?P = "\<lambda>k (m, n). n = gap_index k \<and> (\<forall>c < 256. printable c \<or> c < k \<longrightarrow> m (utf8_of (byte_cpt c)) = Some c) \<and>
      (\<forall>c < 256. \<not> printable c \<longrightarrow> m (utf8_of c) = None)"
  have "\<exists>t. rfold ?f [0..<256] (m3, 0) = Inr t \<and> ?P 256 t"
  proof (rule rfold_upt_inv [where P = ?P])
    show "?P 0 (m3, 0)" using p1 p2 by (auto simp: gap_index_def byte_cpt_def)
  next
    fix i and st :: "(nat list \<rightharpoonup> nat) \<times> nat" assume i: "i < 256" and P: "?P i st"
    obtain m n where st: "st = (m, n)" by fastforce
    show "\<exists>t. ?f i st = Inr t \<and> ?P (Suc i) t"
    proof (cases "printable i")
      case True
      then have "m (utf8_of i) \<noteq> None" using P i st by (auto simp: byte_cpt_def)
      then have "?f i st = Inr st" using i st by (simp add: cpt_to_utf8_eq)
      moreover have "?P (Suc i) st" using P True st by (auto simp: gap_index_Suc less_Suc_eq)
      ultimately show ?thesis by blast
    next
      case False
      let ?t = "utf8_of (256 + gap_index i)"
      have n: "n = gap_index i" "m (utf8_of i) = None" using P st i False by auto
      have v: "valid_cpt (256 + gap_index i)" "256 + gap_index i < 512" using gap_index_le [of i] i by simp_all
      have "?f i st = Inr (m(?t \<mapsto> i), Suc n)" using i st n v by (simp add: cpt_to_utf8_eq)
      moreover have "?P (Suc i) (m(?t \<mapsto> i), Suc n)"
      proof -
        have "utf8_of (byte_cpt c) = ?t \<longleftrightarrow> c = i" if "c < 256" for c
          using that False byte_cpt_inj [of c i] utf8_of_inj [of "byte_cpt c" "byte_cpt i"] byte_cpt_valid [of c] byte_cpt_valid [of i] i
          by (auto simp: byte_cpt_def)
        moreover have "utf8_of c \<noteq> ?t" if "c < 256" for c using ne [of c "256 + gap_index i"] that v by auto
        ultimately show ?thesis using P st n(1) False by (auto simp: gap_index_Suc less_Suc_eq)
      qed
      ultimately show ?thesis by blast
    qed
  qed
  then obtain m n where "rfold ?f [0..<256] (m3, 0) = Inr (m, n)" "\<forall>c < 256. m (utf8_of (byte_cpt c)) = Some c" by auto
  then show ?thesis using m1(1) m2(1) m3(1) by (auto simp: unicode_utf8_to_byte_map_def)
qed

lemma byte_to_utf8_eq: "b < 256 \<Longrightarrow> unicode_byte_to_utf8 b = Inr (utf8_of (byte_cpt b))"
proof -
  assume b: "b < 256"
  obtain m where m: "unicode_byte_to_utf8_map = Inr m" "\<forall>b < 256. m b = Some (utf8_of (byte_cpt b))"
    using byte_to_utf8_map_eq by blast
  show ?thesis unfolding unicode_byte_to_utf8_def m(1) using m(2) b by simp
qed

lemma utf8_to_byte_eq: "b < 256 \<Longrightarrow> unicode_utf8_to_byte (utf8_of (byte_cpt b)) = Inr b"
proof -
  assume b: "b < 256"
  obtain m where m: "unicode_utf8_to_byte_map = Inr m" "\<forall>b < 256. m (utf8_of (byte_cpt b)) = Some b"
    using utf8_to_byte_map_eq by blast
  show ?thesis unfolding unicode_utf8_to_byte_def m(1) using m(2) b by simp
qed

section \<open>Properties\<close>

text \<open>C15: UTF-8 round trip. Encoding any sequence of code points up to U+10FFFF and decoding the result
  with \<open>unicode_cpts_from_utf8\<close> gives the sequence back.\<close>

theorem utf8_roundtrip:
  assumes "\<forall>c \<in> set cs. c \<le> 0x10ffff"
  shows "\<exists>s. unicode_cpts_to_utf8 cs = Inr s \<and> unicode_cpts_from_utf8 s = cs \<and> (\<forall>b \<in> set s. b < 256)"
  using cpts_to_utf8_eq [OF assms] cpts_loop_of [OF assms, of "[]"] utf8_of_bytes assms
  by (fastforce simp: unicode_cpts_from_utf8_def)

theorem utf8_roundtrip_witness:
  "\<exists>s. unicode_cpts_to_utf8 [0x41, 0xE9, 0x20AC, 0x1F600] = Inr s \<and> unicode_cpts_from_utf8 s = [0x41, 0xE9, 0x20AC, 0x1F600]"
  using utf8_roundtrip [of "[0x41, 0xE9, 0x20AC, 0x1F600]"] by auto

text \<open>The length table. For every code point up to U+10FFFF \<open>unicode_len_utf8\<close> of the first byte
  of its encoding is the length of the encoding.\<close>

theorem utf8_len_of_first_byte:
  assumes "c \<le> 0x10ffff"
  shows "\<exists>s. unicode_cpt_to_utf8 c = Inr s \<and> s \<noteq> [] \<and> unicode_len_utf8 (hd s) = Inr (length s)"
proof -
  consider "c \<le> 0x7f" | "0x7f < c" "c \<le> 0x7ff" | "0x7ff < c" "c \<le> 0xffff" | "0xffff < c" by linarith
  then have "unicode_len_utf8 (hd (utf8_of c)) = Inr (length (utf8_of c))"
  proof cases
    case 1
    then have "c div 16 \<in> {0, 1, 2, 3, 4, 5, 6, 7}" by auto
    with 1 show ?thesis by (auto simp: utf8_of_def unicode_len_utf8_def drop_bit_eq_div rnth_def)
  next
    case 2
    then have "(192 + c div 64) div 16 \<in> {12, 13}" by auto
    with 2 show ?thesis by (auto simp: utf8_of_def unicode_len_utf8_def drop_bit_eq_div rnth_def)
  next
    case 3
    then have "(224 + c div 4096) div 16 = 14" by auto
    with 3 show ?thesis by (auto simp: utf8_of_def unicode_len_utf8_def drop_bit_eq_div rnth_def)
  next
    case 4
    with assms have "(240 + c div 262144) div 16 = 15" by auto
    with 4 show ?thesis by (auto simp: utf8_of_def unicode_len_utf8_def drop_bit_eq_div rnth_def)
  qed
  with assms show ?thesis by (simp add: cpt_to_utf8_eq)
qed

theorem utf8_len_of_first_byte_witness:
  "\<exists>s. unicode_cpt_to_utf8 0x20AC = Inr s \<and> unicode_len_utf8 (hd s) = Inr (length s)"
  using utf8_len_of_first_byte [of "0x20AC"] by auto

text \<open>C18: The byte encoding is a bijection. Every byte has an encoding by \<open>unicode_byte_to_utf8\<close>, different
  bytes have different encodings, and \<open>unicode_utf8_to_byte\<close> gives the byte back.\<close>

theorem byte_encoding_roundtrip:
  assumes "b < 256"
  shows "\<exists>s. unicode_byte_to_utf8 b = Inr s \<and> unicode_utf8_to_byte s = Inr b \<and>
    (\<forall>c < 256. unicode_byte_to_utf8 c = Inr s \<longrightarrow> c = b)"
proof -
  have "c = b" if "c < 256" "utf8_of (byte_cpt c) = utf8_of (byte_cpt b)" for c
    using that assms byte_cpt_inj utf8_of_inj byte_cpt_valid by meson
  with assms show ?thesis by (auto simp: byte_to_utf8_eq utf8_to_byte_eq)
qed

theorem byte_encoding_roundtrip_witness:
  "\<exists>s. unicode_byte_to_utf8 0x20 = Inr s \<and> unicode_utf8_to_byte s = Inr 0x20"
  using byte_encoding_roundtrip [of "0x20"] by auto

end
