(* ===== verification/UnicodeSplit.thy ===== *)
theory UnicodeSplit
  imports Unicode
begin

text \<open>
  Code point properties and the pre-tokenizer: the second half of \<^verbatim>\<open>unicode.cpp\<close>. The hand-written
  splitters for the GPT-2 and LLaMA-3 regular expressions, the fallback to \<open>std::regex\<close> (the engine
  is an argument) and \<open>unicode_regex_split\<close>, which a BPE tokenizer calls on its input.
\<close>

section \<open>Code point properties\<close>

record unicode_data =
  ud_ranges_flags :: "(nat \<times> nat) list"
  ud_whitespace   :: "nat list"
  ud_lowercase    :: "(nat \<times> nat) list"
  ud_uppercase    :: "(nat \<times> nat) list"
  ud_nfd          :: "(nat \<times> nat \<times> nat) list"

definition MAX_CODEPOINTS :: nat where "MAX_CODEPOINTS = 0x110000"

definition F_UNDEFINED :: nat where "F_UNDEFINED = 0x0001"
definition F_NUMBER :: nat where "F_NUMBER = 0x0002"
definition F_LETTER :: nat where "F_LETTER = 0x0004"
definition F_ACCENT_MARK :: nat where "F_ACCENT_MARK = 0x0010"
definition F_PUNCTUATION :: nat where "F_PUNCTUATION = 0x0020"
definition F_SYMBOL :: nat where "F_SYMBOL = 0x0040"
definition F_MASK_CATEGORIES :: nat where "F_MASK_CATEGORIES = 0x00FF"

definition is_number :: "nat \<Rightarrow> bool" where "is_number f \<longleftrightarrow> bit f 1"
definition is_letter :: "nat \<Rightarrow> bool" where "is_letter f \<longleftrightarrow> bit f 2"
definition is_whitespace :: "nat \<Rightarrow> bool" where "is_whitespace f \<longleftrightarrow> bit f 8"
definition category_flag :: "nat \<Rightarrow> nat" where "category_flag f = f AND F_MASK_CATEGORIES"

text \<open>The vector of flags as a function of the code point.\<close>

definition set_flag :: "nat \<Rightarrow> nat \<Rightarrow> (nat \<Rightarrow> nat) \<Rightarrow> nat \<Rightarrow> nat" where
  "set_flag k c f = f(c := f c OR 2 ^ k)"

definition unicode_cpt_flags_array :: "unicode_data \<Rightarrow> nat \<Rightarrow> nat" where
  "unicode_cpt_flags_array ud =
    (let rs = ud_ranges_flags ud;
         f = fold (\<lambda>(r, e) f. \<lambda>c. if fst r \<le> c \<and> c < fst e then snd r else f c) (zip rs (tl rs)) (\<lambda>_. F_UNDEFINED);
         f = fold (set_flag 8) (ud_whitespace ud) f;
         f = fold (\<lambda>p. set_flag 9 (snd p)) (ud_lowercase ud) f;
         f = fold (\<lambda>p. set_flag 10 (snd p)) (ud_uppercase ud) f
     in fold (\<lambda>r. set_flag 11 (snd (snd r))) (ud_nfd ud) f)"

definition unicode_cpt_flags_from_cpt :: "unicode_data \<Rightarrow> nat \<Rightarrow> nat" where
  "unicode_cpt_flags_from_cpt ud cpt = (if cpt < MAX_CODEPOINTS then unicode_cpt_flags_array ud cpt else F_UNDEFINED)"

definition unicode_cpt_flags_from_utf8 :: "unicode_data \<Rightarrow> nat list \<Rightarrow> nat res" where
  "unicode_cpt_flags_from_utf8 ud utf8 =
     (if utf8 = [] then Inr F_UNDEFINED
      else rbind (unicode_cpt_from_utf8 utf8 0) (\<lambda>(c, _). Inr (unicode_cpt_flags_from_cpt ud c)))"

text \<open>\<open>std::lower_bound\<close> and \<open>std::upper_bound\<close> on a sorted table.\<close>

definition unicode_tolower :: "unicode_data \<Rightarrow> nat \<Rightarrow> nat" where
  "unicode_tolower ud cpt =
     (case dropWhile (\<lambda>p. fst p < cpt) (ud_lowercase ud) of
        [] \<Rightarrow> cpt
      | p # _ \<Rightarrow> if fst p = cpt then snd p else cpt)"

definition nfd_cpt :: "unicode_data \<Rightarrow> nat \<Rightarrow> nat res" where
  "nfd_cpt ud cpt =
     (let rs = takeWhile (\<lambda>r. \<not> cpt < fst r) (ud_nfd ud) in
      if rs = [] then Inl OutOfBounds
      else case last rs of (first, lst, nfd) \<Rightarrow> Inr (if first \<le> cpt \<and> cpt \<le> lst then nfd else cpt))"

definition unicode_cpts_normalize_nfd :: "unicode_data \<Rightarrow> nat list \<Rightarrow> nat list res" where
  "unicode_cpts_normalize_nfd ud cpts = rfold (\<lambda>c out. rbind (nfd_cpt ud c) (\<lambda>d. Inr (out @ [d]))) cpts []"

lemma lowercase_lookup:
  "sorted_wrt (<) (map fst m) \<Longrightarrow>
   (case dropWhile (\<lambda>p. fst p < c) m of [] \<Rightarrow> c | p # _ \<Rightarrow> if fst p = c then snd p else c) =
   (case map_of m c of Some d \<Rightarrow> d | None \<Rightarrow> (c::nat))"
proof (induction m)
  case Nil
  show ?case by simp
next
  case (Cons p m)
  have "map_of m c = None" if "c \<le> fst p"
  proof -
    have "c \<notin> fst ` set m" using Cons.prems that by auto
    then show ?thesis by (simp add: map_of_eq_None_iff)
  qed
  with Cons show ?case by (cases p) (auto split: list.split)
qed

section \<open>Splitting with a hand-written matcher\<close>

definition OUT_OF_RANGE :: nat where "OUT_OF_RANGE = 0xFFFFFFFF"

text \<open>The closures \<open>_get_cpt\<close> and \<open>_get_flags\<close> over a segment of the text.\<close>

definition get_cpt :: "nat list \<Rightarrow> nat \<Rightarrow> nat \<Rightarrow> nat \<Rightarrow> nat" where
  "get_cpt cpts ini e pos = (if ini \<le> pos \<and> pos < e then cpts ! pos else OUT_OF_RANGE)"

definition get_flags :: "unicode_data \<Rightarrow> nat list \<Rightarrow> nat \<Rightarrow> nat \<Rightarrow> nat \<Rightarrow> nat" where
  "get_flags ud cpts ini e pos = (if ini \<le> pos \<and> pos < e then unicode_cpt_flags_from_cpt ud (cpts ! pos) else 0)"

text \<open>\<open>_add_token\<close>: the token from the previous end to this one, if it is not empty.\<close>

definition add_token :: "nat \<Rightarrow> nat \<Rightarrow> nat \<times> nat list \<Rightarrow> (nat \<times> nat list) res" where
  "add_token e fin st = (case st of (prev, out) \<Rightarrow>
     rbind (rguard (prev \<le> fin \<and> fin \<le> e) GgmlAssert) (\<lambda>_.
     Inr (fin, if fin - prev > 0 then out @ [fin - prev] else out)))"

text \<open>\<open>while (p(pos)) ++pos\<close>; outside the segment the flags are 0 and the loops stop.\<close>

function skip :: "(nat \<Rightarrow> bool) \<Rightarrow> nat \<Rightarrow> nat \<Rightarrow> nat" where
  "skip p e pos = (if pos < e \<and> p pos then skip p e (Suc pos) else pos)"
  by pat_completeness auto
termination
  by (relation "measure (\<lambda>(p, e, pos). e - pos)") auto

declare skip.simps [simp del]

lemma skip_ge: "pos \<le> skip p e pos"
  by (induction p e pos rule: skip.induct) (subst skip.simps, auto)

lemma skip_le: "pos \<le> e \<Longrightarrow> skip p e pos \<le> e"
  by (induction p e pos rule: skip.induct) (subst skip.simps, auto)

lemma skip_gt: "pos < e \<Longrightarrow> p pos \<Longrightarrow> pos < skip p e pos"
  using skip_ge [of "Suc pos" p e] by (subst skip.simps) simp

text \<open>The \<open>for\<close> loop over a segment: a step gives the ends of the tokens it adds and the next
  position. That the loop ends is part of \<open>split_loop_ok\<close>.\<close>

partial_function (option) split_loop ::
    "(nat \<Rightarrow> nat \<Rightarrow> nat list \<times> nat) \<Rightarrow> nat \<Rightarrow> nat \<Rightarrow> nat \<Rightarrow> nat list \<Rightarrow> nat list res option" where
  "split_loop step e pos prev out =
     (if pos < e
      then case step pos prev of (ends, pos') \<Rightarrow>
           (case rfold (add_token e) ends (prev, out) of
              Inl x \<Rightarrow> Some (Inl x)
            | Inr (prev', out') \<Rightarrow> split_loop step e pos' prev' out')
      else Some (Inr out))"

text \<open>The loop over the segments the previous expression left.\<close>

definition split_offsets :: "(nat \<Rightarrow> nat \<Rightarrow> nat \<Rightarrow> nat \<Rightarrow> nat list \<times> nat) \<Rightarrow> nat list \<Rightarrow> nat list \<Rightarrow> nat list res" where
  "split_offsets step cpts offsets =
     rbind (rfold (\<lambda>off (start, out).
              rbind (rguard (start + off \<le> length cpts) GgmlAssert) (\<lambda>_.
              case split_loop (step start (start + off)) (start + off) start start out of
                None \<Rightarrow> Inl (Thrown ''no return'')
              | Some r \<Rightarrow> rbind r (\<lambda>out. Inr (start + off, out)))) offsets (0, []))
       (\<lambda>(_, out). Inr out)"

definition is_other :: "nat \<Rightarrow> bool" where
  "is_other f \<longleftrightarrow> \<not> (is_whitespace f \<or> is_letter f \<or> is_number f) \<and> f \<noteq> 0"

text \<open>Contractions after an apostrophe; \<open>low\<close> is the identity or \<open>unicode_tolower\<close>.\<close>

definition contraction :: "(nat \<Rightarrow> nat) \<Rightarrow> (nat \<Rightarrow> nat) \<Rightarrow> nat \<Rightarrow> nat \<Rightarrow> nat option" where
  "contraction low get e pos =
    (if get pos = 0x27 \<and> pos + 1 < e then
       let n1 = low (get (pos + 1)) in
       if n1 = of_char CHR ''s'' \<or> n1 = of_char CHR ''t'' \<or> n1 = of_char CHR ''m'' \<or> n1 = of_char CHR ''d'' then Some 2
       else if pos + 2 < e then
         let n2 = low (get (pos + 2)) in
         if (n1 = of_char CHR ''r'' \<and> n2 = of_char CHR ''e'') \<or> (n1 = of_char CHR ''v'' \<and> n2 = of_char CHR ''e'') \<or>
            (n1 = of_char CHR ''l'' \<and> n2 = of_char CHR ''l'') then Some 3 else None
       else None
     else None)"

definition gpt2_step :: "unicode_data \<Rightarrow> nat list \<Rightarrow> nat \<Rightarrow> nat \<Rightarrow> nat \<Rightarrow> nat \<Rightarrow> nat list \<times> nat" where
  "gpt2_step ud cpts ini e pos prev =
    (let get = get_cpt cpts ini e; fl = get_flags ud cpts ini e; cpt = get pos; flags = fl pos;
         flags2 = (if cpt = 0x20 then fl (pos + 1) else flags);
         start = (if cpt = 0x20 then pos + 1 else pos);
         nws = skip (\<lambda>q. is_whitespace (fl q)) e pos - pos
     in case contraction (\<lambda>c. c) get e pos of
          Some k \<Rightarrow> ([pos + k], pos + (pos + k - prev))
        | None \<Rightarrow>
          if is_letter flags2 then let p = skip (\<lambda>q. is_letter (fl q)) e start in ([p], p)
          else if is_number flags2 then let p = skip (\<lambda>q. is_number (fl q)) e start in ([p], p)
          else if is_other flags2 then let p = skip (\<lambda>q. is_other (fl q)) e start in ([p], p)
          else if nws > 1 \<and> get (pos + nws) \<noteq> OUT_OF_RANGE then ([pos + nws - 1], pos + nws - 1)
          else if nws > 0 then ([pos + nws], pos + nws)
          else ([pos + 1], pos + 1))"

definition unicode_regex_split_custom_gpt2 :: "unicode_data \<Rightarrow> nat list \<Rightarrow> nat list \<Rightarrow> nat list res" where
  "unicode_regex_split_custom_gpt2 ud text offsets =
     (let cpts = unicode_cpts_from_utf8 text in split_offsets (gpt2_step ud cpts) cpts offsets)"

text \<open>The loop of LLaMA-3 over digits: a token after every third.\<close>

function num_ends :: "(nat \<Rightarrow> bool) \<Rightarrow> nat \<Rightarrow> nat \<Rightarrow> nat \<Rightarrow> nat list" where
  "num_ends p e ini pos =
     (if pos < e \<and> p pos
      then if Suc pos - ini \<ge> 3 then Suc pos # num_ends p e (Suc pos) (Suc pos) else num_ends p e ini (Suc pos)
      else [pos])"
  by pat_completeness auto
termination
  by (relation "measure (\<lambda>(p, e, ini, pos). e - pos)") auto

declare num_ends.simps [simp del]

text \<open>The end of the last line break in a run of whitespace, 0 if there is none.\<close>

definition last_newline :: "(nat \<Rightarrow> nat) \<Rightarrow> nat \<Rightarrow> nat \<Rightarrow> nat" where
  "last_newline get pos n = fold (\<lambda>i r. if get (pos + i) = 0x0D \<or> get (pos + i) = 0x0A then pos + i + 1 else r) [0..<n] 0"

definition llama3_step :: "unicode_data \<Rightarrow> nat list \<Rightarrow> nat \<Rightarrow> nat \<Rightarrow> nat \<Rightarrow> nat \<Rightarrow> nat list \<times> nat" where
  "llama3_step ud cpts ini e pos prev =
    (let get = get_cpt cpts ini e; fl = get_flags ud cpts ini e; cpt = get pos; flags = fl pos;
         flags2 = (if cpt = 0x20 then fl (pos + 1) else flags);
         start = (if cpt = 0x20 then pos + 1 else pos);
         nws = skip (\<lambda>q. is_whitespace (fl q)) e pos - pos;
         lnl = last_newline get pos nws
     in case contraction (unicode_tolower ud) get e pos of
          Some k \<Rightarrow> ([pos + k], pos + (pos + k - prev))
        | None \<Rightarrow>
          if \<not> (cpt = 0x0D \<or> cpt = 0x0A \<or> is_number flags) \<and> (is_letter flags \<or> is_letter (fl (pos + 1)))
          then let p = skip (\<lambda>q. is_letter (fl q)) e (pos + 1) in ([p], p)
          else if is_number flags then let es = num_ends (\<lambda>q. is_number (fl q)) e pos pos in (es, last es)
          else if \<not> (is_whitespace flags2 \<or> is_letter flags2 \<or> is_number flags2) \<and> flags \<noteq> 0
          then let p = skip (\<lambda>q. is_other (fl q)) e start;
                   p = skip (\<lambda>q. get q = 0x0D \<or> get q = 0x0A) e p in ([p], p)
          else if lnl > 0 then ([lnl], lnl)
          else if nws > 1 \<and> get (pos + nws) \<noteq> OUT_OF_RANGE then ([pos + nws - 1], pos + nws - 1)
          else if nws > 0 then ([pos + nws], pos + nws)
          else ([pos + 1], pos + 1))"

definition unicode_regex_split_custom_llama3 :: "unicode_data \<Rightarrow> nat list \<Rightarrow> nat list \<Rightarrow> nat list res" where
  "unicode_regex_split_custom_llama3 ud text offsets =
     (let cpts = unicode_cpts_from_utf8 text in split_offsets (llama3_step ud cpts) cpts offsets)"

section \<open>The splitters cut a segment into consecutive tokens\<close>

text \<open>What the loop needs of a step: started at the end of the previous token it gives ends in
  order, inside the segment, and moves forward.\<close>

definition good_step :: "nat \<Rightarrow> nat \<Rightarrow> nat list \<times> nat \<Rightarrow> bool" where
  "good_step e pos r \<longleftrightarrow> (case r of (ends, pos') \<Rightarrow>
     ends \<noteq> [] \<and> sorted (pos # ends) \<and> last ends = pos' \<and> pos < pos' \<and> pos' \<le> e)"

lemma sorted_le_last: "sorted (x # xs) \<Longrightarrow> xs \<noteq> [] \<Longrightarrow> x \<le> last xs"
  by simp

locale token_step =
  fixes step :: "nat \<Rightarrow> nat \<Rightarrow> nat list \<times> nat" and ini e :: nat
  assumes step_law: "ini \<le> pos \<Longrightarrow> pos < e \<Longrightarrow> good_step e pos (step pos pos)"
begin

lemma add_tokens:
  "sorted (prev # ends) \<Longrightarrow> ends \<noteq> [] \<Longrightarrow> last ends \<le> e \<Longrightarrow>
   \<exists>new. rfold (add_token e) ends (prev, out) = Inr (last ends, out @ new) \<and> sum_list new = last ends - prev \<and> (\<forall>x \<in> set new. 0 < x)"
proof (induction ends arbitrary: prev out)
  case Nil
  then show ?case by simp
next
  case (Cons a ends)
  let ?n = "if a - prev > 0 then [a - prev] else []"
  have "prev \<le> a" using Cons.prems(1) by simp
  moreover have "a \<le> last (a # ends)" using sorted_le_last [of a ends] Cons.prems(1) by (cases "ends = []") simp_all
  ultimately have a: "prev \<le> a" "a \<le> e" using Cons.prems(3) by simp_all
  then have st: "add_token e a (prev, out) = Inr (a, out @ ?n)" by (simp add: add_token_def)
  show ?case
  proof (cases "ends = []")
    case True
    with a show ?thesis by (intro exI [of _ ?n]) (simp add: st)
  next
    case False
    then obtain new where "rfold (add_token e) ends (a, out @ ?n) = Inr (last ends, (out @ ?n) @ new)"
      "sum_list new = last ends - a" "\<forall>x \<in> set new. 0 < x"
      using Cons.IH [of a "out @ ?n"] Cons.prems by auto
    moreover have "a \<le> last ends" using Cons.prems False by auto
    ultimately show ?thesis using st a False by (intro exI [of _ "?n @ new"]) auto
  qed
qed

lemma split_loop_ok:
  assumes "ini \<le> pos" "pos \<le> e"
  shows "\<exists>new. split_loop step e pos pos out = Some (Inr (out @ new)) \<and> sum_list new = e - pos \<and> (\<forall>x \<in> set new. 0 < x)"
  using assms
proof (induction "e - pos" arbitrary: pos out rule: less_induct)
  case less
  show ?case
  proof (cases "pos < e")
    case False
    then show ?thesis by (subst split_loop.simps) (use less.prems in auto)
  next
    case True
    obtain ends pos' where st: "step pos pos = (ends, pos')" by fastforce
    have g: "ends \<noteq> []" "sorted (pos # ends)" "last ends = pos'" "pos < pos'" "pos' \<le> e"
      using step_law [OF less.prems(1) True] st by (auto simp: good_step_def)
    obtain n1 where n1: "rfold (add_token e) ends (pos, out) = Inr (pos', out @ n1)" "sum_list n1 = pos' - pos" "\<forall>x \<in> set n1. 0 < x"
      using add_tokens [OF g(2,1)] g(3,5) by auto
    obtain n2 where n2: "split_loop step e pos' pos' (out @ n1) = Some (Inr ((out @ n1) @ n2))" "sum_list n2 = e - pos'" "\<forall>x \<in> set n2. 0 < x"
      using less.hyps [of pos' "out @ n1"] g(4,5) less.prems by fastforce
    have "split_loop step e pos pos out = Some (Inr (out @ (n1 @ n2)))"
      by (subst split_loop.simps) (simp add: True st n1(1) n2(1))
    moreover have "sum_list (n1 @ n2) = e - pos" using n1(2) n2(2) g(4,5) by simp
    ultimately show ?thesis using n1(3) n2(3) by (metis Un_iff set_append)
  qed
qed

end

lemma flags_outside [simp]: "\<not> is_letter 0" "\<not> is_number 0" "\<not> is_whitespace 0" "\<not> is_other 0"
  by (simp_all add: is_letter_def is_number_def is_whitespace_def is_other_def)

lemma get_flags_in: "p (get_flags ud cpts ini e pos) \<Longrightarrow> \<not> p 0 \<Longrightarrow> pos < e"
  by (auto simp: get_flags_def split: if_splits)

lemma contraction_le: "contraction low get e pos = Some k \<Longrightarrow> 0 < k \<and> pos + k \<le> e"
  by (auto simp: contraction_def Let_def split: if_splits)

text \<open>An optional space followed by a run of code points with a property.\<close>

lemma run_progress:
  assumes "p (if sp then get_flags ud cpts ini e (pos + 1) else get_flags ud cpts ini e pos)" "\<not> p 0" "pos < e"
  shows "pos < skip (\<lambda>q. p (get_flags ud cpts ini e q)) e (if sp then pos + 1 else pos)"
    "skip (\<lambda>q. p (get_flags ud cpts ini e q)) e (if sp then pos + 1 else pos) \<le> e"
proof -
  let ?s = "if sp then pos + 1 else pos"
  have s: "?s < e" "p (get_flags ud cpts ini e ?s)" using assms get_flags_in [of p ud cpts ini e "pos + 1"] by (auto split: if_splits)
  then show "pos < skip (\<lambda>q. p (get_flags ud cpts ini e q)) e ?s"
    using skip_gt [of ?s e "\<lambda>q. p (get_flags ud cpts ini e q)"] by (auto split: if_splits)
  show "skip (\<lambda>q. p (get_flags ud cpts ini e q)) e ?s \<le> e" using s(1) by (intro skip_le) simp
qed

lemma whitespace_le: "pos < e \<Longrightarrow> pos + (skip p e pos - pos) \<le> e"
  using skip_le [of pos e p] skip_ge [of pos p e] by simp

lemma good_single: "pos < p \<and> p \<le> e \<Longrightarrow> good_step e pos ([p], p)"
  by (simp add: good_step_def)

lemma good_if: "(b \<Longrightarrow> good_step e pos x) \<Longrightarrow> (\<not> b \<Longrightarrow> good_step e pos y) \<Longrightarrow> good_step e pos (if b then x else y)"
  by simp

lemma gpt2_step_good:
  assumes "pos < e"
  shows "good_step e pos (gpt2_step ud cpts ini e pos pos)"
proof (cases "contraction (\<lambda>c. c) (get_cpt cpts ini e) e pos")
  case (Some k)
  with contraction_le [OF Some] show ?thesis by (auto simp: gpt2_step_def Let_def intro!: good_single)
next
  case None
  let ?sp = "get_cpt cpts ini e pos = 0x20" and ?fl = "get_flags ud cpts ini e"
  note runs = run_progress [where sp = ?sp and ud = ud and cpts = cpts and ini = ini, OF _ _ assms]
  have ws: "pos + (skip (\<lambda>q. is_whitespace (?fl q)) e pos - pos) \<le> e" by (rule whitespace_le [OF assms])
  show ?thesis unfolding gpt2_step_def Let_def None option.case
    by (intro good_if good_single conjI runs flags_outside) (use ws assms in auto)
qed

interpretation gpt2: token_step "gpt2_step ud cpts ini e" ini e for ud cpts ini e
  by unfold_locales (rule gpt2_step_good)

lemma num_ends_sorted: "pos \<le> e \<Longrightarrow> sorted (pos # num_ends p e ini pos) \<and> num_ends p e ini pos \<noteq> [] \<and>
    last (num_ends p e ini pos) \<le> e \<and> (pos < e \<and> p pos \<longrightarrow> pos < last (num_ends p e ini pos))"
proof (induction p e ini pos rule: num_ends.induct)
  case (1 p e ini pos)
  show ?case
  proof (cases "pos < e \<and> p pos")
    case True
    define r where "r = (if Suc pos - ini \<ge> 3 then num_ends p e (Suc pos) (Suc pos) else num_ends p e ini (Suc pos))"
    have le: "Suc pos \<le> e" using True by simp
    have IH: "sorted (Suc pos # r) \<and> r \<noteq> [] \<and> last r \<le> e"
      using 1(1) [OF True _ le] 1(2) [OF True _ le] by (cases "3 \<le> Suc pos - ini") (simp_all add: r_def)
    have eq: "num_ends p e ini pos = (if Suc pos - ini \<ge> 3 then Suc pos # r else r)"
      using True by (subst num_ends.simps) (simp add: r_def)
    have "Suc pos \<le> last r" by (rule sorted_le_last) (use IH in blast)+
    then have "pos < last r" by simp
    moreover have "\<forall>x \<in> set r. pos \<le> x" using IH by force
    ultimately show ?thesis using IH unfolding eq by simp
  next
    case False
    then have "num_ends p e ini pos = [pos]" by (subst num_ends.simps) auto
    with 1(3) False show ?thesis by auto
  qed
qed

lemma last_newline_bounds: "last_newline get pos n = 0 \<or> pos < last_newline get pos n \<and> last_newline get pos n \<le> pos + n"
proof (induction n)
  case (Suc n)
  have "last_newline get pos (Suc n) = (if get (pos + n) = 0x0D \<or> get (pos + n) = 0x0A then pos + n + 1 else last_newline get pos n)"
    unfolding last_newline_def by simp
  with Suc show ?case by auto
qed (simp add: last_newline_def)

lemma llama3_step_good:
  assumes "pos < e"
  shows "good_step e pos (llama3_step ud cpts ini e pos pos)"
proof (cases "contraction (unicode_tolower ud) (get_cpt cpts ini e) e pos")
  case (Some k)
  with contraction_le [OF Some] show ?thesis by (auto simp: llama3_step_def Let_def intro!: good_single)
next
  case None
  let ?get = "get_cpt cpts ini e" and ?fl = "get_flags ud cpts ini e"
  let ?sp = "?get pos = 0x20" and ?nl = "\<lambda>q. ?get q = 0x0D \<or> ?get q = 0x0A"
  let ?nws = "skip (\<lambda>q. is_whitespace (?fl q)) e pos - pos"
  have ws: "pos + ?nws \<le> e" by (rule whitespace_le [OF assms])
  have lt: "pos < skip (\<lambda>q. is_letter (?fl q)) e (pos + 1)" "skip (\<lambda>q. is_letter (?fl q)) e (pos + 1) \<le> e"
    using skip_ge [of "pos + 1"] skip_le [of "pos + 1" e] assms by (auto simp: Suc_le_eq)
  have nums: "good_step e pos (num_ends (\<lambda>q. is_number (?fl q)) e pos pos, last (num_ends (\<lambda>q. is_number (?fl q)) e pos pos))"
    if "is_number (?fl pos)"
    using num_ends_sorted [of pos e "\<lambda>q. is_number (?fl q)" pos] that assms by (simp add: good_step_def)
  have oth: "pos < skip ?nl e (skip (\<lambda>q. is_other (?fl q)) e (if ?sp then pos + 1 else pos))"
      "skip ?nl e (skip (\<lambda>q. is_other (?fl q)) e (if ?sp then pos + 1 else pos)) \<le> e"
    if f: "\<not> (is_whitespace f2 \<or> is_letter f2 \<or> is_number f2)" "f2 = (if ?sp then ?fl (pos + 1) else ?fl pos)" "?fl pos \<noteq> 0" for f2
  proof -
    let ?s = "if ?sp then pos + 1 else pos" and ?o = "\<lambda>q. is_other (?fl q)"
    have "pos < skip ?o e ?s"
    proof (cases ?sp)
      case True
      then show ?thesis using skip_ge [of "pos + 1" ?o e] by simp
    next
      case False
      then have "?o pos" using f by (auto simp: is_other_def)
      with skip_gt [OF assms, of ?o] False show ?thesis by simp
    qed
    moreover have "skip ?o e ?s \<le> e" using assms by (intro skip_le) auto
    ultimately show "pos < skip ?nl e (skip ?o e ?s)" "skip ?nl e (skip ?o e ?s) \<le> e"
      using skip_ge [of "skip ?o e ?s" ?nl e] skip_le [of "skip ?o e ?s" e ?nl] by simp_all
  qed
  show ?thesis unfolding llama3_step_def Let_def None option.case
    by (intro good_if good_single conjI lt nums oth [OF _ refl])
      (use ws last_newline_bounds [of ?get pos ?nws] assms in auto)
qed

interpretation llama3: token_step "llama3_step ud cpts ini e" ini e for ud cpts ini e
  by unfold_locales (rule llama3_step_good)

text \<open>A finer cutting: every segment of the old one is the sum of consecutive segments of the new.\<close>

definition refines :: "nat list \<Rightarrow> nat list \<Rightarrow> bool" where
  "refines out offsets \<longleftrightarrow> (\<exists>parts. out = concat parts \<and> map sum_list parts = offsets)"

lemma sum_list_parts: "sum_list (concat xss) = sum_list (map sum_list (xss :: nat list list))"
  by (induction xss) simp_all

lemma refines_sum: "refines out offsets \<Longrightarrow> sum_list out = sum_list offsets"
  by (auto simp: refines_def sum_list_parts)

lemma split_offsets_ok:
  assumes step: "\<And>ini e. token_step (step ini e) ini e" and len: "sum_list offsets \<le> length cpts"
  shows "\<exists>out. split_offsets step cpts offsets = Inr out \<and> refines out offsets \<and> (\<forall>x \<in> set out. 0 < x)"
proof -
  let ?f = "\<lambda>off (start, out). rbind (rguard (start + off \<le> length cpts) GgmlAssert) (\<lambda>_.
      case split_loop (step start (start + off)) (start + off) start start out of
        None \<Rightarrow> Inl (Thrown ''no return'') | Some r \<Rightarrow> rbind r (\<lambda>out. Inr (start + off, out)))"
  have "\<exists>parts. rfold ?f offs (s, out) = Inr (s + sum_list offs, out @ concat parts) \<and> map sum_list parts = offs \<and>
      (\<forall>x \<in> set (concat parts). 0 < x)" if "s + sum_list offs \<le> length cpts" for offs s out
    using that
  proof (induction offs arbitrary: s out)
    case Nil
    show ?case by simp
  next
    case (Cons off offs)
    obtain new where new: "split_loop (step s (s + off)) (s + off) s s out = Some (Inr (out @ new))" "sum_list new = off" "\<forall>x \<in> set new. 0 < x"
      using token_step.split_loop_ok [OF step, of s s "s + off" out] by auto
    obtain parts where "rfold ?f offs (s + off, out @ new) = Inr (s + off + sum_list offs, (out @ new) @ concat parts)"
      "map sum_list parts = offs" "\<forall>x \<in> set (concat parts). 0 < x"
      using Cons.IH [of "s + off" "out @ new"] Cons.prems by (auto simp: add.assoc)
    with new Cons.prems show ?case by (intro exI [of _ "new # parts"]) (auto simp: add.assoc)
  qed
  from this [of 0 offsets "[]"] len show ?thesis by (fastforce simp: split_offsets_def refines_def)
qed

section \<open>Splitting with \<open>std::regex\<close>\<close>

text \<open>The regular expression engine is an argument: the matches an iterator finds in a segment, as
  positions and lengths, or \<open>None\<close> for a malformed expression.\<close>

type_synonym engine = "nat list \<Rightarrow> nat list \<Rightarrow> (nat \<times> nat) list option"

definition stl_segment :: "(nat \<times> nat) list \<Rightarrow> nat \<Rightarrow> nat list \<Rightarrow> nat list" where
  "stl_segment ms off out =
    (let (s, out) = fold (\<lambda>(p, l) (s, out). (p + l, (if p > s then out @ [p - s] else out) @ [l])) ms (0, out)
     in if s < off then out @ [off - s] else out)"

definition unicode_regex_split_stl :: "engine \<Rightarrow> nat list \<Rightarrow> nat list \<Rightarrow> nat list \<Rightarrow> nat list res" where
  "unicode_regex_split_stl rx text re offsets =
     rbind (rfold (\<lambda>off (start, out). case rx re (take off (drop start text)) of
              None \<Rightarrow> Inl (Thrown ''regex_error'')
            | Some ms \<Rightarrow> Inr (start + off, stl_segment ms off out)) offsets (0, []))
       (\<lambda>(_, out). Inr out)"

text \<open>What the engine promises: matches in order, without overlap, inside the segment.\<close>

fun matches_from :: "nat \<Rightarrow> nat \<Rightarrow> (nat \<times> nat) list \<Rightarrow> bool" where
  "matches_from s n [] = (s \<le> n)"
| "matches_from s n ((p, l) # ms) = (s \<le> p \<and> p + l \<le> n \<and> matches_from (p + l) n ms)"

definition engine_ok :: "engine \<Rightarrow> bool" where
  "engine_ok rx \<longleftrightarrow> (\<forall>re seg ms. rx re seg = Some ms \<longrightarrow> matches_from 0 (length seg) ms)"

lemma stl_segment_ok:
  assumes "matches_from 0 off ms"
  shows "\<exists>new. stl_segment ms off out = out @ new \<and> sum_list new = off"
proof -
  have "\<exists>s' new. fold (\<lambda>(p, l) (s, out). (p + l, (if p > s then out @ [p - s] else out) @ [l])) ms (s, out) = (s', out @ new) \<and>
      sum_list new = s' - s \<and> s \<le> s' \<and> s' \<le> off" if "matches_from s off ms" for s out
    using that
  proof (induction ms arbitrary: s out)
    case Nil
    then show ?case by auto
  next
    case (Cons m ms)
    obtain p l where m: "m = (p, l)" by fastforce
    let ?n = "(if p > s then [p - s] else []) @ [l]"
    obtain s' new where "fold (\<lambda>(p, l) (s, out). (p + l, (if p > s then out @ [p - s] else out) @ [l])) ms (p + l, out @ ?n) = (s', (out @ ?n) @ new)"
      "sum_list new = s' - (p + l)" "p + l \<le> s'" "s' \<le> off" using Cons m by fastforce
    with Cons.prems m show ?case by (intro exI [of _ s'] exI [of _ "?n @ new"]) auto
  qed
  from this [OF assms, of out] obtain s' new where
    "fold (\<lambda>(p, l) (s, out). (p + l, (if p > s then out @ [p - s] else out) @ [l])) ms (0, out) = (s', out @ new)"
    "sum_list new = s'" "s' \<le> off" by auto
  then show ?thesis by (intro exI [of _ "new @ (if s' < off then [off - s'] else [])"]) (auto simp: stl_segment_def)
qed

lemma split_stl_ok:
  assumes rx: "engine_ok rx" and len: "sum_list offsets \<le> length text"
    and run: "unicode_regex_split_stl rx text re offsets = Inr out"
  shows "refines out offsets"
proof -
  let ?f = "\<lambda>off (start, out). case rx re (take off (drop start text)) of
      None \<Rightarrow> Inl (Thrown ''regex_error'') | Some ms \<Rightarrow> Inr (start + off, stl_segment ms off out)"
  have "\<exists>parts. snd st = out0 @ concat parts \<and> map sum_list parts = offs"
    if "rfold ?f offs (s, out0) = Inr st" "s + sum_list offs \<le> length text" for offs s out0 st
    using that
  proof (induction offs arbitrary: s out0)
    case Nil
    then show ?case by auto
  next
    case (Cons off offs)
    then obtain ms where ms: "rx re (take off (drop s text)) = Some ms" "rfold ?f offs (s + off, stl_segment ms off out0) = Inr st"
      by (auto simp: res_simps split: option.splits)
    have "length (take off (drop s text)) = off" using Cons.prems(2) by simp
    then have "matches_from 0 off ms" using rx ms(1) unfolding engine_ok_def by metis
    then obtain new where new: "stl_segment ms off out0 = out0 @ new" "sum_list new = off" using stl_segment_ok by blast
    with Cons.IH [of "s + off" "out0 @ new"] ms(2) Cons.prems(2) obtain parts where
      "snd st = (out0 @ new) @ concat parts" "map sum_list parts = offs" by (auto simp: add.assoc)
    with new show ?case by (intro exI [of _ "new # parts"]) simp
  qed
  with run len show ?thesis by (fastforce simp: unicode_regex_split_stl_def res_simps refines_def)
qed

section \<open>\<open>unicode_regex_split\<close>\<close>

definition bytes_of :: "string \<Rightarrow> nat list" where
  "bytes_of s = map of_char s"

text \<open>The expression \<open>\p{c}\<close>.\<close>

definition ucat :: "char \<Rightarrow> nat list" where
  "ucat c = 0x5C # bytes_of ''p{'' @ [of_char c] @ bytes_of ''}''"

definition k_ucat_enum :: "(nat list \<times> nat) list" where
  "k_ucat_enum = [(ucat CHR ''N'', F_NUMBER), (ucat CHR ''L'', F_LETTER), (ucat CHR ''P'', F_PUNCTUATION),
                  (ucat CHR ''M'', F_ACCENT_MARK), (ucat CHR ''S'', F_SYMBOL)]"

definition k_ucat_cpt :: "(nat \<times> nat) list" where
  "k_ucat_cpt = [(F_NUMBER, 0xD1), (F_LETTER, 0xD2), (F_PUNCTUATION, 0xD3), (F_ACCENT_MARK, 0xD4), (F_SYMBOL, 0xD5)]"

definition k_ucat_map :: "(nat \<times> nat list) list" where
  "k_ucat_map = [(F_NUMBER, [0x30, 0x2D, 0x39]), (F_LETTER, [0x41, 0x2D, 0x5A, 0x61, 0x2D, 0x7A]),
     (F_PUNCTUATION, [0x21, 0x2D, 0x23, 0x25, 0x2D, 0x2A, 0x2C, 0x2D, 0x2F, 0x3A, 0x2D, 0x3B, 0x3F, 0x2D, 0x40,
        0x5C, 0x5B, 0x2D, 0x5C, 0x5D, 0x5F, 0x5C, 0x7B, 0x5C, 0x7D]),
     (F_ACCENT_MARK, []), (F_SYMBOL, [0x5C, 0x24, 0x5C, 0x2B, 0x3C, 0x2D, 0x3E, 0x5E, 0x60, 0x5C, 0x7C])]"

text \<open>\<open>std::string::find\<close> as a test.\<close>

fun contains :: "nat list \<Rightarrow> nat list \<Rightarrow> bool" where
  "contains [] pat = (pat = [])"
| "contains (x # xs) pat = (take (length pat) (x # xs) = pat \<or> contains xs pat)"

definition uses_category :: "nat list \<Rightarrow> bool" where
  "uses_category re \<longleftrightarrow> list_ex (\<lambda>(pat, _). contains re pat) k_ucat_enum"

definition collapse_cpt :: "unicode_data \<Rightarrow> nat \<Rightarrow> nat" where
  "collapse_cpt ud c =
    (if c < 128 then c
     else let flags = unicode_cpt_flags_from_cpt ud c in
          if is_whitespace flags then 0x0B
          else case map_of k_ucat_cpt (category_flag flags) of Some x \<Rightarrow> x | None \<Rightarrow> 0xD0)"

text \<open>The expression with its categories replaced by byte ranges; \<open>inside\<close> tracks brackets. The
  character before position 0 is only read when a bracket is open, which cannot be at 0.\<close>

fun collapse_regex :: "nat \<Rightarrow> bool \<Rightarrow> nat list \<Rightarrow> nat list" where
  "collapse_regex prv inside [] = []"
| "collapse_regex prv inside (x # xs) =
    (if x = 0x5B \<and> prv \<noteq> 0x5C then 0x5B # collapse_regex x True xs
     else if inside \<and> x = 0x5D \<and> prv \<noteq> 0x5C then 0x5D # collapse_regex x False xs
     else case (if x = 0x5C \<and> 4 \<le> length xs then map_of k_ucat_enum (take 5 (x # xs)) else None) of
            Some f \<Rightarrow>
              (let body = the (map_of k_ucat_cpt f) # the (map_of k_ucat_map f)
               in (if inside then body else 0x5B # body @ [0x5D]) @ collapse_regex 0x7D inside (drop 4 xs))
          | None \<Rightarrow> x # collapse_regex x inside xs)"

definition gpt2_regex :: "nat list" where
  "gpt2_regex = (let ap = [0x27]; bs = [0x5C] in
     ap @ bytes_of ''s|'' @ ap @ bytes_of ''t|'' @ ap @ bytes_of ''re|'' @ ap @ bytes_of ''ve|'' @ ap @ bytes_of ''m|'' @ ap @
     bytes_of ''ll|'' @ ap @ bytes_of ''d| ?'' @ ucat CHR ''L'' @ bytes_of ''+| ?'' @ ucat CHR ''N'' @ bytes_of ''+| ?[^'' @ bs @
     bytes_of ''s'' @ ucat CHR ''L'' @ ucat CHR ''N'' @ bytes_of '']+|'' @ bs @ bytes_of ''s+(?!'' @ bs @ bytes_of ''S)'')"

definition llama3_tail :: "nat list" where
  "llama3_tail = (let bs = [0x5C] in
     bytes_of ''|[^'' @ bs @ bytes_of ''r'' @ bs @ bytes_of ''n'' @ ucat CHR ''L'' @ ucat CHR ''N'' @ bytes_of '']?'' @ ucat CHR ''L'' @
     bytes_of ''+|'' @ ucat CHR ''N'' @ bytes_of ''{1,3}| ?[^'' @ bs @ bytes_of ''s'' @ ucat CHR ''L'' @ ucat CHR ''N'' @ bytes_of '']+['' @
     bs @ bytes_of ''r'' @ bs @ bytes_of ''n]*|'' @ bs @ bytes_of ''s*['' @ bs @ bytes_of ''r'' @ bs @ bytes_of ''n]+|'' @ bs @
     bytes_of ''s+(?!'' @ bs @ bytes_of ''S)|'' @ bs @ bytes_of ''s+'')"

definition llama3_regex1 :: "nat list" where
  "llama3_regex1 = (let ap = [0x27] in
     bytes_of ''(?i:'' @ ap @ bytes_of ''s|'' @ ap @ bytes_of ''t|'' @ ap @ bytes_of ''re|'' @ ap @ bytes_of ''ve|'' @ ap @ bytes_of ''m|'' @ ap @
     bytes_of ''ll|'' @ ap @ bytes_of ''d)'' @ llama3_tail)"

definition llama3_regex2 :: "nat list" where
  "llama3_regex2 = (let ap = [0x27] in
     bytes_of ''(?:'' @ ap @ bytes_of ''[sS]|'' @ ap @ bytes_of ''[tT]|'' @ ap @ bytes_of ''[rR][eE]|'' @ ap @ bytes_of ''[vV][eE]|'' @ ap @
     bytes_of ''[mM]|'' @ ap @ bytes_of ''[lL][lL]|'' @ ap @ bytes_of ''[dD])'' @ llama3_tail)"

definition unicode_regex_split_custom :: "unicode_data \<Rightarrow> nat list \<Rightarrow> nat list \<Rightarrow> nat list \<Rightarrow> nat list res" where
  "unicode_regex_split_custom ud text re offsets =
    (if re = gpt2_regex then unicode_regex_split_custom_gpt2 ud text offsets
     else if re = llama3_regex1 \<or> re = llama3_regex2 then unicode_regex_split_custom_llama3 ud text offsets
     else Inr [])"

text \<open>\<open>catch (std::regex_error)\<close>.\<close>

definition catch_regex_error :: "'a res \<Rightarrow> 'a res" where
  "catch_regex_error r = (if r = Inl (Thrown ''regex_error'') then Inl (Thrown ''Failed to process regex'') else r)"

text \<open>One expression of the list. \<open>rx\<close> and \<open>wrx\<close> are the narrow and the wide engine, \<open>wconv\<close> the
  conversion of an expression to a wide string.\<close>

definition regex_pass :: "unicode_data \<Rightarrow> engine \<Rightarrow> engine \<Rightarrow> (nat list \<Rightarrow> nat list res) \<Rightarrow> nat list \<Rightarrow> nat list \<Rightarrow> nat list \<Rightarrow> nat list res" where
  "regex_pass ud rx wrx wconv text re offsets =
    (let cpts = unicode_cpts_from_utf8 text in
     rbind (unicode_regex_split_custom ud text re offsets) (\<lambda>tmp.
     if tmp \<noteq> [] then Inr tmp
     else if uses_category re then
       (if list_ex (\<lambda>c. c \<ge> 128) (unicode_cpts_from_utf8 re)
        then Inl (Thrown ''Regex includes both unicode categories and non-ASCII characters - not supported'')
        else catch_regex_error (unicode_regex_split_stl rx (map (collapse_cpt ud) cpts) (collapse_regex 0 False re) offsets))
     else rbind (wconv re) (\<lambda>wre.
          catch_regex_error (unicode_regex_split_stl wrx (map (\<lambda>c. if c > 0x7F \<and> is_whitespace (unicode_cpt_flags_from_cpt ud c) then 0x0B else c) cpts) wre offsets))))"

definition split_words :: "nat list \<Rightarrow> nat list \<Rightarrow> nat list list res" where
  "split_words cpts offsets =
     rbind (rfold (\<lambda>off (start, ws).
              rbind (rguard (start + off \<le> length cpts) OutOfBounds) (\<lambda>_.
              rbind (unicode_cpts_to_utf8 (take off (drop start cpts))) (\<lambda>w. Inr (start + off, ws @ [w])))) offsets (0, []))
       (\<lambda>(_, ws). Inr ws)"

definition byte_encode_word :: "nat list \<Rightarrow> nat list res" where
  "byte_encode_word word =
     rbind (unicode_cpts_to_utf8 (unicode_cpts_from_utf8 word)) (\<lambda>text_utf.
     rfold (\<lambda>c out. rbind (unicode_byte_to_utf8 c) (\<lambda>s. Inr (out @ s))) text_utf [])"

definition unicode_byte_encoding_process :: "nat list list \<Rightarrow> nat list list res" where
  "unicode_byte_encoding_process ws = rfold (\<lambda>w out. rbind (byte_encode_word w) (\<lambda>s. Inr (out @ [s]))) ws []"

definition unicode_regex_split :: "unicode_data \<Rightarrow> engine \<Rightarrow> engine \<Rightarrow> (nat list \<Rightarrow> nat list res) \<Rightarrow> nat list \<Rightarrow> nat list list \<Rightarrow> nat list list res" where
  "unicode_regex_split ud rx wrx wconv text res =
    (let cpts = unicode_cpts_from_utf8 text in
     rbind (rfold (regex_pass ud rx wrx wconv text) res [length cpts]) (\<lambda>offsets.
     rbind (split_words cpts offsets) unicode_byte_encoding_process))"

text \<open>\<^verbatim>\<open>llama_decode_text\<close> of \<^verbatim>\<open>llama-vocab.cpp\<close>: the inverse of the byte encoding, with a marker for a
  code point that stands for no byte.\<close>

definition hex_digit :: "nat \<Rightarrow> nat" where
  "hex_digit d = (if d < 10 then 48 + d else 87 + d)"

definition unk_marker :: "nat list \<Rightarrow> nat list \<Rightarrow> nat list" where
  "unk_marker utf8 text = bytes_of ''[UNK_BYTE_0x'' @ concat (map (\<lambda>c. [hex_digit (c div 16), hex_digit (c mod 16)]) utf8) @ text @ bytes_of '']''"

definition llama_decode_text :: "nat list \<Rightarrow> nat list res" where
  "llama_decode_text text =
     rfold (\<lambda>cpt out. rbind (unicode_cpt_to_utf8 cpt) (\<lambda>utf8.
        case unicode_utf8_to_byte utf8 of
          Inr b \<Rightarrow> Inr (out @ [b])
        | Inl e \<Rightarrow> (if e = Thrown ''out_of_range'' then Inr (out @ unk_marker utf8 text) else Inl e)))
       (unicode_cpts_from_utf8 text) []"

section \<open>The pre-tokenizer loses nothing\<close>

text \<open>An expression the engine can compile, without mixing categories and non-ASCII text.\<close>

definition regex_supported :: "engine \<Rightarrow> engine \<Rightarrow> (nat list \<Rightarrow> nat list res) \<Rightarrow> nat list \<Rightarrow> bool" where
  "regex_supported rx wrx wconv re \<longleftrightarrow>
    (if uses_category re
     then \<not> list_ex (\<lambda>c. c \<ge> 128) (unicode_cpts_from_utf8 re) \<and> (\<forall>seg. rx (collapse_regex 0 False re) seg \<noteq> None)
     else \<exists>wre. wconv re = Inr wre \<and> (\<forall>seg. wrx wre seg \<noteq> None))"

lemma split_stl_total:
  "(\<forall>seg. rx re seg \<noteq> None) \<Longrightarrow> \<exists>out. unicode_regex_split_stl rx tx re offsets = Inr out"
proof -
  assume h: "\<forall>seg. rx re seg \<noteq> None"
  let ?f = "\<lambda>off (start, out). case rx re (take off (drop start tx)) of
      None \<Rightarrow> Inl (Thrown ''regex_error'') | Some ms \<Rightarrow> Inr (start + off, stl_segment ms off out)"
  have "\<exists>t. rfold ?f offsets (0, []) = Inr t \<and> True"
    by (rule rfold_total) (use h in \<open>auto split: option.split\<close>)
  then show ?thesis by (auto simp: unicode_regex_split_stl_def)
qed

lemma stl_pass:
  assumes "engine_ok rx" "\<forall>seg. rx re seg \<noteq> None" "sum_list offsets \<le> length tx"
  shows "\<exists>out. catch_regex_error (unicode_regex_split_stl rx tx re offsets) = Inr out \<and> refines out offsets"
proof -
  obtain out where "unicode_regex_split_stl rx tx re offsets = Inr out"
    using split_stl_total [where rx = rx and re = re, OF assms(2)] by blast
  with split_stl_ok [OF assms(1,3) this] show ?thesis by (simp add: catch_regex_error_def)
qed

lemma custom_pass:
  assumes "sum_list offsets \<le> length (unicode_cpts_from_utf8 text)"
  shows "\<exists>tmp. unicode_regex_split_custom ud text re offsets = Inr tmp \<and> (tmp = [] \<or> refines tmp offsets)"
  using split_offsets_ok [where step = "gpt2_step ud (unicode_cpts_from_utf8 text)", OF gpt2.token_step_axioms assms]
    split_offsets_ok [where step = "llama3_step ud (unicode_cpts_from_utf8 text)", OF llama3.token_step_axioms assms]
  by (auto simp: unicode_regex_split_custom_def unicode_regex_split_custom_gpt2_def unicode_regex_split_custom_llama3_def Let_def)

lemma regex_pass_ok:
  assumes eng: "engine_ok rx" "engine_ok wrx" and sup: "regex_supported rx wrx wconv re"
    and len: "sum_list offsets \<le> length (unicode_cpts_from_utf8 text)"
  shows "\<exists>out. regex_pass ud rx wrx wconv text re offsets = Inr out \<and> refines out offsets"
proof -
  let ?cpts = "unicode_cpts_from_utf8 text"
  obtain tmp where tmp: "unicode_regex_split_custom ud text re offsets = Inr tmp" "tmp = [] \<or> refines tmp offsets"
    using custom_pass [OF len] by blast
  show ?thesis
  proof (cases "tmp = []")
    case False
    with tmp show ?thesis by (simp add: regex_pass_def Let_def)
  next
    case True
    show ?thesis
    proof (cases "uses_category re")
      case cat: True
      then have s: "\<not> list_ex (\<lambda>c. c \<ge> 128) (unicode_cpts_from_utf8 re)" "\<forall>seg. rx (collapse_regex 0 False re) seg \<noteq> None"
        using sup by (simp_all add: regex_supported_def)
      from stl_pass [where re = "collapse_regex 0 False re" and offsets = offsets and tx = "map (collapse_cpt ud) ?cpts", OF eng(1) s(2)] len
      show ?thesis using True tmp(1) cat s(1) by (simp add: regex_pass_def Let_def)
    next
      case cat: False
      then obtain wre where w: "wconv re = Inr wre" "\<forall>seg. wrx wre seg \<noteq> None" using sup by (auto simp: regex_supported_def)
      let ?w = "map (\<lambda>c. if c > 0x7F \<and> is_whitespace (unicode_cpt_flags_from_cpt ud c) then 0x0B else c) ?cpts"
      from stl_pass [where re = wre and offsets = offsets and tx = ?w, OF eng(2) w(2)] len
      show ?thesis using True tmp(1) cat w(1) by (simp add: regex_pass_def Let_def)
    qed
  qed
qed

lemma regex_passes_ok:
  assumes eng: "engine_ok rx" "engine_ok wrx" and sup: "\<forall>re \<in> set res. regex_supported rx wrx wconv re"
    and len: "sum_list offsets = length (unicode_cpts_from_utf8 text)"
  shows "\<exists>out. rfold (regex_pass ud rx wrx wconv text) res offsets = Inr out \<and> sum_list out = length (unicode_cpts_from_utf8 text)"
proof (rule rfold_total [where P = "\<lambda>o'. sum_list o' = length (unicode_cpts_from_utf8 text)", OF len])
  fix re offs assume "re \<in> set res" "sum_list offs = length (unicode_cpts_from_utf8 text)"
  then show "\<exists>t. regex_pass ud rx wrx wconv text re offs = Inr t \<and> sum_list t = length (unicode_cpts_from_utf8 text)"
    using regex_pass_ok [OF eng, of wconv re offs "text" ud] sup refines_sum by auto
qed

text \<open>Cutting a list into pieces of given lengths.\<close>

fun pieces :: "'a list \<Rightarrow> nat list \<Rightarrow> 'a list list" where
  "pieces xs [] = []"
| "pieces xs (n # ns) = take n xs # pieces (drop n xs) ns"

lemma concat_pieces: "sum_list ns = length xs \<Longrightarrow> concat (pieces xs ns) = xs"
  by (induction xs ns rule: pieces.induct) auto

lemma set_pieces: "p \<in> set (pieces xs ns) \<Longrightarrow> set p \<subseteq> set xs"
  by (induction xs ns rule: pieces.induct) (auto dest: in_set_takeD in_set_dropD)

abbreviation utf8s :: "nat list \<Rightarrow> nat list" where
  "utf8s cs \<equiv> concat (map utf8_of cs)"

lemma split_words_eq:
  assumes v: "\<forall>c \<in> set cpts. valid_cpt c" and len: "sum_list offsets = length cpts"
  shows "split_words cpts offsets = Inr (map utf8s (pieces cpts offsets))"
proof -
  let ?f = "\<lambda>off (start, ws). rbind (rguard (start + off \<le> length cpts) OutOfBounds) (\<lambda>_.
      rbind (unicode_cpts_to_utf8 (take off (drop start cpts))) (\<lambda>w. Inr (start + off, ws @ [w])))"
  have "rfold ?f offs (s, ws) = Inr (s + sum_list offs, ws @ map utf8s (pieces (drop s cpts) offs))"
    if "s + sum_list offs = length cpts" for offs s ws
    using that
  proof (induction offs arbitrary: s ws)
    case Nil
    then show ?case by simp
  next
    case (Cons off offs)
    have "\<forall>c \<in> set (take off (drop s cpts)). valid_cpt c" using v by (auto dest: in_set_takeD in_set_dropD)
    then have "?f off (s, ws) = Inr (s + off, ws @ [utf8s (take off (drop s cpts))])"
      using Cons.prems by (simp add: cpts_to_utf8_eq)
    with Cons.IH [of "s + off"] Cons.prems show ?case by (simp add: add.commute add.left_commute)
  qed
  from this [of 0 offsets "[]"] len show ?thesis by (simp add: split_words_def)
qed

lemma utf8s_bytes: "\<forall>c \<in> set cs. valid_cpt c \<Longrightarrow> \<forall>b \<in> set (utf8s cs). b < 256"
  using utf8_of_bytes by fastforce

lemma encode_bytes:
  "\<forall>b \<in> set bs. b < 256 \<Longrightarrow> rfold (\<lambda>c out. rbind (unicode_byte_to_utf8 c) (\<lambda>s. Inr (out @ s))) bs out = Inr (out @ utf8s (map byte_cpt bs))"
  by (induction bs arbitrary: out) (simp_all add: byte_to_utf8_eq)

lemma cpts_from_utf8s: "\<forall>c \<in> set cs. valid_cpt c \<Longrightarrow> unicode_cpts_from_utf8 (utf8s cs) = cs"
  using cpts_loop_of [of cs "[]"] by (simp add: unicode_cpts_from_utf8_def)

lemma byte_encode_word_eq:
  assumes "\<forall>c \<in> set cs. valid_cpt c"
  shows "byte_encode_word (utf8s cs) = Inr (utf8s (map byte_cpt (utf8s cs)))"
  using encode_bytes [OF utf8s_bytes [OF assms], of "[]"] assms
  by (simp add: byte_encode_word_def cpts_from_utf8s cpts_to_utf8_eq)

lemma decode_text_eq:
  assumes b: "\<forall>b \<in> set bs. b < 256"
  shows "llama_decode_text (utf8s (map byte_cpt bs)) = Inr bs"
proof -
  let ?f = "\<lambda>t cpt out. rbind (unicode_cpt_to_utf8 cpt) (\<lambda>utf8. case unicode_utf8_to_byte utf8 of
      Inr b \<Rightarrow> Inr (out @ [b]) | Inl e \<Rightarrow> (if e = Thrown ''out_of_range'' then Inr (out @ unk_marker utf8 t) else Inl e))"
  have "rfold (?f t) (map byte_cpt bs) out = Inr (out @ bs)" for t out
    using b byte_cpt_valid by (induction bs arbitrary: out) (simp_all add: cpt_to_utf8_eq utf8_to_byte_eq)
  moreover have "unicode_cpts_from_utf8 (utf8s (map byte_cpt bs)) = map byte_cpt bs"
    by (rule cpts_from_utf8s) (use b byte_cpt_valid in auto)
  ultimately show ?thesis by (simp add: llama_decode_text_def)
qed

lemma encoding_process_eq:
  assumes "\<forall>p \<in> set ps. \<forall>c \<in> set p. valid_cpt c"
  shows "unicode_byte_encoding_process (map utf8s ps) = Inr (map (\<lambda>p. utf8s (map byte_cpt (utf8s p))) ps)"
proof -
  have "rfold (\<lambda>w out. rbind (byte_encode_word w) (\<lambda>s. Inr (out @ [s]))) (map utf8s ps) out =
      Inr (out @ map (\<lambda>p. utf8s (map byte_cpt (utf8s p))) ps)" for out
    using assms by (induction ps arbitrary: out) (simp_all add: byte_encode_word_eq)
  then show ?thesis by (simp add: unicode_byte_encoding_process_def)
qed

lemma regex_split_eq:
  assumes "\<forall>c \<in> set cs. valid_cpt c" and "engine_ok rx" and "engine_ok wrx" and "\<forall>re \<in> set res. regex_supported rx wrx wconv re"
  shows "\<exists>ps. unicode_regex_split ud rx wrx wconv (utf8s cs) res = Inr (map (\<lambda>p. utf8s (map byte_cpt (utf8s p))) ps) \<and> concat ps = cs"
proof -
  have c: "unicode_cpts_from_utf8 (utf8s cs) = cs" by (rule cpts_from_utf8s) (rule assms(1))
  obtain offs where offs: "rfold (regex_pass ud rx wrx wconv (utf8s cs)) res [length cs] = Inr offs" "sum_list offs = length cs"
    using regex_passes_ok [OF assms(2-4), of "[length cs]" "utf8s cs" ud] by (auto simp: c)
  have v: "\<forall>p \<in> set (pieces cs offs). \<forall>c \<in> set p. valid_cpt c" using assms(1) set_pieces by blast
  have "unicode_regex_split ud rx wrx wconv (utf8s cs) res = Inr (map (\<lambda>p. utf8s (map byte_cpt (utf8s p))) (pieces cs offs))"
    using offs assms(1) v by (simp add: unicode_regex_split_def Let_def c split_words_eq encoding_process_eq)
  with concat_pieces [OF offs(2)] show ?thesis by blast
qed

lemma concat_utf8s: "concat (map utf8s ps) = utf8s (concat ps)"
  by (induction ps) simp_all

section \<open>Properties\<close>

text \<open>C10: The pre-tokenizer is lossless. On a text that is the encoding of code points up to U+10FFFF, with
  expressions the engine supports (any engine that returns ordered matches inside the text),
  \<open>unicode_regex_split\<close> returns words; decoding the words with \<open>llama_decode_text\<close> and
  concatenating gives back the bytes of the text.\<close>

theorem regex_split_lossless:
  assumes "\<forall>c \<in> set cs. c \<le> 0x10ffff" and "unicode_cpts_to_utf8 cs = Inr tx"
    and "engine_ok rx" and "engine_ok wrx" and "\<forall>re \<in> set res. regex_supported rx wrx wconv re"
  shows "\<exists>ws ds. unicode_regex_split ud rx wrx wconv tx res = Inr ws \<and>
    list_all2 (\<lambda>w d. llama_decode_text w = Inr d) ws ds \<and> concat ds = tx"
proof -
  have t: "tx = utf8s cs" using assms(1,2) by (simp add: cpts_to_utf8_eq)
  obtain ps where ps: "unicode_regex_split ud rx wrx wconv tx res = Inr (map (\<lambda>p. utf8s (map byte_cpt (utf8s p))) ps)" "concat ps = cs"
    using regex_split_eq [OF assms(1,3-5), of ud] unfolding t by blast
  have v: "\<forall>p \<in> set ps. \<forall>c \<in> set p. valid_cpt c" using assms(1) ps(2) by auto
  have "list_all2 (\<lambda>w d. llama_decode_text w = Inr d) (map (\<lambda>p. utf8s (map byte_cpt (utf8s p))) ps) (map utf8s ps)"
    unfolding list_all2_map1 list_all2_map2
    by (rule list_all2_same [THEN iffD2]) (use v decode_text_eq utf8s_bytes in blast)
  moreover have "concat (map utf8s ps) = tx" using concat_utf8s [of ps] ps(2) by (simp add: t)
  ultimately show ?thesis using ps(1) by blast
qed

definition tiny_data :: unicode_data where
  "tiny_data = \<lparr>ud_ranges_flags = [(0, 0x80), (0x20, 0x08), (0x21, 0x20), (0x30, 0x02), (0x3A, 0x20), (0x41, 0x04), (0x110000, 0)],
     ud_whitespace = [0x0A, 0x20], ud_lowercase = [(0x41, 0x61)], ud_uppercase = [(0x61, 0x41)], ud_nfd = [(0, 0, 0)]\<rparr>"

theorem regex_split_lossless_witness:
  "\<exists>ws ds. unicode_regex_split tiny_data (\<lambda>re seg. Some []) (\<lambda>re seg. Some [(0, length seg)]) Inr [0x68, 0x69] [gpt2_regex, bytes_of ''a''] = Inr ws \<and>
     list_all2 (\<lambda>w d. llama_decode_text w = Inr d) ws ds \<and> concat ds = [0x68, 0x69]"
proof (rule regex_split_lossless)
  show "\<forall>c \<in> set [0x68, 0x69::nat]. c \<le> 0x10ffff" by simp
  show "unicode_cpts_to_utf8 [0x68, 0x69] = Inr [0x68, 0x69]" by (simp add: unicode_cpt_to_utf8_def)
  show "engine_ok (\<lambda>re seg. Some [])" "engine_ok (\<lambda>re seg. Some [(0, length seg)])" by (simp_all add: engine_ok_def)
  have "uses_category gpt2_regex" "\<not> uses_category (bytes_of ''a'')" by code_simp+
  moreover have "\<not> list_ex (\<lambda>c. c \<ge> 128) (unicode_cpts_from_utf8 gpt2_regex)"
  proof -
    have "gpt2_regex = utf8s gpt2_regex" by code_simp
    moreover have "\<forall>c \<in> set gpt2_regex. c < 128" by code_simp
    ultimately show ?thesis using cpts_from_utf8s [of gpt2_regex] by (fastforce simp: list_ex_iff)
  qed
  ultimately show "\<forall>re \<in> set [gpt2_regex, bytes_of ''a'']. regex_supported (\<lambda>re seg. Some []) (\<lambda>re seg. Some [(0, length seg)]) Inr re"
    by (auto simp: regex_supported_def)
qed






text \<open>Lower case. With the lower-case table sorted by code point, as the generated one is,
  \<open>unicode_tolower\<close> is the lookup in the table, and the identity where the table has no entry.\<close>

theorem tolower_is_lookup:
  assumes "sorted_wrt (<) (map fst (ud_lowercase ud))"
  shows "unicode_tolower ud c = (case map_of (ud_lowercase ud) c of Some d \<Rightarrow> d | None \<Rightarrow> c)"
  unfolding unicode_tolower_def by (rule lowercase_lookup [OF assms])

theorem tolower_is_lookup_witness: "unicode_tolower tiny_data 0x41 = 0x61"
  using tolower_is_lookup [of tiny_data "0x41"] by (simp add: tiny_data_def)

end
