(* ===== verification/Chat.thy ===== *)
theory Chat
  imports Prelude "HOL-Library.Char_ord" "HOL-Library.List_Lexorder" "HOL-Library.Sublist"
begin

text \<open>
  The built-in chat templates of \<open>llama-chat.cpp\<close> and their public entry point
  \<open>llama_chat_apply_template\<close> of \<open>llama.cpp\<close>.

  Strings are lists of bytes (\<open>char\<close>); the UTF-8 literals of the source are spelled byte by
  byte. The code formats a vector of pointers to messages and one template compares such pointers,
  so a chat is a list of addresses with the messages stored there. Every template is a definition
  of its own: a loop that writes one piece per message to the stream (\<open>each\<close>), or one that also
  carries a variable from message to message (\<open>emit\<close>), and the text that opens the answer.
  \<open>isspace\<close> and \<open>toupper\<close> are those of the C locale.
\<close>

section \<open>Strings\<close>

definition isspace :: "char \<Rightarrow> bool" where
  "isspace c \<longleftrightarrow> c \<in> {CHR 0x20, CHR 0x09, CHR 0x0A, CHR 0x0B, CHR 0x0C, CHR 0x0D}"

definition toupper :: "char \<Rightarrow> char" where
  "toupper c = (if 97 \<le> (of_char c :: nat) \<and> (of_char c :: nat) \<le> 122
                then char_of (of_char c - 32 :: nat) else c)"

function trim_start :: "string \<Rightarrow> nat \<Rightarrow> nat \<Rightarrow> nat" where
  "trim_start str start end' =
     (if start < end' \<and> isspace (str ! start) then trim_start str (start + 1) end' else start)"
  by auto
termination by (relation "measure (\<lambda>(_, start, end'). end' - start)") auto

fun trim_end :: "string \<Rightarrow> nat \<Rightarrow> nat \<Rightarrow> nat" where
  "trim_end str start end' =
     (if end' > start \<and> isspace (str ! (end' - 1)) then trim_end str start (end' - 1) else end')"

declare trim_start.simps [simp del] trim_end.simps [simp del]

definition trim :: "string \<Rightarrow> string" where
  "trim str =
     (let start = trim_start str 0 (length str);
          end' = trim_end str start (length str)
      in take (end' - start) (drop start str))"

section \<open>Templates and their names\<close>

datatype llm_chat_template =
    LLM_CHAT_TEMPLATE_CHATML
  | LLM_CHAT_TEMPLATE_LLAMA_2
  | LLM_CHAT_TEMPLATE_LLAMA_2_SYS
  | LLM_CHAT_TEMPLATE_LLAMA_2_SYS_BOS
  | LLM_CHAT_TEMPLATE_LLAMA_2_SYS_STRIP
  | LLM_CHAT_TEMPLATE_MISTRAL_V1
  | LLM_CHAT_TEMPLATE_MISTRAL_V3
  | LLM_CHAT_TEMPLATE_MISTRAL_V3_TEKKEN
  | LLM_CHAT_TEMPLATE_MISTRAL_V7
  | LLM_CHAT_TEMPLATE_PHI_3
  | LLM_CHAT_TEMPLATE_PHI_4
  | LLM_CHAT_TEMPLATE_FALCON_3
  | LLM_CHAT_TEMPLATE_ZEPHYR
  | LLM_CHAT_TEMPLATE_MONARCH
  | LLM_CHAT_TEMPLATE_GEMMA
  | LLM_CHAT_TEMPLATE_ORION
  | LLM_CHAT_TEMPLATE_OPENCHAT
  | LLM_CHAT_TEMPLATE_VICUNA
  | LLM_CHAT_TEMPLATE_VICUNA_ORCA
  | LLM_CHAT_TEMPLATE_DEEPSEEK
  | LLM_CHAT_TEMPLATE_DEEPSEEK_2
  | LLM_CHAT_TEMPLATE_DEEPSEEK_3
  | LLM_CHAT_TEMPLATE_COMMAND_R
  | LLM_CHAT_TEMPLATE_LLAMA_3
  | LLM_CHAT_TEMPLATE_CHATGML_3
  | LLM_CHAT_TEMPLATE_CHATGML_4
  | LLM_CHAT_TEMPLATE_GLMEDGE
  | LLM_CHAT_TEMPLATE_MINICPM
  | LLM_CHAT_TEMPLATE_EXAONE_3
  | LLM_CHAT_TEMPLATE_RWKV_WORLD
  | LLM_CHAT_TEMPLATE_GRANITE
  | LLM_CHAT_TEMPLATE_GIGACHAT
  | LLM_CHAT_TEMPLATE_MEGREZ
  | LLM_CHAT_TEMPLATE_UNKNOWN

definition LLM_CHAT_TEMPLATES :: "(string \<times> llm_chat_template) list" where
  "LLM_CHAT_TEMPLATES =
    [(''chatml'', LLM_CHAT_TEMPLATE_CHATML),
     (''llama2'', LLM_CHAT_TEMPLATE_LLAMA_2),
     (''llama2-sys'', LLM_CHAT_TEMPLATE_LLAMA_2_SYS),
     (''llama2-sys-bos'', LLM_CHAT_TEMPLATE_LLAMA_2_SYS_BOS),
     (''llama2-sys-strip'', LLM_CHAT_TEMPLATE_LLAMA_2_SYS_STRIP),
     (''mistral-v1'', LLM_CHAT_TEMPLATE_MISTRAL_V1),
     (''mistral-v3'', LLM_CHAT_TEMPLATE_MISTRAL_V3),
     (''mistral-v3-tekken'', LLM_CHAT_TEMPLATE_MISTRAL_V3_TEKKEN),
     (''mistral-v7'', LLM_CHAT_TEMPLATE_MISTRAL_V7),
     (''phi3'', LLM_CHAT_TEMPLATE_PHI_3),
     (''phi4'', LLM_CHAT_TEMPLATE_PHI_4),
     (''falcon3'', LLM_CHAT_TEMPLATE_FALCON_3),
     (''zephyr'', LLM_CHAT_TEMPLATE_ZEPHYR),
     (''monarch'', LLM_CHAT_TEMPLATE_MONARCH),
     (''gemma'', LLM_CHAT_TEMPLATE_GEMMA),
     (''orion'', LLM_CHAT_TEMPLATE_ORION),
     (''openchat'', LLM_CHAT_TEMPLATE_OPENCHAT),
     (''vicuna'', LLM_CHAT_TEMPLATE_VICUNA),
     (''vicuna-orca'', LLM_CHAT_TEMPLATE_VICUNA_ORCA),
     (''deepseek'', LLM_CHAT_TEMPLATE_DEEPSEEK),
     (''deepseek2'', LLM_CHAT_TEMPLATE_DEEPSEEK_2),
     (''deepseek3'', LLM_CHAT_TEMPLATE_DEEPSEEK_3),
     (''command-r'', LLM_CHAT_TEMPLATE_COMMAND_R),
     (''llama3'', LLM_CHAT_TEMPLATE_LLAMA_3),
     (''chatglm3'', LLM_CHAT_TEMPLATE_CHATGML_3),
     (''chatglm4'', LLM_CHAT_TEMPLATE_CHATGML_4),
     (''glmedge'', LLM_CHAT_TEMPLATE_GLMEDGE),
     (''minicpm'', LLM_CHAT_TEMPLATE_MINICPM),
     (''exaone3'', LLM_CHAT_TEMPLATE_EXAONE_3),
     (''rwkv-world'', LLM_CHAT_TEMPLATE_RWKV_WORLD),
     (''granite'', LLM_CHAT_TEMPLATE_GRANITE),
     (''gigachat'', LLM_CHAT_TEMPLATE_GIGACHAT),
     (''megrez'', LLM_CHAT_TEMPLATE_MEGREZ)]"

definition llm_chat_template_from_str :: "string \<Rightarrow> llm_chat_template res" where
  "llm_chat_template_from_str name =
     (case map_of LLM_CHAT_TEMPLATES name of
        Some t \<Rightarrow> Inr t
      | None \<Rightarrow> Inl (Thrown ''std::out_of_range''))"

definition tmpl_contains :: "string \<Rightarrow> string \<Rightarrow> bool" where
  "tmpl_contains tmpl haystack \<longleftrightarrow> str_find tmpl haystack \<noteq> None"

definition detect_by_contents :: "string \<Rightarrow> llm_chat_template" where
  "detect_by_contents tmpl =
    (if tmpl_contains tmpl ''<|im_start|>'' then
       (if tmpl_contains tmpl ''<|im_sep|>'' then LLM_CHAT_TEMPLATE_PHI_4 else LLM_CHAT_TEMPLATE_CHATML)
     else if str_find tmpl ''mistral'' = Some 0 \<or> tmpl_contains tmpl ''[INST]'' then
       (if tmpl_contains tmpl ''[SYSTEM_PROMPT]'' then LLM_CHAT_TEMPLATE_MISTRAL_V7
        else if tmpl_contains tmpl ([CHR 0x27] @ '' [INST] '' @ [CHR 0x27] @ '' + system_message'')
              \<or> tmpl_contains tmpl ''[AVAILABLE_TOOLS]'' then
          (if tmpl_contains tmpl '' [INST]'' then LLM_CHAT_TEMPLATE_MISTRAL_V1
           else if tmpl_contains tmpl ([CHR 0x22] @ ''[INST]'' @
               [CHR 0x22]) then LLM_CHAT_TEMPLATE_MISTRAL_V3_TEKKEN
           else LLM_CHAT_TEMPLATE_MISTRAL_V3)
        else
          (let support_system_message = tmpl_contains tmpl ''<<SYS>>'';
               add_bos_inside_history = tmpl_contains tmpl (''bos_token + '' @ [CHR 0x27] @ ''[INST]'');
               strip_message = tmpl_contains tmpl ''content.strip()''
           in if strip_message then LLM_CHAT_TEMPLATE_LLAMA_2_SYS_STRIP
              else if add_bos_inside_history then LLM_CHAT_TEMPLATE_LLAMA_2_SYS_BOS
              else if support_system_message then LLM_CHAT_TEMPLATE_LLAMA_2_SYS
              else LLM_CHAT_TEMPLATE_LLAMA_2))
     else if tmpl_contains tmpl ''<|assistant|>'' \<and> tmpl_contains tmpl ''<|end|>'' then
       LLM_CHAT_TEMPLATE_PHI_3
     else if tmpl_contains tmpl ''<|assistant|>'' \<and> tmpl_contains tmpl ''<|user|>'' then
       (if tmpl_contains tmpl ''</s>'' then LLM_CHAT_TEMPLATE_FALCON_3 else LLM_CHAT_TEMPLATE_GLMEDGE)
     else if tmpl_contains tmpl ''<|user|>'' \<and> tmpl_contains tmpl ''<|endoftext|>'' then
       LLM_CHAT_TEMPLATE_ZEPHYR
     else if tmpl_contains tmpl (''bos_token + message['' @ [CHR 0x27] @ ''role'' @ [CHR 0x27] @ '']'') then
       LLM_CHAT_TEMPLATE_MONARCH
     else if tmpl_contains tmpl ''<start_of_turn>'' then
       LLM_CHAT_TEMPLATE_GEMMA
     else if tmpl_contains tmpl ([CHR 0x27, CHR 0x5C] @ ''n'' @ [CHR 0x5C] @ ''nAssistant: '' @
         [CHR 0x27] @ '' + eos_token'') then
       LLM_CHAT_TEMPLATE_ORION
     else if tmpl_contains tmpl ''GPT4 Correct '' then
       LLM_CHAT_TEMPLATE_OPENCHAT
     else if tmpl_contains tmpl ''USER: '' \<and> tmpl_contains tmpl ''ASSISTANT: '' then
       (if tmpl_contains tmpl ''SYSTEM: '' then LLM_CHAT_TEMPLATE_VICUNA_ORCA else LLM_CHAT_TEMPLATE_VICUNA)
     else if tmpl_contains tmpl ''### Instruction:'' \<and> tmpl_contains tmpl ''<|EOT|>'' then
       LLM_CHAT_TEMPLATE_DEEPSEEK
     else if tmpl_contains tmpl ''<|START_OF_TURN_TOKEN|>'' \<and> tmpl_contains tmpl ''<|USER_TOKEN|>'' then
       LLM_CHAT_TEMPLATE_COMMAND_R
     else if tmpl_contains tmpl ''<|start_header_id|>'' \<and> tmpl_contains tmpl ''<|end_header_id|>'' then
       LLM_CHAT_TEMPLATE_LLAMA_3
     else if tmpl_contains tmpl ''[gMASK]sop'' then
       LLM_CHAT_TEMPLATE_CHATGML_3
     else if tmpl_contains tmpl ''[gMASK]<sop>'' then
       LLM_CHAT_TEMPLATE_CHATGML_4
     else if tmpl_contains tmpl (''<'' @ [CHR 0xE7, CHR 0x94, CHR 0xA8, CHR 0xE6, CHR 0x88, CHR 0xB7] @
         ''>'') then
       LLM_CHAT_TEMPLATE_MINICPM
     else if tmpl_contains tmpl ([CHR 0x27] @ ''Assistant: '' @ [CHR 0x27] @ '' + message['' @
         [CHR 0x27] @ ''content'' @ [CHR 0x27] @ ''] + eos_token'') then
       LLM_CHAT_TEMPLATE_DEEPSEEK_2
     else if tmpl_contains tmpl (''<'' @ [CHR 0xEF, CHR 0xBD, CHR 0x9C] @ ''Assistant'' @
         [CHR 0xEF, CHR 0xBD, CHR 0x9C] @ ''>'') \<and> tmpl_contains tmpl (''<'' @
         [CHR 0xEF, CHR 0xBD, CHR 0x9C] @ ''User'' @ [CHR 0xEF, CHR 0xBD, CHR 0x9C] @
         ''>'') \<and> tmpl_contains tmpl (''<'' @ [CHR 0xEF, CHR 0xBD, CHR 0x9C] @ ''end'' @
         [CHR 0xE2, CHR 0x96, CHR 0x81] @ ''of'' @ [CHR 0xE2, CHR 0x96, CHR 0x81] @ ''sentence'' @
         [CHR 0xEF, CHR 0xBD, CHR 0x9C] @ ''>'') then
       LLM_CHAT_TEMPLATE_DEEPSEEK_3
     else if tmpl_contains tmpl ''[|system|]'' \<and> tmpl_contains tmpl ''[|assistant|]'' \<and> tmpl_contains tmpl ''[|endofturn|]'' then
       LLM_CHAT_TEMPLATE_EXAONE_3
     else if tmpl_contains tmpl ''rwkv-world'' then
       LLM_CHAT_TEMPLATE_RWKV_WORLD
     else if tmpl_contains tmpl ''<|start_of_role|>'' then
       LLM_CHAT_TEMPLATE_GRANITE
     else if tmpl_contains tmpl (''message['' @ [CHR 0x27] @ ''role'' @ [CHR 0x27] @
         ''] + additional_special_tokens[0] + message['' @ [CHR 0x27] @ ''content'' @ [CHR 0x27] @
         ''] + additional_special_tokens[1]'') then
       LLM_CHAT_TEMPLATE_GIGACHAT
     else if tmpl_contains tmpl ''<|role_start|>'' then
       LLM_CHAT_TEMPLATE_MEGREZ
     else LLM_CHAT_TEMPLATE_UNKNOWN)"

definition llm_chat_detect_template :: "string \<Rightarrow> llm_chat_template" where
  "llm_chat_detect_template tmpl =
     (case llm_chat_template_from_str tmpl of
        Inr t \<Rightarrow> t
      | Inl _ \<Rightarrow> detect_by_contents tmpl)"

section \<open>Formatting\<close>

record llama_chat_message =
  role :: string
  content :: string

type_synonym chat = "(nat \<times> llama_chat_message) list"

text \<open>The loops over the messages.\<close>

definition each :: "(llama_chat_message \<Rightarrow> string) \<Rightarrow> chat \<Rightarrow> string" where
  "each f chat = concat (map (\<lambda>(_, m). f m) chat)"

fun emit :: "('s \<Rightarrow> llama_chat_message \<Rightarrow> 's \<times> string) \<Rightarrow> 's \<Rightarrow> chat \<Rightarrow> string" where
  "emit f s [] = []"
| "emit f s ((p, m) # chat) = (let (s', out) = f s m in out @ emit f s' chat)"

definition if_ass :: "bool \<Rightarrow> string \<Rightarrow> string" where
  "if_ass add_ass s = (if add_ass then s else [])"

definition chatml :: "chat \<Rightarrow> bool \<Rightarrow> string" where
  "chatml chat add_ass =
     each (\<lambda>m. ''<|im_start|>'' @ role m @ [CHR 0x0A] @ content m @ ''<|im_end|>'' @
         [CHR 0x0A]) chat @ if_ass add_ass (''<|im_start|>assistant'' @ [CHR 0x0A])"

definition mistral_v7 :: "chat \<Rightarrow> string" where
  "mistral_v7 chat =
     each (\<lambda>m. if role m = ''system'' then ''[SYSTEM_PROMPT] '' @ content m @ ''[/SYSTEM_PROMPT]''
        else if role m = ''user'' then ''[INST] '' @ content m @ ''[/INST]''
        else '' '' @ content m @ ''</s>'') chat"

definition mistral_message ::
  "string \<Rightarrow> string \<Rightarrow> bool \<Rightarrow> bool \<Rightarrow> llama_chat_message \<Rightarrow> bool \<times> string" where
  "mistral_message leading_space trailing_space trim_assistant_message is_inside_turn m =
     (let opening = (if \<not> is_inside_turn then leading_space @ ''[INST]'' @ trailing_space else [])
      in if role m = ''system'' then (True, opening @ content m @ [CHR 0x0A, CHR 0x0A])
         else if role m = ''user'' then (True, opening @ content m @ leading_space @ ''[/INST]'')
         else (False, opening @ trailing_space @
                 (if trim_assistant_message then trim (content m) else content m) @ ''</s>''))"

definition mistral :: "llm_chat_template \<Rightarrow> chat \<Rightarrow> string" where
  "mistral tmpl chat =
     (let leading_space = (if tmpl = LLM_CHAT_TEMPLATE_MISTRAL_V1 then '' '' else []);
          trailing_space = (if tmpl = LLM_CHAT_TEMPLATE_MISTRAL_V3_TEKKEN then [] else '' '');
          trim_assistant_message = (tmpl = LLM_CHAT_TEMPLATE_MISTRAL_V3)
      in emit (mistral_message leading_space trailing_space trim_assistant_message) False chat)"

definition llama2_message ::
  "bool \<Rightarrow> bool \<Rightarrow> bool \<Rightarrow> bool \<Rightarrow> llama_chat_message \<Rightarrow> bool \<times> string" where
  "llama2_message support_system_message add_bos_inside_history strip_message is_inside_turn m =
     (let c = (if strip_message then trim (content m) else content m);
          opening = (if \<not> is_inside_turn
                     then (if add_bos_inside_history then ''<s>[INST] '' else ''[INST] '') else [])
      in if role m = ''system'' then
           (True, opening @ (if support_system_message
                             then ''<<SYS>>'' @ [CHR 0x0A] @ c @ [CHR 0x0A] @ ''<</SYS>>'' @
                                 [CHR 0x0A, CHR 0x0A]
                             else c @ [CHR 0x0A]))
         else if role m = ''user'' then (True, opening @ c @ '' [/INST]'')
         else (False, opening @ c @ ''</s>''))"

definition llama2 :: "llm_chat_template \<Rightarrow> chat \<Rightarrow> string" where
  "llama2 tmpl chat =
     (let support_system_message = (tmpl \<noteq> LLM_CHAT_TEMPLATE_LLAMA_2);
          add_bos_inside_history = (tmpl = LLM_CHAT_TEMPLATE_LLAMA_2_SYS_BOS);
          strip_message = (tmpl = LLM_CHAT_TEMPLATE_LLAMA_2_SYS_STRIP)
      in ''[INST] '' @
         emit (llama2_message support_system_message add_bos_inside_history strip_message) True chat)"

definition phi3 :: "chat \<Rightarrow> bool \<Rightarrow> string" where
  "phi3 chat add_ass =
     each (\<lambda>m. ''<|'' @ role m @ ''|>'' @ [CHR 0x0A] @ content m @ ''<|end|>'' @
         [CHR 0x0A]) chat @ if_ass add_ass (''<|assistant|>'' @ [CHR 0x0A])"

definition phi4 :: "chat \<Rightarrow> bool \<Rightarrow> string" where
  "phi4 chat add_ass =
     each (\<lambda>m. ''<|im_start|>'' @ role m @ ''<|im_sep|>'' @ content m @ ''<|im_end|>'') chat @
         if_ass add_ass ''<|im_start|>assistant<|im_sep|>''"

definition falcon3 :: "chat \<Rightarrow> bool \<Rightarrow> string" where
  "falcon3 chat add_ass =
     each (\<lambda>m. ''<|'' @ role m @ ''|>'' @ [CHR 0x0A] @ content m @ [CHR 0x0A]) chat @
         if_ass add_ass (''<|assistant|>'' @ [CHR 0x0A])"

definition zephyr :: "chat \<Rightarrow> bool \<Rightarrow> string" where
  "zephyr chat add_ass =
     each (\<lambda>m. ''<|'' @ role m @ ''|>'' @ [CHR 0x0A] @ content m @ ''<|endoftext|>'' @
         [CHR 0x0A]) chat @ if_ass add_ass (''<|assistant|>'' @ [CHR 0x0A])"

definition monarch :: "chat \<Rightarrow> bool \<Rightarrow> string" where
  "monarch chat add_ass =
     concat (map (\<lambda>(p, m). (if p = fst (hd chat) then [] else ''<s>'') @ role m @ [CHR 0x0A] @
         content m @ ''</s>'' @ [CHR 0x0A]) chat) @
     if_ass add_ass (''<s>assistant'' @ [CHR 0x0A])"

definition gemma_message :: "string \<Rightarrow> llama_chat_message \<Rightarrow> string \<times> string" where
  "gemma_message system_prompt m =
     (if role m = ''system'' then (trim (content m), [])
      else let r = (if role m = ''assistant'' then ''model'' else role m);
               merged = (system_prompt \<noteq> [] \<and> r \<noteq> ''model'')
           in (if merged then [] else system_prompt,
               ''<start_of_turn>'' @ r @ [CHR 0x0A] @
               (if merged then system_prompt @ [CHR 0x0A, CHR 0x0A] else []) @
               trim (content m) @ ''<end_of_turn>'' @ [CHR 0x0A]))"

definition gemma :: "chat \<Rightarrow> bool \<Rightarrow> string" where
  "gemma chat add_ass = emit gemma_message [] chat @ if_ass add_ass (''<start_of_turn>model'' @ [CHR 0x0A])"

definition orion_message :: "string \<Rightarrow> llama_chat_message \<Rightarrow> string \<times> string" where
  "orion_message system_prompt m =
     (if role m = ''system'' then (content m, [])
      else if role m = ''user'' then
        ([], ''Human: '' @ (if system_prompt \<noteq> [] then system_prompt @
            [CHR 0x0A, CHR 0x0A] else []) @
             content m @ [CHR 0x0A, CHR 0x0A] @ ''Assistant: </s>'')
      else (system_prompt, content m @ ''</s>''))"

definition orion :: "chat \<Rightarrow> string" where
  "orion chat = emit orion_message [] chat"

text \<open>\<open>role[0]\<close> of an empty string is its terminator, which \<open>toupper\<close> leaves alone.\<close>

fun capitalize :: "string \<Rightarrow> string" where
  "capitalize [] = []"
| "capitalize (c # cs) = toupper c # cs"

definition openchat :: "chat \<Rightarrow> bool \<Rightarrow> string" where
  "openchat chat add_ass =
     each (\<lambda>m. if role m = ''system'' then content m @ ''<|end_of_turn|>''
                else ''GPT4 Correct '' @ capitalize (role m) @ '': '' @ content m @
                    ''<|end_of_turn|>'') chat @
     if_ass add_ass ''GPT4 Correct Assistant:''"

definition vicuna :: "llm_chat_template \<Rightarrow> chat \<Rightarrow> bool \<Rightarrow> string" where
  "vicuna tmpl chat add_ass =
     each (\<lambda>m. if role m = ''system'' then
                  (if tmpl = LLM_CHAT_TEMPLATE_VICUNA_ORCA
                   then ''SYSTEM: '' @ content m @ [CHR 0x0A] else content m @ [CHR 0x0A, CHR 0x0A])
                else if role m = ''user'' then ''USER: '' @ content m @ [CHR 0x0A]
                else if role m = ''assistant'' then ''ASSISTANT: '' @ content m @ ''</s>'' @ [CHR 0x0A]
                else []) chat @
     if_ass add_ass ''ASSISTANT:''"

definition deepseek :: "chat \<Rightarrow> bool \<Rightarrow> string" where
  "deepseek chat add_ass =
     each (\<lambda>m. if role m = ''system'' then content m
        else if role m = ''user'' then ''### Instruction:'' @ [CHR 0x0A] @ content m @ [CHR 0x0A]
        else if role m = ''assistant'' then ''### Response:'' @ [CHR 0x0A] @ content m @ [CHR 0x0A] @
            ''<|EOT|>'' @ [CHR 0x0A]
        else []) chat @ if_ass add_ass (''### Response:'' @ [CHR 0x0A])"

definition command_r :: "chat \<Rightarrow> bool \<Rightarrow> string" where
  "command_r chat add_ass =
     each (\<lambda>m. if role m = ''system'' then ''<|START_OF_TURN_TOKEN|><|SYSTEM_TOKEN|>'' @
         trim (content m) @ ''<|END_OF_TURN_TOKEN|>''
        else if role m = ''user'' then ''<|START_OF_TURN_TOKEN|><|USER_TOKEN|>'' @ trim (content m) @
            ''<|END_OF_TURN_TOKEN|>''
        else if role m = ''assistant'' then ''<|START_OF_TURN_TOKEN|><|CHATBOT_TOKEN|>'' @
            trim (content m) @ ''<|END_OF_TURN_TOKEN|>''
        else []) chat @ if_ass add_ass ''<|START_OF_TURN_TOKEN|><|CHATBOT_TOKEN|>''"

definition llama3 :: "chat \<Rightarrow> bool \<Rightarrow> string" where
  "llama3 chat add_ass =
     each (\<lambda>m. ''<|start_header_id|>'' @ role m @ ''<|end_header_id|>'' @
         [CHR 0x0A, CHR 0x0A] @ trim (content m) @ ''<|eot_id|>'') chat @
         if_ass add_ass (''<|start_header_id|>assistant<|end_header_id|>'' @ [CHR 0x0A, CHR 0x0A])"

definition chatglm3 :: "chat \<Rightarrow> bool \<Rightarrow> string" where
  "chatglm3 chat add_ass =
     ''[gMASK]sop'' @ each (\<lambda>m. ''<|'' @ role m @ ''|>'' @ [CHR 0x0A] @ '' '' @
         content m) chat @ if_ass add_ass ''<|assistant|>''"

definition chatglm4 :: "chat \<Rightarrow> bool \<Rightarrow> string" where
  "chatglm4 chat add_ass =
     ''[gMASK]<sop>'' @ each (\<lambda>m. ''<|'' @ role m @ ''|>'' @ [CHR 0x0A] @ content m) chat @
         if_ass add_ass ''<|assistant|>''"

definition glmedge :: "chat \<Rightarrow> bool \<Rightarrow> string" where
  "glmedge chat add_ass =
     each (\<lambda>m. ''<|'' @ role m @ ''|>'' @ [CHR 0x0A] @ content m) chat @
         if_ass add_ass ''<|assistant|>''"

definition minicpm :: "chat \<Rightarrow> string" where
  "minicpm chat =
     each (\<lambda>m. if role m = ''user'' then ''<'' @
         [CHR 0xE7, CHR 0x94, CHR 0xA8, CHR 0xE6, CHR 0x88, CHR 0xB7] @ ''>'' @ trim (content m) @ ''<AI>''
        else trim (content m)) chat"

definition deepseek2 :: "chat \<Rightarrow> bool \<Rightarrow> string" where
  "deepseek2 chat add_ass =
     each (\<lambda>m. if role m = ''system'' then content m @ [CHR 0x0A, CHR 0x0A]
        else if role m = ''user'' then ''User: '' @ content m @ [CHR 0x0A, CHR 0x0A]
        else if role m = ''assistant'' then ''Assistant: '' @ content m @ ''<'' @
            [CHR 0xEF, CHR 0xBD, CHR 0x9C] @ ''end'' @ [CHR 0xE2, CHR 0x96, CHR 0x81] @ ''of'' @
            [CHR 0xE2, CHR 0x96, CHR 0x81] @ ''sentence'' @ [CHR 0xEF, CHR 0xBD, CHR 0x9C] @ ''>''
        else []) chat @ if_ass add_ass ''Assistant:''"

definition deepseek3 :: "chat \<Rightarrow> bool \<Rightarrow> string" where
  "deepseek3 chat add_ass =
     each (\<lambda>m. if role m = ''system'' then content m @ [CHR 0x0A, CHR 0x0A]
        else if role m = ''user'' then ''<'' @ [CHR 0xEF, CHR 0xBD, CHR 0x9C] @ ''User'' @
            [CHR 0xEF, CHR 0xBD, CHR 0x9C] @ ''>'' @ content m
        else if role m = ''assistant'' then ''<'' @ [CHR 0xEF, CHR 0xBD, CHR 0x9C] @ ''Assistant'' @
            [CHR 0xEF, CHR 0xBD, CHR 0x9C] @ ''>'' @ content m @ ''<'' @
            [CHR 0xEF, CHR 0xBD, CHR 0x9C] @ ''end'' @ [CHR 0xE2, CHR 0x96, CHR 0x81] @ ''of'' @
            [CHR 0xE2, CHR 0x96, CHR 0x81] @ ''sentence'' @ [CHR 0xEF, CHR 0xBD, CHR 0x9C] @ ''>''
        else []) chat @ if_ass add_ass (''<'' @ [CHR 0xEF, CHR 0xBD, CHR 0x9C] @ ''Assistant'' @
            [CHR 0xEF, CHR 0xBD, CHR 0x9C] @ ''>'')"

definition exaone3 :: "chat \<Rightarrow> bool \<Rightarrow> string" where
  "exaone3 chat add_ass =
     each (\<lambda>m. if role m = ''system'' then ''[|system|]'' @ trim (content m) @
         ''[|endofturn|]'' @ [CHR 0x0A]
        else if role m = ''user'' then ''[|user|]'' @ trim (content m) @ [CHR 0x0A]
        else if role m = ''assistant'' then ''[|assistant|]'' @ trim (content m) @ ''[|endofturn|]'' @
            [CHR 0x0A]
        else []) chat @ if_ass add_ass ''[|assistant|]''"

definition rwkv_world :: "chat \<Rightarrow> string" where
  "rwkv_world chat =
     each (\<lambda>m. if role m = ''user'' then ''User: '' @ content m @ [CHR 0x0A, CHR 0x0A] @
         ''Assistant:''
        else content m @ [CHR 0x0A, CHR 0x0A]) chat"

definition granite :: "chat \<Rightarrow> bool \<Rightarrow> string" where
  "granite chat add_ass =
     each (\<lambda>m. ''<|start_of_role|>'' @ role m @ ''<|end_of_role|>'' @
                (if role m = ''assistant_tool_call'' then ''<|tool_call|>'' else []) @
                content m @ ''<|end_of_text|>'' @ [CHR 0x0A]) chat @
     if_ass add_ass (''<|start_of_role|>assistant<|end_of_role|>'' @ [CHR 0x0A])"

definition gigachat_message :: "llama_chat_message \<Rightarrow> string" where
  "gigachat_message m =
     (if role m = ''user'' then ''user<|role_sep|>'' @ content m @ ''<|message_sep|>'' @
        ''available functions<|role_sep|>[]<|message_sep|>''
      else if role m = ''assistant'' then ''assistant<|role_sep|>'' @ content m @ ''<|message_sep|>''
      else [])"

definition gigachat :: "chat \<Rightarrow> bool \<Rightarrow> string" where
  "gigachat chat add_ass =
     (let has_system = (chat \<noteq> [] \<and> role (snd (chat ! 0)) = ''system'')
      in (if has_system then ''<s>'' @ content (snd (chat ! 0)) @ ''<|message_sep|>'' else ''<s>'') @
         each gigachat_message (drop (if has_system then 1 else 0) chat) @
         if_ass add_ass ''assistant<|role_sep|>'')"

definition megrez :: "chat \<Rightarrow> bool \<Rightarrow> string" where
  "megrez chat add_ass =
     each (\<lambda>m. ''<|role_start|>'' @ role m @ ''<|role_end|>'' @ content m @
         ''<|turn_end|>'') chat @ if_ass add_ass ''<|role_start|>assistant<|role_end|>''"

definition template_text :: "llm_chat_template \<Rightarrow> chat \<Rightarrow> bool \<Rightarrow> string option" where
  "template_text tmpl chat add_ass =
    (case tmpl of
       LLM_CHAT_TEMPLATE_CHATML \<Rightarrow> Some (chatml chat add_ass)
     | LLM_CHAT_TEMPLATE_MISTRAL_V7 \<Rightarrow> Some (mistral_v7 chat)
     | LLM_CHAT_TEMPLATE_MISTRAL_V1 \<Rightarrow> Some (mistral tmpl chat)
     | LLM_CHAT_TEMPLATE_MISTRAL_V3 \<Rightarrow> Some (mistral tmpl chat)
     | LLM_CHAT_TEMPLATE_MISTRAL_V3_TEKKEN \<Rightarrow> Some (mistral tmpl chat)
     | LLM_CHAT_TEMPLATE_LLAMA_2 \<Rightarrow> Some (llama2 tmpl chat)
     | LLM_CHAT_TEMPLATE_LLAMA_2_SYS \<Rightarrow> Some (llama2 tmpl chat)
     | LLM_CHAT_TEMPLATE_LLAMA_2_SYS_BOS \<Rightarrow> Some (llama2 tmpl chat)
     | LLM_CHAT_TEMPLATE_LLAMA_2_SYS_STRIP \<Rightarrow> Some (llama2 tmpl chat)
     | LLM_CHAT_TEMPLATE_PHI_3 \<Rightarrow> Some (phi3 chat add_ass)
     | LLM_CHAT_TEMPLATE_PHI_4 \<Rightarrow> Some (phi4 chat add_ass)
     | LLM_CHAT_TEMPLATE_FALCON_3 \<Rightarrow> Some (falcon3 chat add_ass)
     | LLM_CHAT_TEMPLATE_ZEPHYR \<Rightarrow> Some (zephyr chat add_ass)
     | LLM_CHAT_TEMPLATE_MONARCH \<Rightarrow> Some (monarch chat add_ass)
     | LLM_CHAT_TEMPLATE_GEMMA \<Rightarrow> Some (gemma chat add_ass)
     | LLM_CHAT_TEMPLATE_ORION \<Rightarrow> Some (orion chat)
     | LLM_CHAT_TEMPLATE_OPENCHAT \<Rightarrow> Some (openchat chat add_ass)
     | LLM_CHAT_TEMPLATE_VICUNA \<Rightarrow> Some (vicuna tmpl chat add_ass)
     | LLM_CHAT_TEMPLATE_VICUNA_ORCA \<Rightarrow> Some (vicuna tmpl chat add_ass)
     | LLM_CHAT_TEMPLATE_DEEPSEEK \<Rightarrow> Some (deepseek chat add_ass)
     | LLM_CHAT_TEMPLATE_COMMAND_R \<Rightarrow> Some (command_r chat add_ass)
     | LLM_CHAT_TEMPLATE_LLAMA_3 \<Rightarrow> Some (llama3 chat add_ass)
     | LLM_CHAT_TEMPLATE_CHATGML_3 \<Rightarrow> Some (chatglm3 chat add_ass)
     | LLM_CHAT_TEMPLATE_CHATGML_4 \<Rightarrow> Some (chatglm4 chat add_ass)
     | LLM_CHAT_TEMPLATE_GLMEDGE \<Rightarrow> Some (glmedge chat add_ass)
     | LLM_CHAT_TEMPLATE_MINICPM \<Rightarrow> Some (minicpm chat)
     | LLM_CHAT_TEMPLATE_DEEPSEEK_2 \<Rightarrow> Some (deepseek2 chat add_ass)
     | LLM_CHAT_TEMPLATE_DEEPSEEK_3 \<Rightarrow> Some (deepseek3 chat add_ass)
     | LLM_CHAT_TEMPLATE_EXAONE_3 \<Rightarrow> Some (exaone3 chat add_ass)
     | LLM_CHAT_TEMPLATE_RWKV_WORLD \<Rightarrow> Some (rwkv_world chat)
     | LLM_CHAT_TEMPLATE_GRANITE \<Rightarrow> Some (granite chat add_ass)
     | LLM_CHAT_TEMPLATE_GIGACHAT \<Rightarrow> Some (gigachat chat add_ass)
     | LLM_CHAT_TEMPLATE_MEGREZ \<Rightarrow> Some (megrez chat add_ass)
     | LLM_CHAT_TEMPLATE_UNKNOWN \<Rightarrow> None)"

definition llm_chat_apply_template ::
  "llm_chat_template \<Rightarrow> chat \<Rightarrow> string \<Rightarrow> bool \<Rightarrow> int \<times> string" where
  "llm_chat_apply_template tmpl chat dest add_ass =
     (case template_text tmpl chat add_ass of
        None \<Rightarrow> (-1, dest)
      | Some ss \<Rightarrow> (to_i32 (length ss), ss))"

text \<open>The public interface. \<open>std::map\<close> iterates over its keys in increasing order; the caller
  gives an array of \<open>len\<close> entries.\<close>

definition llama_chat_builtin_templates :: "string list \<Rightarrow> nat \<Rightarrow> string list \<times> int" where
  "llama_chat_builtin_templates output len =
     (let names = sort (map fst LLM_CHAT_TEMPLATES);
          n = min len (length names)
      in (take n names @ drop n output, to_i32 (length names)))"

definition strncpy :: "string \<Rightarrow> string \<Rightarrow> nat \<Rightarrow> string" where
  "strncpy dst src n = take n (takeWhile (\<lambda>c. c \<noteq> CHR 0x00) src @ replicate n (CHR 0x00)) @ drop n dst"

definition chat_vec :: "llama_chat_message list \<Rightarrow> chat" where
  "chat_vec chat = zip [0..<length chat] chat"

definition llama_chat_apply_template ::
  "string option \<Rightarrow> llama_chat_message list \<Rightarrow> bool \<Rightarrow> string option \<Rightarrow> int \<Rightarrow> int \<times> string option" where
  "llama_chat_apply_template tmpl chat add_ass buf len =
     (let curr_tmpl = (case tmpl of None \<Rightarrow> ''chatml'' | Some t \<Rightarrow> t);
          detected_tmpl = llm_chat_detect_template curr_tmpl
      in if detected_tmpl = LLM_CHAT_TEMPLATE_UNKNOWN then (-1, buf)
         else let (res, formatted_chat) = llm_chat_apply_template detected_tmpl (chat_vec chat) [] add_ass
              in if res < 0 then (res, buf)
                 else (res, case buf of
                              None \<Rightarrow> None
                            | Some b \<Rightarrow> if len > 0 then Some (strncpy b formatted_chat (nat len)) else Some b))"

section \<open>Trimming\<close>

lemma trim_start_bounds: "start \<le> end' \<Longrightarrow> start \<le> trim_start str start end' \<and> trim_start str start end' \<le> end'"
  by (induction str start end' rule: trim_start.induct) (subst (1 2) trim_start.simps, auto)

lemma trim_start_dropWhile:
  "start \<le> length str \<Longrightarrow>
   drop (trim_start str start (length str)) str = dropWhile isspace (drop start str)"
proof (induction str start "length str" rule: trim_start.induct)
  case (1 str start)
  show ?case
  proof (cases "start < length str")
    case True
    then have "drop start str = str ! start # drop (Suc start) str" by (simp add: Cons_nth_drop_Suc)
    with 1 True show ?thesis by (subst trim_start.simps) auto
  next
    case False
    then show ?thesis by (subst trim_start.simps) simp
  qed
qed

lemma trim_end_dropWhile:
  "start \<le> end' \<Longrightarrow> end' \<le> length str \<Longrightarrow>
   take (trim_end str start end' - start) (drop start str) =
     rev (dropWhile isspace (rev (take (end' - start) (drop start str))))"
proof (induction str start end' rule: trim_end.induct)
  case (1 str start end')
  show ?case
  proof (cases "start < end'")
    case True
    then obtain k where k: "end' = Suc (start + k)" by (metis less_iff_Suc_add)
    then have "take (end' - start) (drop start str) =
        take (end' - 1 - start) (drop start str) @ [str ! (end' - 1)]"
      using 1(3) by (simp add: Suc_diff_le take_Suc_conv_app_nth)
    with 1 True show ?thesis by (subst trim_end.simps) auto
  next
    case False
    with 1(2) show ?thesis by (subst trim_end.simps) simp
  qed
qed

text \<open>\<open>trim\<close> removes the white space at both ends and nothing else.\<close>

lemma trim_eq: "trim str = rev (dropWhile isspace (rev (dropWhile isspace str)))"
proof -
  define start where "start = trim_start str 0 (length str)"
  have start: "start \<le> length str" using trim_start_bounds [of 0 "length str" str] by (simp add: start_def)
  have "drop start str = dropWhile isspace str"
    using trim_start_dropWhile [of 0 str] by (simp add: start_def)
  moreover have "trim str = rev (dropWhile isspace (rev (take (length str - start) (drop start str))))"
    using trim_end_dropWhile [OF start, of str] by (simp add: trim_def Let_def start_def)
  moreover have "take (length str - start) (drop start str) = drop start str" by simp
  ultimately show ?thesis by metis
qed

lemma set_trim: "set (trim str) \<subseteq> set str"
  unfolding trim_eq by (metis set_dropWhileD set_rev subsetI)

section \<open>The prompt grows with the chat\<close>

lemma each_append [simp]: "each f (a @ b) = each f a @ each f b"
  by (simp add: each_def)

lemma each_Nil [simp]: "each f [] = []"
  by (simp add: each_def)

lemma each_Cons [simp]: "each f (x # b) = f (snd x) @ each f b"
  by (simp add: each_def case_prod_unfold)

lemma if_ass_simps [simp]: "if_ass True s = s" "if_ass False s = []"
  by (simp_all add: if_ass_def)

lemma emit_append: "\<exists>s'. \<forall>b. emit f s (a @ b) = emit f s a @ emit f s' b"
proof (induction f s a rule: emit.induct)
  case (1 f s)
  show ?case by auto
next
  case (2 f s p m a)
  obtain s' out where "f s m = (s', out)" by fastforce
  with 2 show ?case by auto
qed

lemma prefix_emit [simp]: "prefix (emit f s a) (emit f s (a @ b))"
  using emit_append [of f s a] by auto

lemmas template_defs =
  chatml_def mistral_v7_def mistral_def llama2_def phi3_def phi4_def falcon3_def zephyr_def
  gemma_def orion_def openchat_def vicuna_def deepseek_def command_r_def llama3_def chatglm3_def
  chatglm4_def glmedge_def minicpm_def deepseek2_def deepseek3_def exaone3_def rwkv_world_def
  granite_def megrez_def

lemma prefix_gigachat: "prefix (gigachat a False) (gigachat (a @ b) False)"
proof (cases a)
  case Nil
  then show ?thesis by (simp add: gigachat_def Let_def prefix_def)
next
  case (Cons x xs)
  then show ?thesis by (simp add: gigachat_def Let_def)
qed

lemma prefix_monarch: "prefix (monarch a False) (monarch (a @ b) False)"
  by (cases a) (simp_all add: monarch_def)

lemma template_text_grows:
  assumes "template_text t a False = Some x"
  shows "\<exists>y. template_text t (a @ b) False = Some y \<and> prefix x y"
  using assms
  by (cases t) (auto simp: template_text_def prefix_gigachat prefix_monarch template_defs Let_def)

lemma chat_vec_snoc [simp]: "chat_vec (ms @ [m]) = chat_vec ms @ [(length ms, m)]"
  by (simp add: chat_vec_def)

lemma chat_vec_append: "\<exists>b. chat_vec (ms @ ns) = chat_vec ms @ b"
proof (induction ns rule: rev_induct)
  case Nil
  show ?case by simp
next
  case (snoc n ns)
  then obtain b where b: "chat_vec (ms @ ns) = chat_vec ms @ b" by blast
  have "chat_vec (ms @ ns @ [n]) = chat_vec (ms @ ns) @ [(length (ms @ ns), n)]"
    by (simp only: append_assoc [symmetric] chat_vec_snoc)
  with b show ?case by simp
qed

definition assistant :: "string \<Rightarrow> llama_chat_message" where
  "assistant c = \<lparr>role = ''assistant'', content = c\<rparr>"

text \<open>Some templates write the answer without the white space around it.\<close>

definition trims_answer :: "llm_chat_template \<Rightarrow> bool" where
  "trims_answer t \<longleftrightarrow> t \<in> {LLM_CHAT_TEMPLATE_MISTRAL_V3, LLM_CHAT_TEMPLATE_LLAMA_2_SYS_STRIP,
     LLM_CHAT_TEMPLATE_GEMMA, LLM_CHAT_TEMPLATE_COMMAND_R, LLM_CHAT_TEMPLATE_LLAMA_3,
     LLM_CHAT_TEMPLATE_MINICPM, LLM_CHAT_TEMPLATE_EXAONE_3}"

definition answer_text :: "llm_chat_template \<Rightarrow> string \<Rightarrow> string" where
  "answer_text t c = (if trims_answer t then trim c else c)"

lemma emit_snoc:
  assumes "\<And>s. \<exists>pre post. snd (f s m) = pre @ c @ post"
  shows "\<exists>pre post. emit f s (a @ [(p, m)]) = emit f s a @ pre @ c @ post"
proof -
  obtain s' where s': "\<And>b. emit f s (a @ b) = emit f s a @ emit f s' b"
    using emit_append [of f s a] by auto
  obtain pre post where "snd (f s' m) = pre @ c @ post" using assms by blast
  then have "emit f s' [(p, m)] = pre @ c @ post" by (simp add: case_prod_unfold Let_def)
  then show ?thesis using s' by auto
qed

lemma answer_mistral:
  "\<exists>pre post. emit (mistral_message ls ts tr) s (a @ [(p, assistant c)]) =
     emit (mistral_message ls ts tr) s a @ pre @ (if tr then trim c else c) @ post"
proof (rule emit_snoc)
  fix s
  have "snd (mistral_message ls ts tr s (assistant c)) =
    ((if \<not> s then ls @ ''[INST]'' @ ts else []) @ ts) @ (if tr then trim c else c) @ ''</s>''"
    by (simp add: mistral_message_def assistant_def)
  then show "\<exists>pre post. snd (mistral_message ls ts tr s (assistant c)) = pre @ (if tr then trim c else c) @ post"
    by blast
qed

lemma answer_llama2:
  "\<exists>pre post. emit (llama2_message sys bos st) s (a @ [(p, assistant c)]) =
     emit (llama2_message sys bos st) s a @ pre @ (if st then trim c else c) @ post"
proof (rule emit_snoc)
  fix s
  have "snd (llama2_message sys bos st s (assistant c)) =
    (if \<not> s then if bos then ''<s>[INST] '' else ''[INST] '' else []) @ (if st then trim c else c) @ ''</s>''"
    by (simp add: llama2_message_def assistant_def)
  then show "\<exists>pre post. snd (llama2_message sys bos st s (assistant c)) = pre @ (if st then trim c else c) @ post"
    by blast
qed

lemma answer_orion:
  "\<exists>pre post. emit orion_message s (a @ [(p, assistant c)]) = emit orion_message s a @ pre @ c @ post"
proof (rule emit_snoc)
  fix s
  have "snd (orion_message s (assistant c)) = [] @ c @ ''</s>''"
    by (simp add: orion_message_def assistant_def)
  then show "\<exists>pre post. snd (orion_message s (assistant c)) = pre @ c @ post" by blast
qed

lemma answer_gemma:
  "\<exists>pre post. emit gemma_message s (a @ [(p, assistant c)]) =
     emit gemma_message s a @ (''<start_of_turn>model'' @ [CHR 0x0A]) @ pre @ trim c @ post"
proof -
  obtain s' where s': "\<And>b. emit gemma_message s (a @ b) = emit gemma_message s a @ emit gemma_message s' b"
    using emit_append [of gemma_message s a] by auto
  have "emit gemma_message s' [(p, assistant c)] =
     (''<start_of_turn>model'' @ [CHR 0x0A]) @ [] @ trim c @ ''<end_of_turn>'' @ [CHR 0x0A]"
    by (simp add: gemma_message_def assistant_def)
  then show ?thesis using s' by metis
qed

lemma holds_here: "\<exists>pre post. c @ X = pre @ c @ post" "\<exists>pre post. c = pre @ c @ post"
  using append_Nil append_Nil2 by metis+

lemma holds_later: "\<exists>pre post. X = pre @ c @ post \<Longrightarrow> \<exists>pre post. x # X = pre @ c @ post"
  by (metis append_Cons)

lemmas text_defs = template_text_def template_defs Let_def

text \<open>The message of the assistant starts with the text that opens an answer, and holds the answer.\<close>

lemma assistant_simps [simp]: "role (assistant c) = ''assistant''" "content (assistant c) = c"
  by (simp_all add: assistant_def)

lemma answer_monarch:
  assumes "a \<noteq> []" and "p \<noteq> fst (hd a)"
  shows "\<exists>pre post. monarch (a @ [(p, assistant c)]) False = monarch a True @ pre @ c @ post"
  using assms by (simp add: monarch_def holds_here)

lemma answer_gigachat:
  assumes "a \<noteq> []"
  shows "\<exists>pre post. gigachat (a @ [(p, assistant c)]) False = gigachat a True @ pre @ c @ post"
  using assms by (cases a) (simp_all add: gigachat_def gigachat_message_def Let_def holds_here)

lemma capitalize_assistant: "capitalize ''assistant'' = ''Assistant''"
  by code_simp

lemma answer_follows_opening:
  assumes t: "t \<notin> {LLM_CHAT_TEMPLATE_UNKNOWN, LLM_CHAT_TEMPLATE_GRANITE}"
    and a: "a \<noteq> []" "p \<noteq> fst (hd a)"
  shows "\<exists>pre post. the (template_text t (a @ [(p, assistant c)]) False) =
    the (template_text t a True) @ pre @ answer_text t c @ post"
proof -
  note answers = answer_mistral [where tr = False, simplified] answer_mistral [where tr = True, simplified]
    answer_llama2 [where st = False, simplified] answer_llama2 [where st = True, simplified]
    answer_orion answer_gemma [simplified] answer_monarch answer_gigachat
  from t a show ?thesis
    by (cases t) (simp_all add: text_defs answer_text_def trims_answer_def holds_here holds_later
      answers capitalize_assistant del: capitalize.simps)
qed

section \<open>Correctness\<close>

text \<open>The prompt \<open>llm_chat_apply_template\<close> leaves in \<open>dest\<close>.\<close>

definition prompt :: "llm_chat_template \<Rightarrow> llama_chat_message list \<Rightarrow> bool \<Rightarrow> string" where
  "prompt t ms add_ass = snd (llm_chat_apply_template t (chat_vec ms) [] add_ass)"

lemma template_text_Some: "t \<noteq> LLM_CHAT_TEMPLATE_UNKNOWN \<Longrightarrow> template_text t a b = Some (the (template_text t a b))"
  by (cases t) (simp_all add: template_text_def)

lemma template_text_UNKNOWN [simp]: "template_text LLM_CHAT_TEMPLATE_UNKNOWN a b = None"
  by (simp add: template_text_def)

lemma apply_template_known:
  "t \<noteq> LLM_CHAT_TEMPLATE_UNKNOWN \<Longrightarrow>
   llm_chat_apply_template t a dest b = (to_i32 (length (the (template_text t a b))), the (template_text t a b))"
  by (cases "template_text t a b") (auto simp: llm_chat_apply_template_def dest: template_text_Some [of t a b])

lemma prompt_known: "t \<noteq> LLM_CHAT_TEMPLATE_UNKNOWN \<Longrightarrow> prompt t ms b = the (template_text t (chat_vec ms) b)"
  by (simp add: prompt_def apply_template_known)

lemma prompt_grows: "prefix (prompt t ms False) (prompt t (ms @ ns) False)"
proof (cases "t = LLM_CHAT_TEMPLATE_UNKNOWN")
  case True
  then show ?thesis by (simp add: prompt_def llm_chat_apply_template_def)
next
  case False
  obtain b where "chat_vec (ms @ ns) = chat_vec ms @ b" using chat_vec_append by blast
  then show ?thesis
    using template_text_grows [OF template_text_Some [OF False], of "chat_vec ms" b] False
    by (auto simp: prompt_known)
qed

text \<open>C20: For every template but Granite's, a prompt that ends with the text that opens an answer
  (\<open>add_ass\<close>) is a prefix of the prompt of the chat with the answer added, and the rest holds the
  answer, trimmed by the templates that trim; appending messages never changes what was already
  written. So a runner may generate after the first prompt, keep its cache, and continue the
  conversation with the second.\<close>

theorem answer_extends_prompt:
  assumes "t \<notin> {LLM_CHAT_TEMPLATE_UNKNOWN, LLM_CHAT_TEMPLATE_GRANITE}" and "ms \<noteq> []"
  shows "(\<exists>pre post. prompt t (ms @ [assistant c]) False = prompt t ms True @ pre @ answer_text t c @ post) \<and>
    prefix (prompt t ms False) (prompt t (ms @ ns) False)"
proof
  have "chat_vec ms \<noteq> []" "length ms \<noteq> fst (hd (chat_vec ms))"
    using assms(2) by (auto simp: chat_vec_def upt_conv_Cons neq_Nil_conv hd_zip)
  then show "\<exists>pre post. prompt t (ms @ [assistant c]) False = prompt t ms True @ pre @ answer_text t c @ post"
    using answer_follows_opening [OF assms(1)] assms(1) by (simp add: prompt_known)
  show "prefix (prompt t ms False) (prompt t (ms @ ns) False)" by (rule prompt_grows)
qed

theorem answer_extends_prompt_witness:
  "prefix (prompt LLM_CHAT_TEMPLATE_MONARCH [\<lparr>role = ''user'', content = ''hi''\<rparr>] False)
     (prompt LLM_CHAT_TEMPLATE_MONARCH ([\<lparr>role = ''user'', content = ''hi''\<rparr>] @ [assistant ''yo'']) False) \<and>
   prompt LLM_CHAT_TEMPLATE_MONARCH [\<lparr>role = ''user'', content = ''hi''\<rparr>] True =
     ''user'' @ [CHR 0x0A] @ ''hi</s>'' @ [CHR 0x0A] @ ''<s>assistant'' @ [CHR 0x0A]"
proof
  show "prefix (prompt LLM_CHAT_TEMPLATE_MONARCH [\<lparr>role = ''user'', content = ''hi''\<rparr>] False)
     (prompt LLM_CHAT_TEMPLATE_MONARCH ([\<lparr>role = ''user'', content = ''hi''\<rparr>] @ [assistant ''yo'']) False)"
    using answer_extends_prompt [of LLM_CHAT_TEMPLATE_MONARCH "[\<lparr>role = ''user'', content = ''hi''\<rparr>]" _
      "[assistant ''yo'']"] by simp
  show "prompt LLM_CHAT_TEMPLATE_MONARCH [\<lparr>role = ''user'', content = ''hi''\<rparr>] True =
     ''user'' @ [CHR 0x0A] @ ''hi</s>'' @ [CHR 0x0A] @ ''<s>assistant'' @ [CHR 0x0A]"
    by code_simp
qed

text \<open>C22: With Granite's template the prompt for an answer is not a prefix of the prompt with the
  answer added: it ends with a line break that the message itself does not have.\<close>

theorem granite_opening_differs:
  "prefix (prompt LLM_CHAT_TEMPLATE_GRANITE ms True)
     (prompt LLM_CHAT_TEMPLATE_GRANITE (ms @ [assistant c]) False) \<longleftrightarrow> prefix [CHR 0x0A] c"
  by (simp add: prompt_known template_text_def granite_def) (cases c; simp)

section \<open>The public interface\<close>

text \<open>A C string ends at its first NUL. No template writes one, so what \<open>strncpy\<close> copies is
  the whole prompt.\<close>

abbreviation NUL :: char where
  "NUL \<equiv> CHR 0x00"

definition no_nul :: "llama_chat_message \<Rightarrow> bool" where
  "no_nul m \<longleftrightarrow> NUL \<notin> set (role m) \<and> NUL \<notin> set (content m)"

lemma NUL_trim: "NUL \<notin> set s \<Longrightarrow> NUL \<notin> set (trim s)"
  using set_trim by blast

lemma NUL_each: "(\<And>m. no_nul m \<Longrightarrow> NUL \<notin> set (f m)) \<Longrightarrow> \<forall>(p, m) \<in> set a. no_nul m \<Longrightarrow> NUL \<notin> set (each f a)"
  by (auto simp: each_def)

lemma NUL_emit:
  assumes "\<And>s m. P s \<Longrightarrow> no_nul m \<Longrightarrow> P (fst (f s m)) \<and> NUL \<notin> set (snd (f s m))"
    and "P s" and "\<forall>(p, m) \<in> set a. no_nul m"
  shows "NUL \<notin> set (emit f s a)"
  using assms(2,3)
proof (induction a arbitrary: s)
  case Nil
  show ?case by simp
next
  case (Cons x a)
  obtain p m where x: "x = (p, m)" by fastforce
  have "P (fst (f s m)) \<and> NUL \<notin> set (snd (f s m))" using assms(1) Cons.prems x by auto
  with Cons x show ?case by (auto simp: case_prod_unfold Let_def)
qed

lemma NUL_mistral:
  assumes "\<forall>(p, m) \<in> set a. no_nul m" and "NUL \<notin> set ls" "NUL \<notin> set ts"
  shows "NUL \<notin> set (emit (mistral_message ls ts tr) s a)"
  by (rule NUL_emit [where P = "\<lambda>_. True"])
    (use assms in \<open>auto simp: mistral_message_def Let_def no_nul_def NUL_trim\<close>)

lemma NUL_llama2: "\<forall>(p, m) \<in> set a. no_nul m \<Longrightarrow> NUL \<notin> set (emit (llama2_message b1 b2 b3) s a)"
  by (rule NUL_emit [where P = "\<lambda>_. True"]) (auto simp: llama2_message_def Let_def no_nul_def NUL_trim)

lemma NUL_gemma: "\<forall>(p, m) \<in> set a. no_nul m \<Longrightarrow> NUL \<notin> set (emit gemma_message [] a)"
  by (rule NUL_emit [where P = "\<lambda>s. NUL \<notin> set s"]) (auto simp: gemma_message_def Let_def no_nul_def NUL_trim)

lemma NUL_orion: "\<forall>(p, m) \<in> set a. no_nul m \<Longrightarrow> NUL \<notin> set (emit orion_message [] a)"
  by (rule NUL_emit [where P = "\<lambda>s. NUL \<notin> set s"]) (auto simp: orion_message_def no_nul_def)

lemma NUL_capitalize: "NUL \<notin> set s \<Longrightarrow> NUL \<notin> set (capitalize s)"
proof (cases s)
  case (Cons c cs)
  assume "NUL \<notin> set s"
  then have "c \<noteq> NUL" using Cons by auto
  have "toupper c \<noteq> NUL"
  proof
    assume z: "toupper c = NUL"
    then have "toupper c \<noteq> c" using \<open>c \<noteq> NUL\<close> by simp
    then have c: "97 \<le> (of_char c :: nat)" "toupper c = char_of (of_char c - 32 :: nat)"
      by (auto simp: toupper_def split: if_splits)
    have "(of_char (toupper c) :: nat) = of_char c - 32"
      unfolding c(2) of_char_of using nat_of_char_less_256 [of c] by (intro mod_less) linarith
    then show False using c(1) z by simp
  qed
  then show ?thesis using Cons \<open>NUL \<notin> set s\<close> by auto
qed simp

lemma NUL_monarch: "\<forall>(p, m) \<in> set a. no_nul m \<Longrightarrow> NUL \<notin> set (monarch a b)"
  by (auto simp: monarch_def if_ass_def no_nul_def)

lemma NUL_gigachat: "\<forall>(p, m) \<in> set a. no_nul m \<Longrightarrow> NUL \<notin> set (gigachat a b)"
proof -
  assume a: "\<forall>(p, m) \<in> set a. no_nul m"
  have "NUL \<notin> set (each gigachat_message (drop n a))" for n
    by (rule NUL_each) (use a in \<open>auto simp: gigachat_message_def no_nul_def dest: in_set_dropD\<close>)
  moreover have "a \<noteq> [] \<Longrightarrow> NUL \<notin> set (content (snd (a ! 0)))"
    using a by (cases a) (auto simp: no_nul_def)
  ultimately show ?thesis by (auto simp: gigachat_def Let_def if_ass_def)
qed

lemma set_each: "set (each f a) = (\<Union>x \<in> set a. set (f (snd x)))"
  by (induction a) simp_all

lemma NUL_template_text:
  assumes "\<forall>(p, m) \<in> set a. no_nul m" and "template_text t a b = Some x"
  shows "NUL \<notin> set x"
proof -
  have n: "NUL \<notin> set (role m) \<and> NUL \<notin> set (content m)" if "(p, m) \<in> set a" for p m
    using assms(1) that by (auto simp: no_nul_def)
  note nul = NUL_mistral [OF assms(1)] NUL_llama2 [OF assms(1)] NUL_gemma [OF assms(1)] NUL_orion [OF assms(1)]
    NUL_monarch [OF assms(1)] NUL_gigachat [OF assms(1)]
  from assms(2) show ?thesis
    by (cases t) (auto simp: text_defs if_ass_def nul set_each NUL_trim NUL_capitalize dest!: n split: if_splits)
qed

lemma takeWhile_no_NUL: "NUL \<notin> set p \<Longrightarrow> takeWhile (\<lambda>c. c \<noteq> NUL) (p @ NUL # xs) = p"
  by (subst takeWhile_append2) auto

lemma strncpy_no_NUL: "NUL \<notin> set p \<Longrightarrow> strncpy b p n = take n (p @ replicate n NUL) @ drop n b"
proof -
  assume "NUL \<notin> set p"
  then have "takeWhile (\<lambda>c. c \<noteq> NUL) p = p" by (subst takeWhile_eq_all_conv) auto
  then show ?thesis by (simp only: strncpy_def)
qed

lemma strncpy_terminated:
  assumes "NUL \<notin> set p" and "length p < n"
  shows "takeWhile (\<lambda>c. c \<noteq> NUL) (strncpy b p n) = p"
proof -
  obtain k where "n - length p = Suc k" using assms(2) by (metis Suc_diff_Suc)
  then have "strncpy b p n = p @ NUL # (replicate k NUL @ drop n b)"
    using assms(2) by (simp add: strncpy_no_NUL [OF assms(1)])
  then show ?thesis using takeWhile_no_NUL [OF assms(1)] by simp
qed

lemma strncpy_length: "n \<le> length b \<Longrightarrow> length (strncpy b p n) = length b"
  by (simp add: strncpy_def)

lemma chat_vec_no_nul: "\<forall>m \<in> set ms. no_nul m \<Longrightarrow> \<forall>(p, m) \<in> set (chat_vec ms). no_nul m"
  by (auto simp: chat_vec_def dest: set_zip_rightD)

text \<open>C21: For a template the code recognises, messages that are C strings and a buffer of at least
  \<open>len\<close> bytes, \<open>llama_chat_apply_template\<close> returns the length of the prompt, writes at most \<open>len\<close>
  bytes, and leaves the NUL-terminated prompt in the buffer when the returned length is below
  \<open>len\<close>, the first \<open>len\<close> bytes of the prompt otherwise; the rest of the buffer is untouched. A
  template it does not recognise gives \<open>-1\<close> and leaves the buffer alone.\<close>

theorem apply_template_fills_buffer:
  fixes tmpl ms add_ass b len
  defines "r \<equiv> llama_chat_apply_template (Some tmpl) ms add_ass (Some b) len"
    and "t \<equiv> llm_chat_detect_template tmpl"
  assumes "\<forall>m \<in> set ms. no_nul m" and "length (prompt t ms add_ass) < 2147483648"
    and "0 < len" and "nat len \<le> length b"
  shows "if t = LLM_CHAT_TEMPLATE_UNKNOWN then r = (-1, Some b)
    else fst r = int (length (prompt t ms add_ass)) \<and>
      (\<exists>b'. snd r = Some b' \<and> length b' = length b \<and> drop (nat len) b' = drop (nat len) b \<and>
        (if fst r < len then takeWhile (\<lambda>c. c \<noteq> NUL) b' = prompt t ms add_ass
         else take (nat len) b' = take (nat len) (prompt t ms add_ass)))"
proof (cases "t = LLM_CHAT_TEMPLATE_UNKNOWN")
  case True
  then show ?thesis by (simp add: r_def t_def llama_chat_apply_template_def)
next
  case False
  define p where "p = prompt t ms add_ass"
  have p: "p = the (template_text t (chat_vec ms) add_ass)" by (simp add: p_def prompt_known [OF False])
  have nul: "NUL \<notin> set p"
    using NUL_template_text [OF chat_vec_no_nul [OF assms(3)] template_text_Some [OF False]] by (simp add: p)
  have small: "length p < 2147483648" using assms(4) by (simp only: p_def)
  have r: "r = (int (length p), Some (strncpy b p (nat len)))"
    using assms(5) small False
    by (simp add: r_def llama_chat_apply_template_def apply_template_known t_def [symmetric] p [symmetric])
  have "take (nat len) (strncpy b p (nat len)) = take (nat len) p" if "nat len \<le> length p"
    using that by (simp add: strncpy_no_NUL [OF nul])
  then have "if int (length p) < len then takeWhile (\<lambda>c. c \<noteq> NUL) (strncpy b p (nat len)) = p
      else take (nat len) (strncpy b p (nat len)) = take (nat len) p"
    using strncpy_terminated [OF nul, of "nat len" b] by auto
  moreover have "length (strncpy b p (nat len)) = length b" using assms(6) by (rule strncpy_length)
  moreover have "drop (nat len) (strncpy b p (nat len)) = drop (nat len) b" by (simp add: strncpy_def)
  ultimately show ?thesis unfolding if_not_P [OF False] p_def [symmetric] r by simp
qed

theorem apply_template_fills_buffer_witness:
  "fst (llama_chat_apply_template (Some ''phi4'') [\<lparr>role = ''user'', content = ''a''\<rparr>] False
     (Some (replicate 60 CHR 0x78)) 60) =
   int (length (prompt LLM_CHAT_TEMPLATE_PHI_4 [\<lparr>role = ''user'', content = ''a''\<rparr>] False))"
proof -
  have t: "llm_chat_detect_template ''phi4'' = LLM_CHAT_TEMPLATE_PHI_4" by code_simp
  have l: "length (prompt LLM_CHAT_TEMPLATE_PHI_4 [\<lparr>role = ''user'', content = ''a''\<rparr>] False) = 37" by code_simp
  show ?thesis
    using apply_template_fills_buffer [of "[\<lparr>role = ''user'', content = ''a''\<rparr>]" "''phi4''" False 60
      "replicate 60 CHR 0x78"] unfolding t l by (simp add: no_nul_def l)
qed

text \<open>Every name \<open>llama_chat_builtin_templates\<close> lists is recognised, and every template the
  formatter knows is listed under exactly one name.\<close>

lemma builtin_templates_resolve:
  "map llm_chat_detect_template (fst (llama_chat_builtin_templates [] 33)) =
     map (\<lambda>n. the (map_of LLM_CHAT_TEMPLATES n)) (sort (map fst LLM_CHAT_TEMPLATES)) \<and>
   distinct (map llm_chat_detect_template (fst (llama_chat_builtin_templates [] 33))) \<and>
   snd (llama_chat_builtin_templates [] 33) = 33"
  by code_simp

end
