(* ===== verification/Grammar.thy ===== *)
theory Grammar
  imports Unicode
begin

text \<open>
  The grammar-constrained sampler of \<open>llama-grammar.cpp\<close>: the pushdown automaton that follows a
  grammar, the filter for candidate tokens, the check for left recursion and the construction of a
  grammar state. The parser of the grammar notation is in the next theory.

  \<^item> A pointer \<open>&rules[r][i]\<close> is the pair \<open>(r, i)\<close>; \<open>at\<close> gives the elements from there to the end of
    the vector, so reading past the end is the empty list. A stack is the list of its pointers with
    \<open>stack.back()\<close> first.
  \<^item> \<open>llama_grammar_advance_stack\<close> and the search for left recursion call themselves without a
    bound in the source. Here the first argument bounds the depth of those calls; \<open>None\<close> means it was
    too small, \<open>Some (Inl e)\<close> is a fault and \<open>Some (Inr x)\<close> a result.
  \<^item> The vocabulary is a parameter: the functions \<open>token_to_piece\<close> and \<open>is_eog\<close>.
\<close>

section \<open>Elements, rules and stacks\<close>

datatype llama_gretype =
    LLAMA_GRETYPE_END
  | LLAMA_GRETYPE_ALT
  | LLAMA_GRETYPE_RULE_REF
  | LLAMA_GRETYPE_CHAR
  | LLAMA_GRETYPE_CHAR_NOT
  | LLAMA_GRETYPE_CHAR_RNG_UPPER
  | LLAMA_GRETYPE_CHAR_ALT
  | LLAMA_GRETYPE_CHAR_ANY

datatype llama_grammar_element = Elem (gtype: llama_gretype) (gvalue: nat)

record llama_partial_utf8 =
  pvalue :: nat
  n_remain :: int

type_synonym grule = "llama_grammar_element list"
type_synonym grules = "grule list"
type_synonym gpos = "nat \<times> nat"
type_synonym gstack = "gpos list"

definition at :: "grules \<Rightarrow> gpos \<Rightarrow> grule" where
  "at rules p = (if fst p < length rules then drop (snd p) (rules ! fst p) else [])"

abbreviation shift :: "gpos \<Rightarrow> nat \<Rightarrow> gpos" where
  "shift p k \<equiv> (fst p, snd p + k)"

definition llama_grammar_is_end_of_sequence :: "llama_grammar_element \<Rightarrow> bool" where
  "llama_grammar_is_end_of_sequence e \<longleftrightarrow> gtype e \<in> {LLAMA_GRETYPE_END, LLAMA_GRETYPE_ALT}"

section \<open>Matching a character\<close>

text \<open>The loop of \<open>llama_grammar_match_char\<close>: whether one of the alternatives matched, and how many
  elements it went past.\<close>

fun match_loop :: "grule \<Rightarrow> nat \<Rightarrow> bool \<Rightarrow> nat \<Rightarrow> (bool \<times> nat) res" where
  "match_loop (e # e1 # els) chr found k =
     (if gtype e1 = LLAMA_GRETYPE_CHAR_RNG_UPPER then
        let found' = (found \<or> gvalue e \<le> chr \<and> chr \<le> gvalue e1)
        in case els of
             [] \<Rightarrow> Inl OutOfBounds
           | e' # _ \<Rightarrow> if gtype e' = LLAMA_GRETYPE_CHAR_ALT then match_loop els chr found' (k + 2)
                       else Inr (found', k + 2)
      else
        let found' = (if gtype e = LLAMA_GRETYPE_CHAR_ANY then True else found \<or> gvalue e = chr)
        in if gtype e1 = LLAMA_GRETYPE_CHAR_ALT then match_loop (e1 # els) chr found' (k + 1)
           else Inr (found', k + 1))"
| "match_loop _ chr found k = Inl OutOfBounds"

definition is_positive_char :: "llama_grammar_element \<Rightarrow> bool" where
  "is_positive_char e \<longleftrightarrow> gtype e = LLAMA_GRETYPE_CHAR \<or> gtype e = LLAMA_GRETYPE_CHAR_ANY"

definition llama_grammar_match_char :: "grule \<Rightarrow> nat \<Rightarrow> (bool \<times> nat) res" where
  "llama_grammar_match_char els chr =
     (case els of
        [] \<Rightarrow> Inl OutOfBounds
      | e # _ \<Rightarrow>
          rbind (rguard (is_positive_char e \<or> gtype e = LLAMA_GRETYPE_CHAR_NOT) GgmlAssert) (\<lambda>_.
          rbind (match_loop els chr False 0) (\<lambda>(found, k).
          Inr (found = is_positive_char e, k))))"

fun match_partial_loop :: "grule \<Rightarrow> nat \<Rightarrow> nat \<Rightarrow> bool \<Rightarrow> bool res" where
  "match_partial_loop (e # e1 # els) low high is_positive =
     (if gtype e1 = LLAMA_GRETYPE_CHAR_RNG_UPPER then
        if gvalue e \<le> high \<and> low \<le> gvalue e1 then Inr is_positive
        else (case els of
                [] \<Rightarrow> Inl OutOfBounds
              | e' # _ \<Rightarrow> if gtype e' = LLAMA_GRETYPE_CHAR_ALT then match_partial_loop els low high is_positive
                          else Inr (\<not> is_positive))
      else if gtype e = LLAMA_GRETYPE_CHAR_ANY then Inr True
      else if low \<le> gvalue e \<and> gvalue e \<le> high then Inr is_positive
      else if gtype e1 = LLAMA_GRETYPE_CHAR_ALT then match_partial_loop (e1 # els) low high is_positive
      else Inr (\<not> is_positive))"
| "match_partial_loop _ low high is_positive = Inl OutOfBounds"

text \<open>The code points a partial sequence can still become; shifts are those of \<open>uint32_t\<close>.\<close>

definition partial_range :: "llama_partial_utf8 \<Rightarrow> nat \<times> nat" where
  "partial_range p =
     (let n = nat (n_remain p);
          low = (pvalue p * 2 ^ (n * 6)) mod 2 ^ 32;
          high = or low (2 ^ (n * 6) - 1)
      in (if low = 0 then (if n = 2 then 2 ^ 11 else if n = 3 then 2 ^ 16 else low) else low, high))"

definition llama_grammar_match_partial_char :: "grule \<Rightarrow> llama_partial_utf8 \<Rightarrow> bool res" where
  "llama_grammar_match_partial_char els p =
     (case els of
        [] \<Rightarrow> Inl OutOfBounds
      | e # _ \<Rightarrow>
          rbind (rguard (is_positive_char e \<or> gtype e = LLAMA_GRETYPE_CHAR_NOT) GgmlAssert) (\<lambda>_.
          if n_remain p < 0 \<or> n_remain p = 1 \<and> pvalue p < 2 then Inr False
          else let (low, high) = partial_range p
               in match_partial_loop els low high (is_positive_char e)))"

section \<open>The pushdown automaton\<close>

text \<open>The values \<open>subpos\<close> takes in the loop over the alternates of a rule.\<close>

function alternates :: "nat \<Rightarrow> grule \<Rightarrow> nat list res" where
  "alternates j els =
     (case dropWhile (\<lambda>e. \<not> llama_grammar_is_end_of_sequence e) els of
        [] \<Rightarrow> Inl OutOfBounds
      | e # els' \<Rightarrow>
          if gtype e = LLAMA_GRETYPE_ALT
          then rbind (alternates (j + (length els - length els')) els') (\<lambda>js. Inr (j # js))
          else Inr [j])"
  by auto
termination
proof (relation "measure (\<lambda>(j, els). length els)")
  fix j els x21 x22
  assume "dropWhile (\<lambda>e. \<not> llama_grammar_is_end_of_sequence e) els = x21 # x22"
  then have "length (x21 # x22) \<le> length els" by (metis length_dropWhile_le)
  then show "((j + (length els - length x22), x22), (j, els)) \<in> measure (\<lambda>(j, els). length els)" by simp
qed simp

declare alternates.simps [simp del]

text \<open>Push a position unless it is the end of its alternate.\<close>

definition push :: "grules \<Rightarrow> gpos \<Rightarrow> gstack \<Rightarrow> gstack res" where
  "push rules p st =
     (case at rules p of
        [] \<Rightarrow> Inl OutOfBounds
      | e # _ \<Rightarrow> Inr (if llama_grammar_is_end_of_sequence e then st else p # st))"

definition add_stack :: "gstack \<Rightarrow> gstack list \<Rightarrow> gstack list" where
  "add_stack st new_stacks = (if st \<in> set new_stacks then new_stacks else new_stacks @ [st])"

primrec llama_grammar_advance_stack :: "nat \<Rightarrow> grules \<Rightarrow> gstack \<Rightarrow> gstack list \<Rightarrow> gstack list run" where
  "llama_grammar_advance_stack 0 rules stack new_stacks = None"
| "llama_grammar_advance_stack (Suc n) rules stack new_stacks =
     (case stack of
        [] \<Rightarrow> ret (add_stack [] new_stacks)
      | pos # rest \<Rightarrow>
          (case at rules pos of
             [] \<Rightarrow> fail OutOfBounds
           | e # _ \<Rightarrow>
               if gtype e = LLAMA_GRETYPE_RULE_REF then
                 if length rules \<le> gvalue e then fail OutOfBounds
                 else run_bind (Some (alternates 0 (rules ! gvalue e))) (\<lambda>js.
                        run_fold (\<lambda>j new_stacks.
                          run_bind (Some (push rules (shift pos 1) rest)) (\<lambda>st.
                          run_bind (Some (push rules (gvalue e, j) st)) (\<lambda>st'.
                          llama_grammar_advance_stack n rules st' new_stacks))) js new_stacks)
               else if gtype e \<in> {LLAMA_GRETYPE_CHAR, LLAMA_GRETYPE_CHAR_NOT, LLAMA_GRETYPE_CHAR_ANY}
               then ret (add_stack stack new_stacks)
               else fail GgmlAbort))"

section \<open>The state of a grammar\<close>

record llama_grammar =
  rules :: grules
  stacks :: "gstack list"
  partial_utf8 :: llama_partial_utf8
  lazy :: bool
  awaiting_trigger :: bool
  trigger_buffer :: "nat list"
  trigger_tokens :: "int list"
  trigger_words :: "nat list list"

definition accept_stack :: "nat \<Rightarrow> grules \<Rightarrow> nat \<Rightarrow> gstack \<Rightarrow> gstack list \<Rightarrow> gstack list run" where
  "accept_stack n rs chr stack stacks_new =
     (case stack of
        [] \<Rightarrow> ret stacks_new
      | pos # rest \<Rightarrow>
          run_bind (Some (llama_grammar_match_char (at rs pos) chr)) (\<lambda>(matched, k).
          if matched then
            run_bind (Some (push rs (shift pos k) rest)) (\<lambda>new_stack.
            llama_grammar_advance_stack n rs new_stack stacks_new)
          else ret stacks_new))"

definition llama_grammar_accept :: "nat \<Rightarrow> llama_grammar \<Rightarrow> nat \<Rightarrow> llama_grammar run" where
  "llama_grammar_accept n g chr =
     run_bind (run_fold (accept_stack n (rules g) chr) (stacks g) []) (\<lambda>stacks_new.
     ret (g\<lparr>stacks := stacks_new\<rparr>))"

section \<open>Filtering candidates\<close>

text \<open>\<open>code_points\<close> points into the decoded token, which ends with a zero: the array and an offset.\<close>

record llama_grammar_candidate =
  index :: nat
  code_points :: "nat list"
  off :: nat
  partial :: llama_partial_utf8

definition current :: "llama_grammar_candidate \<Rightarrow> nat res" where
  "current tok = rnth (code_points tok) (off tok)"

definition forward :: "llama_grammar_candidate \<Rightarrow> llama_grammar_candidate" where
  "forward tok = tok\<lparr>off := off tok + 1\<rparr>"

definition backward :: "llama_grammar_candidate \<Rightarrow> llama_grammar_candidate" where
  "backward tok = tok\<lparr>off := off tok - 1\<rparr>"

text \<open>A stack that is used up takes only the end of a token.\<close>

fun reject_empty :: "llama_grammar_candidate list \<Rightarrow> llama_grammar_candidate list res" where
  "reject_empty [] = Inr []"
| "reject_empty (tok # toks) =
     rbind (current tok) (\<lambda>c. rbind (reject_empty toks) (\<lambda>rejects.
     Inr (if c \<noteq> 0 \<or> n_remain (partial tok) \<noteq> 0 then tok # rejects else rejects)))"

text \<open>The candidates the next position rejects and those it lets through.\<close>

fun classify :: "grule \<Rightarrow> llama_grammar_candidate list
    \<Rightarrow> (llama_grammar_candidate list \<times> llama_grammar_candidate list) res" where
  "classify els [] = Inr ([], [])"
| "classify els (tok # toks) =
     rbind (current tok) (\<lambda>c.
     if c = 0 then
       rbind (if n_remain (partial tok) \<noteq> 0
              then rbind (llama_grammar_match_partial_char els (partial tok)) (\<lambda>b. Inr (\<not> b))
              else Inr False) (\<lambda>reject.
       rbind (classify els toks) (\<lambda>(rejects, next_candidates).
       Inr (if reject then tok # rejects else rejects, next_candidates)))
     else
       rbind (llama_grammar_match_char els c) (\<lambda>(matched, _).
       rbind (classify els toks) (\<lambda>(rejects, next_candidates).
       Inr (if matched then (rejects, forward tok # next_candidates)
            else (tok # rejects, next_candidates)))))"

definition reject_stacks ::
  "(gstack \<Rightarrow> llama_grammar_candidate list \<Rightarrow> llama_grammar_candidate list run) \<Rightarrow>
   gstack list \<Rightarrow> llama_grammar_candidate list \<Rightarrow> llama_grammar_candidate list run" where
  "reject_stacks f sts candidates =
     (case sts of
        [] \<Rightarrow> fail GgmlAssert
      | st # sts' \<Rightarrow> if candidates = [] then ret []
                    else run_bind (f st candidates) (run_fold f sts'))"

primrec llama_grammar_reject_candidates_for_stack ::
  "nat \<Rightarrow> nat \<Rightarrow> grules \<Rightarrow> gstack \<Rightarrow> llama_grammar_candidate list \<Rightarrow> llama_grammar_candidate list run" where
  "llama_grammar_reject_candidates_for_stack 0 n rs stack candidates = None"
| "llama_grammar_reject_candidates_for_stack (Suc d) n rs stack candidates =
     (case stack of
        [] \<Rightarrow> Some (reject_empty candidates)
      | stack_pos # rest \<Rightarrow>
          run_bind (Some (classify (at rs stack_pos) candidates)) (\<lambda>(rejects, next_candidates).
          run_bind (Some (llama_grammar_match_char (at rs stack_pos) 0)) (\<lambda>(_, k).
          run_bind (Some (push rs (shift stack_pos k) rest)) (\<lambda>stack_after.
          run_bind (llama_grammar_advance_stack n rs stack_after []) (\<lambda>next_stacks.
          run_bind (reject_stacks (llama_grammar_reject_candidates_for_stack d n rs)
                      next_stacks next_candidates) (\<lambda>next_rejects.
          ret (rejects @ map backward next_rejects)))))))"

definition llama_grammar_reject_candidates ::
  "nat \<Rightarrow> nat \<Rightarrow> grules \<Rightarrow> gstack list \<Rightarrow> llama_grammar_candidate list \<Rightarrow> llama_grammar_candidate list run" where
  "llama_grammar_reject_candidates d n rs = reject_stacks (llama_grammar_reject_candidates_for_stack d n rs)"

section \<open>Left recursion\<close>

record recursion_flags =
  rules_visited :: "bool list"
  rules_in_progress :: "bool list"
  rules_may_be_empty :: "bool list"

text \<open>Does a rule have an alternate without elements?\<close>

fun has_empty_alternate :: "bool \<Rightarrow> grule \<Rightarrow> bool" where
  "has_empty_alternate at_rule_start [] = False"
| "has_empty_alternate at_rule_start (e # els) =
     (if llama_grammar_is_end_of_sequence e
      then at_rule_start \<or> has_empty_alternate True els
      else has_empty_alternate False els)"

fun leftmost_loop :: "(nat \<Rightarrow> recursion_flags \<Rightarrow> (bool \<times> recursion_flags) run) \<Rightarrow>
    grule \<Rightarrow> bool \<Rightarrow> recursion_flags \<Rightarrow> (bool \<times> recursion_flags) run" where
  "leftmost_loop detect [] recurse fl = ret (False, fl)"
| "leftmost_loop detect (e # els) recurse fl =
     (if gtype e = LLAMA_GRETYPE_RULE_REF \<and> recurse then
        run_bind (detect (gvalue e) fl) (\<lambda>(found, fl').
        if found then ret (True, fl')
        else run_bind (Some (rnth (rules_may_be_empty fl') (gvalue e))) (\<lambda>may_be_empty.
             leftmost_loop detect els may_be_empty fl'))
      else leftmost_loop detect els (llama_grammar_is_end_of_sequence e) fl)"

primrec llama_grammar_detect_left_recursion ::
  "nat \<Rightarrow> grules \<Rightarrow> nat \<Rightarrow> recursion_flags \<Rightarrow> (bool \<times> recursion_flags) run" where
  "llama_grammar_detect_left_recursion 0 rs rule_index fl = None"
| "llama_grammar_detect_left_recursion (Suc n) rs rule_index fl =
     run_bind (Some (rnth (rules_in_progress fl) rule_index)) (\<lambda>in_progress.
     if in_progress then ret (True, fl)
     else
       run_bind (Some (rnth rs rule_index)) (\<lambda>rule.
       run_bind (if has_empty_alternate True rule
                 then Some (rupd (rules_may_be_empty fl) rule_index True)
                 else ret (rules_may_be_empty fl)) (\<lambda>may_be_empty.
       run_bind (leftmost_loop (llama_grammar_detect_left_recursion n rs) rule True
                   (fl\<lparr>rules_in_progress := (rules_in_progress fl)[rule_index := True],
                       rules_may_be_empty := may_be_empty\<rparr>)) (\<lambda>(found, fl').
       if found then ret (True, fl')
       else run_bind (Some (rupd (rules_visited fl') rule_index True)) (\<lambda>visited.
            ret (False, fl'\<lparr>rules_in_progress := (rules_in_progress fl')[rule_index := False],
                            rules_visited := visited\<rparr>))))))"

text \<open>The loop of \<open>llama_grammar_init_impl\<close> over all rules: does one of them recurse on its left?\<close>

fun check_rules :: "nat \<Rightarrow> grules \<Rightarrow> nat list \<Rightarrow> recursion_flags \<Rightarrow> bool run" where
  "check_rules n rs [] fl = ret False"
| "check_rules n rs (i # is) fl =
     run_bind (Some (rnth (rules_visited fl) i)) (\<lambda>visited.
     if visited then check_rules n rs is fl
     else run_bind (llama_grammar_detect_left_recursion n rs i fl) (\<lambda>(found, fl').
          if found then ret True else check_rules n rs is fl'))"

definition no_flags :: "nat \<Rightarrow> recursion_flags" where
  "no_flags n = \<lparr>rules_visited = replicate n False, rules_in_progress = replicate n False,
                 rules_may_be_empty = replicate n False\<rparr>"

section \<open>Construction\<close>

text \<open>Rules are copied up to their first \<open>LLAMA_GRETYPE_END\<close>.\<close>

definition copy_rule :: "grule \<Rightarrow> grule res" where
  "copy_rule rule =
     (let els = takeWhile (\<lambda>e. gtype e \<noteq> LLAMA_GRETYPE_END) rule
      in if length els < length rule then Inr (els @ [Elem LLAMA_GRETYPE_END 0]) else Inl OutOfBounds)"

fun copy_rules :: "grules \<Rightarrow> grules res" where
  "copy_rules [] = Inr []"
| "copy_rules (r # rs) = rbind (copy_rule r) (\<lambda>r'. rbind (copy_rules rs) (\<lambda>rs'. Inr (r' # rs')))"

definition initial_stacks :: "nat \<Rightarrow> grules \<Rightarrow> nat \<Rightarrow> gstack list run" where
  "initial_stacks n vec_rules start =
     run_bind (Some (rnth vec_rules start)) (\<lambda>rule.
     run_bind (Some (alternates 0 rule)) (\<lambda>js.
     run_fold (\<lambda>j sts.
       run_bind (Some (push vec_rules (start, j) [])) (\<lambda>stack.
       llama_grammar_advance_stack n vec_rules stack sts)) js []))"

text \<open>\<open>None\<close> is the null pointer the code returns for a left-recursive grammar.\<close>

definition llama_grammar_init_impl ::
  "nat \<Rightarrow> grules \<Rightarrow> nat \<Rightarrow> bool \<Rightarrow> nat list list \<Rightarrow> int list \<Rightarrow> llama_grammar option run" where
  "llama_grammar_init_impl n grammar_rules start lz words tokens =
     run_bind (Some (copy_rules grammar_rules)) (\<lambda>vec_rules.
     run_bind (check_rules n vec_rules [0..<length vec_rules] (no_flags (length vec_rules))) (\<lambda>recursive.
     if recursive then ret None
     else run_bind (initial_stacks n vec_rules start) (\<lambda>sts.
          ret (Some \<lparr>rules = vec_rules, stacks = sts, partial_utf8 = \<lparr>pvalue = 0, n_remain = 0\<rparr>,
                     lazy = lz, awaiting_trigger = lz, trigger_buffer = [],
                     trigger_tokens = tokens, trigger_words = words\<rparr>))))"

section \<open>Cloning\<close>

text \<open>The stacks of a clone are copied first, so they point into the rules of the original; then every
  pointer that is found there is redirected. A pointer here carries whose rules it points into.\<close>

datatype owner = Original | Clone

definition redirect :: "grules \<Rightarrow> owner \<times> gpos \<Rightarrow> owner \<times> gpos" where
  "redirect rs p =
     fold (\<lambda>ir0. fold (\<lambda>ir1 q. if p = (Original, ir0, ir1) then (Clone, ir0, ir1) else q) [0..<length (rs ! ir0)])
       [0..<length rs] p"

text \<open>The fields of the clone, and its stacks with the owners of their pointers.\<close>

definition llama_grammar_clone_impl :: "llama_grammar \<Rightarrow> llama_grammar \<times> (owner \<times> gpos) list list" where
  "llama_grammar_clone_impl g =
     (let sts = map (map (\<lambda>p. redirect (rules g) (Original, p))) (stacks g)
      in (\<lparr>rules = rules g, stacks = map (map snd) sts, partial_utf8 = partial_utf8 g, lazy = lazy g,
           awaiting_trigger = awaiting_trigger g, trigger_buffer = trigger_buffer g,
           trigger_tokens = trigger_tokens g, trigger_words = trigger_words g\<rparr>, sts))"

section \<open>Decoding a token\<close>

fun decode_continue :: "nat list \<Rightarrow> nat \<Rightarrow> int \<Rightarrow> (nat \<times> int \<times> nat list) option" where
  "decode_continue [] v n = Some (v, n, [])"
| "decode_continue (b # bs) v n =
     (if n > 0
      then if b div 64 \<noteq> 2 then None
           else decode_continue bs ((v * 64 + b mod 64) mod 2 ^ 32) (n - 1)
      else Some (v, n, b # bs))"

fun decode_more :: "nat list \<Rightarrow> nat \<Rightarrow> int \<Rightarrow> nat \<times> int \<times> nat list" where
  "decode_more [] v n = (v, n, [])"
| "decode_more (b # bs) v n =
     (if n > 0 then decode_more bs ((v * 64 + b mod 64) mod 2 ^ 32) (n - 1) else (v, n, b # bs))"

lemma decode_more_length: "decode_more bs v n = (v', n', rest) \<Longrightarrow> length rest \<le> length bs"
  by (induction bs v n rule: decode_more.induct) (auto split: if_splits)

definition decode_lookup :: "int list" where
  "decode_lookup = [1, 1, 1, 1, 1, 1, 1, 1, 0, 0, 0, 0, 2, 2, 3, 4]"

function decode_sequences ::
  "nat list \<Rightarrow> nat \<Rightarrow> int \<Rightarrow> nat list \<Rightarrow> nat list \<times> llama_partial_utf8" where
  "decode_sequences [] v n cps = (cps @ [0], \<lparr>pvalue = v, n_remain = n\<rparr>)"
| "decode_sequences (b # bs) v n cps =
     (let n0 = decode_lookup ! (b div 16) - 1
      in if n0 < 0 then ([0], \<lparr>pvalue = 0, n_remain = n0\<rparr>)
         else let (v', n', rest) = decode_more bs (b mod 2 ^ nat (7 - n0)) n0
              in decode_sequences rest v' n' (if n' = 0 then cps @ [v'] else cps))"
  by pat_completeness auto
termination by (relation "measure (\<lambda>(bs, _). length bs)")
  (auto dest!: decode_more_length [OF sym])

definition decode_utf8 :: "nat list \<Rightarrow> llama_partial_utf8 \<Rightarrow> nat list \<times> llama_partial_utf8" where
  "decode_utf8 src partial_start =
     (case decode_continue (takeWhile (\<lambda>b. b \<noteq> 0) src) (pvalue partial_start) (n_remain partial_start) of
        None \<Rightarrow> ([0], \<lparr>pvalue = 0, n_remain = -1\<rparr>)
      | Some (v, n, rest) \<Rightarrow>
          decode_sequences rest v n (if n_remain partial_start > 0 \<and> n = 0 then [v] else []))"

section \<open>Tokens\<close>

record vocab =
  token_to_piece :: "int \<Rightarrow> nat list"
  is_eog :: "int \<Rightarrow> bool"

definition llama_grammar_accept_str :: "nat \<Rightarrow> llama_grammar \<Rightarrow> nat list \<Rightarrow> llama_grammar run" where
  "llama_grammar_accept_str n g piece =
     (let (cps, p) = decode_utf8 piece (partial_utf8 g)
      in run_bind (run_fold (\<lambda>chr g. llama_grammar_accept n g chr) (butlast cps) g) (\<lambda>g'.
         if stacks g' = [] then fail (Thrown ''Unexpected empty grammar stack after accepting piece'')
         else ret (g'\<lparr>partial_utf8 := p\<rparr>)))"

text \<open>The first trigger word that occurs in the buffered output.\<close>

fun find_trigger :: "nat list \<Rightarrow> nat list list \<Rightarrow> nat option" where
  "find_trigger buf [] = None"
| "find_trigger buf (w # ws) = (case str_find buf w of Some pos \<Rightarrow> Some pos | None \<Rightarrow> find_trigger buf ws)"

definition llama_grammar_accept_impl :: "nat \<Rightarrow> vocab \<Rightarrow> llama_grammar \<Rightarrow> int \<Rightarrow> llama_grammar run" where
  "llama_grammar_accept_impl n vc g token =
     (let piece = token_to_piece vc token
      in if awaiting_trigger g then
           if token \<in> set (trigger_tokens g)
           then llama_grammar_accept_str n (g\<lparr>awaiting_trigger := False, trigger_buffer := []\<rparr>) piece
           else
             let buf = trigger_buffer g @ piece
             in case find_trigger buf (trigger_words g) of
                  Some pos \<Rightarrow> llama_grammar_accept_str n
                                (g\<lparr>awaiting_trigger := False, trigger_buffer := []\<rparr>) (drop pos buf)
                | None \<Rightarrow> ret (g\<lparr>trigger_buffer := buf\<rparr>)
         else if is_eog vc token then
           (if [] \<in> set (stacks g) then ret g else fail GgmlAbort)
         else llama_grammar_accept_str n g piece)"

text \<open>One pass of the loop over the candidates: an end-of-generation token, a token without text, or
  a token the grammar has to judge. A token is its identifier and its logit.\<close>

definition apply_token :: "vocab \<Rightarrow> llama_grammar \<Rightarrow> 'f \<Rightarrow> nat \<Rightarrow> int \<times> 'f
    \<Rightarrow> (int \<times> 'f) \<times> llama_grammar_candidate list" where
  "apply_token vc g neg_inf i = (\<lambda>(id, logit).
     let piece = token_to_piece vc id
     in if is_eog vc id
        then ((id, if [] \<in> set (stacks g) then logit else neg_inf), [])
        else if piece = [] \<or> hd piece = 0 then ((id, neg_inf), [])
        else let (cps, p) = decode_utf8 piece (partial_utf8 g)
             in ((id, logit), [\<lparr>index = i, code_points = cps, off = 0, partial = p\<rparr>]))"

definition llama_grammar_apply_impl ::
  "nat \<Rightarrow> nat \<Rightarrow> vocab \<Rightarrow> llama_grammar \<Rightarrow> 'f \<Rightarrow> (int \<times> 'f) list \<Rightarrow> (int \<times> 'f) list run" where
  "llama_grammar_apply_impl d n vc g neg_inf cur =
     (if awaiting_trigger g then ret cur
      else
        let passes = map2 (apply_token vc g neg_inf) [0..<length cur] cur;
            candidates_grammar = concat (map snd passes)
        in run_bind (llama_grammar_reject_candidates d n (rules g) (stacks g) candidates_grammar) (\<lambda>rejects.
           ret (fold (\<lambda>reject cur. cur[index reject := (fst (cur ! index reject), neg_inf)])
                  rejects (map fst passes))))"

end
