(* ===== verification/GrammarLang.thy ===== *)
theory GrammarLang
  imports Grammar
begin

text \<open>
  The language of a grammar, and the theorems that the automaton follows it.

  \<open>gen\<close> is the derivation relation of the grammar, defined on its rules without reference to stacks:
  the elements of an alternate generate the concatenation of what each of them generates.
  \<open>stack_gen\<close> lifts it to stacks. Advancing and accepting are then shown to preserve the words that
  are still possible, and to return for every grammar without left recursion.
\<close>

section \<open>More depth changes nothing\<close>

lemma advance_Suc: "run_le (llama_grammar_advance_stack n rs st acc) (llama_grammar_advance_stack (Suc n) rs st acc)"
proof (induction n arbitrary: st acc)
  case 0
  show ?case by (simp add: run_le_def)
next
  case (Suc n)
  show ?case
    apply (subst (1 2) llama_grammar_advance_stack.simps(2))
    using Suc by (auto split: list.split intro!: run_le_bind run_le_fold)
qed

lemma advance_mono:
  assumes "llama_grammar_advance_stack n rs st acc = Some r" and "n \<le> m"
  shows "llama_grammar_advance_stack m rs st acc = Some r"
  using assms(2,1) by (induction m rule: dec_induct) (auto dest: advance_Suc [unfolded run_le_def, rule_format])

section \<open>Well-formed rules\<close>

text \<open>The shape of a rule: alternates of references and character ranges, where a range modifier
  follows a character and another character follows either, and one end at the end. The first
  argument says what may follow the previous element: \<open>0\<close> no modifier, \<open>1\<close> both, \<open>2\<close> an
  alternative character only.\<close>

fun wf_elements :: "nat \<Rightarrow> nat \<Rightarrow> grule \<Rightarrow> bool" where
  "wf_elements n m [] = False"
| "wf_elements n m (e # els) =
     (case gtype e of
        LLAMA_GRETYPE_END \<Rightarrow> els = [] \<and> gvalue e = 0
      | LLAMA_GRETYPE_ALT \<Rightarrow> wf_elements n 0 els
      | LLAMA_GRETYPE_RULE_REF \<Rightarrow> gvalue e < n \<and> wf_elements n 0 els
      | LLAMA_GRETYPE_CHAR \<Rightarrow> wf_elements n 1 els
      | LLAMA_GRETYPE_CHAR_NOT \<Rightarrow> wf_elements n 1 els
      | LLAMA_GRETYPE_CHAR_RNG_UPPER \<Rightarrow> m = 1 \<and> wf_elements n 2 els
      | LLAMA_GRETYPE_CHAR_ALT \<Rightarrow> (m = 1 \<or> m = 2) \<and> wf_elements n 1 els
      | LLAMA_GRETYPE_CHAR_ANY \<Rightarrow> wf_elements n 0 els)"

definition wf_rules :: "grules \<Rightarrow> bool" where
  "wf_rules rs \<longleftrightarrow> list_all (wf_elements (length rs) 0) rs"

text \<open>A position at the start of a symbol or at the end of an alternate.\<close>

definition pos_ok :: "grules \<Rightarrow> gpos \<Rightarrow> bool" where
  "pos_ok rs p \<longleftrightarrow> fst p < length rs \<and> wf_elements (length rs) 0 (at rs p)"

abbreviation ends :: "grules \<Rightarrow> gpos \<Rightarrow> bool" where
  "ends rs p \<equiv> llama_grammar_is_end_of_sequence (hd (at rs p))"

definition stack_ok :: "grules \<Rightarrow> gstack \<Rightarrow> bool" where
  "stack_ok rs st \<longleftrightarrow> (\<forall>p \<in> set st. pos_ok rs p \<and> \<not> ends rs p)"

text \<open>A stack as \<open>llama_grammar_advance_stack\<close> leaves it: used up or at a character range.\<close>

definition ready :: "grules \<Rightarrow> gstack \<Rightarrow> bool" where
  "ready rs st \<longleftrightarrow> stack_ok rs st \<and>
     (st \<noteq> [] \<longrightarrow> gtype (hd (at rs (hd st))) \<in> {LLAMA_GRETYPE_CHAR, LLAMA_GRETYPE_CHAR_NOT, LLAMA_GRETYPE_CHAR_ANY})"

lemma wf_weaken: "wf_elements n 0 els \<Longrightarrow> wf_elements n m els"
  by (cases els) (auto split: llama_gretype.splits)

lemma pos_ok_at: "pos_ok rs p \<Longrightarrow> \<exists>e els. at rs p = e # els"
  unfolding pos_ok_def by (cases "at rs p") auto

lemma at_shift: "at rs (shift p k) = drop k (at rs p)"
  by (simp add: at_def add.commute)

lemma push_ok:
  assumes "pos_ok rs p"
  shows "push rs p st = Inr (if ends rs p then st else p # st)"
  using pos_ok_at [OF assms] by (auto simp: push_def)

lemma stack_ok_push: "pos_ok rs p \<Longrightarrow> stack_ok rs st \<Longrightarrow> stack_ok rs (if ends rs p then st else p # st)"
  by (simp add: stack_ok_def)

section \<open>Character ranges\<close>

text \<open>What the range at a position contains, and how many elements it has.\<close>

fun ranges :: "grule \<Rightarrow> (nat \<times> nat) list" where
  "ranges (e # e1 # els) =
     (if gtype e1 = LLAMA_GRETYPE_CHAR_RNG_UPPER then
        (gvalue e, gvalue e1) #
        (case els of e' # _ \<Rightarrow> if gtype e' = LLAMA_GRETYPE_CHAR_ALT then ranges els else [] | [] \<Rightarrow> [])
      else (gvalue e, gvalue e) # (if gtype e1 = LLAMA_GRETYPE_CHAR_ALT then ranges (e1 # els) else []))"
| "ranges _ = []"

definition span :: "grule \<Rightarrow> nat" where
  "span els = Suc (length (takeWhile
     (\<lambda>e. gtype e \<in> {LLAMA_GRETYPE_CHAR_ALT, LLAMA_GRETYPE_CHAR_RNG_UPPER}) (tl els)))"

definition in_class :: "grule \<Rightarrow> nat \<Rightarrow> bool" where
  "in_class els c =
     (let inside = (gtype (hd els) = LLAMA_GRETYPE_CHAR_ANY \<or> (\<exists>(lo, hi) \<in> set (ranges els). lo \<le> c \<and> c \<le> hi))
      in if gtype (hd els) = LLAMA_GRETYPE_CHAR_NOT then \<not> inside else inside)"

lemma wf_no_modifier:
  assumes "wf_elements n m (e # els)" and "gtype e \<notin> {LLAMA_GRETYPE_CHAR_ALT, LLAMA_GRETYPE_CHAR_RNG_UPPER}"
  shows "wf_elements n m' (e # els)"
  using assms by (auto split: llama_gretype.splits)

lemma match_loop_ranges:
  assumes "wf_elements n 1 els" and "gtype e \<noteq> LLAMA_GRETYPE_CHAR_ANY"
  shows "match_loop (e # els) chr found k =
      Inr (found \<or> (\<exists>(lo, hi) \<in> set (ranges (e # els)). lo \<le> chr \<and> chr \<le> hi), k + span (e # els)) \<and>
    wf_elements n 0 (drop (span (e # els)) (e # els))"
  using assms
proof (induction els arbitrary: e found k rule: length_induct)
  case (1 els)
  obtain e1 els1 where els: "els = e1 # els1" using "1.prems"(1) by (cases els) auto
  consider (rng) "gtype e1 = LLAMA_GRETYPE_CHAR_RNG_UPPER" | (alt) "gtype e1 = LLAMA_GRETYPE_CHAR_ALT"
    | (other) "gtype e1 \<notin> {LLAMA_GRETYPE_CHAR_ALT, LLAMA_GRETYPE_CHAR_RNG_UPPER}" by auto
  then show ?case
  proof cases
    case rng
    with els "1.prems"(1) have wf2: "wf_elements n 2 els1" by simp
    then obtain e2 els2 where els1: "els1 = e2 # els2" by (cases els1) auto
    show ?thesis
    proof (cases "gtype e2 = LLAMA_GRETYPE_CHAR_ALT")
      case True
      with wf2 els1 have "wf_elements n 1 els2" by simp
      with True show ?thesis
        using "1.IH" [rule_format, of els2 e2 "found \<or> gvalue e \<le> chr \<and> chr \<le> gvalue e1" "k + 2"] rng els els1
        by (auto simp: span_def)
    next
      case False
      have "gtype e2 \<noteq> LLAMA_GRETYPE_CHAR_RNG_UPPER" using wf2 els1 by auto
      with False wf2 els1 have "wf_elements n 0 els1" by (metis insertE singletonD wf_no_modifier)
      with False rng els els1 \<open>gtype e2 \<noteq> LLAMA_GRETYPE_CHAR_RNG_UPPER\<close> show ?thesis
        by (simp add: span_def Let_def del: wf_elements.simps)
    qed
  next
    case alt
    with els "1.prems"(1) have "wf_elements n 1 els1" by simp
    with alt show ?thesis
      using "1.IH" [rule_format, of els1 e1 "found \<or> gvalue e = chr" "k + 1"] "1.prems"(2) els
      by (auto simp: span_def Let_def)
  next
    case other
    then have "wf_elements n 0 els" using els "1.prems"(1) wf_no_modifier by blast
    with other els "1.prems"(2) show ?thesis
      by (auto simp: span_def Let_def simp del: wf_elements.simps)
  qed
qed

lemma match_char_class:
  assumes "wf_elements n 0 els"
    and "gtype (hd els) \<in> {LLAMA_GRETYPE_CHAR, LLAMA_GRETYPE_CHAR_NOT, LLAMA_GRETYPE_CHAR_ANY}"
  shows "llama_grammar_match_char els chr = Inr (in_class els chr, span els) \<and>
    wf_elements n 0 (drop (span els) els)"
proof -
  obtain e els' where els: "els = e # els'" using assms(1) by (cases els) auto
  show ?thesis
  proof (cases "gtype e = LLAMA_GRETYPE_CHAR_ANY")
    case True
    with assms(1) els have "wf_elements n 0 els'" by simp
    then obtain e1 els1 where els': "els' = e1 # els1" "wf_elements n 0 (e1 # els1)" by (cases els') auto
    then have "gtype e1 \<notin> {LLAMA_GRETYPE_CHAR_ALT, LLAMA_GRETYPE_CHAR_RNG_UPPER}" by auto
    with True els els' show ?thesis
      by (simp add: llama_grammar_match_char_def is_positive_char_def in_class_def span_def Let_def
        del: wf_elements.simps)
  next
    case False
    with assms els have "wf_elements n 1 els'" by auto
    from match_loop_ranges [OF this False, of chr False 0] show ?thesis
      using False assms(2) els
      by (auto simp: llama_grammar_match_char_def is_positive_char_def in_class_def Let_def)
  qed
qed

lemma span_le: "els \<noteq> [] \<Longrightarrow> span els \<le> length els"
  by (cases els) (simp_all add: span_def length_takeWhile_le)

section \<open>Alternates\<close>

text \<open>\<open>ys\<close> is one of the definitions of a rule, with what follows it.\<close>

definition is_alternate :: "grule \<Rightarrow> grule \<Rightarrow> bool" where
  "is_alternate rule ys \<longleftrightarrow> ys = rule \<or> (\<exists>xs e. rule = xs @ e # ys \<and> gtype e = LLAMA_GRETYPE_ALT)"

lemma wf_after_ALT: "wf_elements n m (xs @ e # ys) \<Longrightarrow> gtype e = LLAMA_GRETYPE_ALT \<Longrightarrow> wf_elements n 0 ys"
proof (induction xs arbitrary: m)
  case Nil
  then show ?case by simp
next
  case (Cons x xs)
  from Cons.prems(1) have "\<exists>m'. wf_elements n m' (xs @ e # ys)"
    by (cases "gtype x") (auto simp: Cons_eq_append_conv)
  with Cons show ?case by blast
qed

lemma wf_has_end: "wf_elements n m els \<Longrightarrow> \<exists>xs e ys. els = xs @ e # ys \<and> llama_grammar_is_end_of_sequence e \<and>
   (\<forall>x \<in> set xs. \<not> llama_grammar_is_end_of_sequence x) \<and> (gtype e = LLAMA_GRETYPE_END \<longrightarrow> ys = [])"
proof (induction els arbitrary: m)
  case Nil
  then show ?case by simp
next
  case (Cons x els)
  show ?case
  proof (cases "llama_grammar_is_end_of_sequence x")
    case True
    then have "gtype x = LLAMA_GRETYPE_END \<longrightarrow> els = []" using Cons.prems by auto
    with True show ?thesis by (intro exI [of _ "[]"] exI [of _ x] exI [of _ els]) simp
  next
    case False
    with Cons.prems obtain m' where "wf_elements n m' els"
      by (cases "gtype x") (auto simp: llama_grammar_is_end_of_sequence_def)
    from Cons.IH [OF this] obtain xs e ys where "els = xs @ e # ys" "llama_grammar_is_end_of_sequence e"
      "\<forall>x \<in> set xs. \<not> llama_grammar_is_end_of_sequence x" "gtype e = LLAMA_GRETYPE_END \<longrightarrow> ys = []" by blast
    with False show ?thesis by (intro exI [of _ "x # xs"] exI [of _ e] exI [of _ ys]) simp
  qed
qed

lemma is_alternate_split:
  assumes els: "els = xs @ e # ys" and "llama_grammar_is_end_of_sequence e"
    and xs: "\<forall>x \<in> set xs. \<not> llama_grammar_is_end_of_sequence x"
    and "gtype e = LLAMA_GRETYPE_END \<longrightarrow> ys = []"
  shows "is_alternate els zs \<longleftrightarrow> zs = els \<or> gtype e = LLAMA_GRETYPE_ALT \<and> is_alternate ys zs"
proof
  assume "is_alternate els zs"
  then consider "zs = els" | as a where "xs @ e # ys = as @ a # zs" "gtype a = LLAMA_GRETYPE_ALT"
    using els by (auto simp: is_alternate_def)
  then show "zs = els \<or> gtype e = LLAMA_GRETYPE_ALT \<and> is_alternate ys zs"
  proof cases
    case (2 as a)
    then have "a \<notin> set xs" using xs by (auto simp: llama_grammar_is_end_of_sequence_def)
    from 2(1) obtain us where "xs = as @ us \<and> us @ e # ys = a # zs \<or> xs @ us = as \<and> e # ys = us @ a # zs"
      by (auto simp: append_eq_append_conv2)
    then show ?thesis
    proof
      assume "xs = as @ us \<and> us @ e # ys = a # zs"
      then show ?thesis using \<open>a \<notin> set xs\<close> 2(2) by (cases us) (auto simp: is_alternate_def)
    next
      assume "xs @ us = as \<and> e # ys = us @ a # zs"
      then show ?thesis using assms(2,4) 2(2)
        by (cases us) (auto simp: is_alternate_def llama_grammar_is_end_of_sequence_def)
    qed
  qed simp
next
  assume "zs = els \<or> gtype e = LLAMA_GRETYPE_ALT \<and> is_alternate ys zs"
  then show "is_alternate els zs"
    unfolding is_alternate_def els by (metis append.assoc append_Cons)
qed

lemma alternates_wf:
  assumes "wf_elements n m els"
  shows "\<exists>js. alternates j els = Inr js \<and> js \<noteq> [] \<and>
    (\<forall>i \<in> set js. j \<le> i \<and> i < j + length els) \<and>
    (\<lambda>i. drop (i - j) els) ` set js = {ys. is_alternate els ys}"
  using assms
proof (induction els arbitrary: j m rule: length_induct)
  case (1 els)
  obtain xs e ys where els: "els = xs @ e # ys" "llama_grammar_is_end_of_sequence e"
    "\<forall>x \<in> set xs. \<not> llama_grammar_is_end_of_sequence x" "gtype e = LLAMA_GRETYPE_END \<longrightarrow> ys = []"
    using wf_has_end [OF "1.prems"] by blast
  have dw: "dropWhile (\<lambda>e. \<not> llama_grammar_is_end_of_sequence e) els = e # ys"
    using els(1-3) by (simp add: dropWhile_append2)
  note split = is_alternate_split [OF els]
  show ?case
  proof (cases "gtype e = LLAMA_GRETYPE_ALT")
    case True
    have wf: "wf_elements n 0 ys" using wf_after_ALT "1.prems" els(1) True by blast
    have len: "length ys < length els" by (simp add: els(1))
    from "1.IH" [rule_format, OF len wf, of "j + Suc (length xs)"] obtain js
      where "alternates (j + Suc (length xs)) ys = Inr js \<and> js \<noteq> [] \<and>
        (\<forall>i \<in> set js. j + Suc (length xs) \<le> i \<and> i < j + Suc (length xs) + length ys) \<and>
        (\<lambda>i. drop (i - (j + Suc (length xs))) ys) ` set js = {zs. is_alternate ys zs}"
      by (rule exE)
    then have js: "alternates (j + Suc (length xs)) ys = Inr js"
      "\<forall>i \<in> set js. j + Suc (length xs) \<le> i \<and> i < j + Suc (length xs) + length ys"
      "(\<lambda>i. drop (i - (j + Suc (length xs))) ys) ` set js = {zs. is_alternate ys zs}"
      by - (elim conjE, assumption)+
    have "alternates j els = Inr (j # js)"
      by (subst alternates.simps) (use dw True js(1) els(1) in simp)
    moreover have "drop (i - j) els = drop (i - (j + Suc (length xs))) ys" if i: "i \<in> set js" for i
    proof -
      from i js(2) obtain q where "i = j + Suc (length xs) + q" using le_Suc_ex by blast
      then show ?thesis by (simp add: els(1))
    qed
    then have "(\<lambda>i. drop (i - j) els) ` set js = {zs. is_alternate ys zs}" using js(3) by (simp cong: image_cong)
    then have "(\<lambda>i. drop (i - j) els) ` set (j # js) = {zs. is_alternate els zs}"
      using split True by auto
    moreover have "\<forall>i \<in> set (j # js). j \<le> i \<and> i < j + length els" using js(2) els(1) by auto
    ultimately show ?thesis by blast
  next
    case False
    have "alternates j els = Inr [j]" by (subst alternates.simps) (use dw False in simp)
    moreover have "{zs. is_alternate els zs} = {els}" using split False by auto
    ultimately show ?thesis using els(1) by simp
  qed
qed

section \<open>The language of a grammar\<close>

inductive gen :: "grules \<Rightarrow> grule \<Rightarrow> nat list \<Rightarrow> bool" for rs where
  gen_end: "llama_grammar_is_end_of_sequence e \<Longrightarrow> gen rs (e # els) []"
| gen_char: "gtype e \<in> {LLAMA_GRETYPE_CHAR, LLAMA_GRETYPE_CHAR_NOT, LLAMA_GRETYPE_CHAR_ANY} \<Longrightarrow>
    in_class (e # els) c \<Longrightarrow> gen rs (drop (span (e # els)) (e # els)) w \<Longrightarrow> gen rs (e # els) (c # w)"
| gen_ref: "gtype e = LLAMA_GRETYPE_RULE_REF \<Longrightarrow> gvalue e < length rs \<Longrightarrow>
    is_alternate (rs ! gvalue e) alt \<Longrightarrow> gen rs alt u \<Longrightarrow> gen rs els w \<Longrightarrow> gen rs (e # els) (u @ w)"

inductive_simps gen_Cons: "gen rs (e # els) w"

definition language :: "grules \<Rightarrow> nat \<Rightarrow> nat list \<Rightarrow> bool" where
  "language rs start w \<longleftrightarrow> start < length rs \<and> (\<exists>alt. is_alternate (rs ! start) alt \<and> gen rs alt w)"

text \<open>A stack generates what its positions generate, one after the other.\<close>

fun stack_gen :: "grules \<Rightarrow> gstack \<Rightarrow> nat list \<Rightarrow> bool" where
  "stack_gen rs [] w \<longleftrightarrow> w = []"
| "stack_gen rs (p # st) w \<longleftrightarrow> (\<exists>u v. w = u @ v \<and> gen rs (at rs p) u \<and> stack_gen rs st v)"

lemma gen_at_end: "llama_grammar_is_end_of_sequence e \<Longrightarrow> gen rs (e # els) w \<longleftrightarrow> w = []"
  by (auto simp: gen_Cons llama_grammar_is_end_of_sequence_def)

lemma gen_at_ref:
  "gtype e = LLAMA_GRETYPE_RULE_REF \<Longrightarrow>
   gen rs (e # els) w \<longleftrightarrow> (\<exists>u v. w = u @ v \<and> language rs (gvalue e) u \<and> gen rs els v)"
  by (auto simp: gen_Cons llama_grammar_is_end_of_sequence_def language_def)

lemma gen_at_char:
  "gtype e \<in> {LLAMA_GRETYPE_CHAR, LLAMA_GRETYPE_CHAR_NOT, LLAMA_GRETYPE_CHAR_ANY} \<Longrightarrow>
   gen rs (e # els) w \<longleftrightarrow>
     (\<exists>c v. w = c # v \<and> in_class (e # els) c \<and> gen rs (drop (span (e # els)) (e # els)) v)"
  by (auto simp: gen_Cons llama_grammar_is_end_of_sequence_def)

lemma stack_gen_push:
  assumes "pos_ok rs p"
  shows "stack_gen rs (if ends rs p then st else p # st) w \<longleftrightarrow>
    (\<exists>u v. w = u @ v \<and> gen rs (at rs p) u \<and> stack_gen rs st v)"
  using pos_ok_at [OF assms] by (auto simp: gen_at_end)

text \<open>A stack at a character range never generates the empty word.\<close>

lemma stack_gen_ready_Nil:
  assumes "ready rs st"
  shows "stack_gen rs st [] \<longleftrightarrow> st = []"
proof (cases st)
  case (Cons p st')
  then have p: "pos_ok rs p" using assms by (simp add: ready_def stack_ok_def)
  obtain e els where "at rs p = e # els" using pos_ok_at [OF p] by blast
  moreover from this have "gtype e \<in> {LLAMA_GRETYPE_CHAR, LLAMA_GRETYPE_CHAR_NOT, LLAMA_GRETYPE_CHAR_ANY}"
    using assms Cons by (simp add: ready_def)
  ultimately show ?thesis using Cons by (simp add: gen_at_char)
qed simp

section \<open>Advancing a stack\<close>

text \<open>A computation that adds a fixed set of stacks to the ones found so far, or does not return.\<close>

definition adds :: "('s list \<Rightarrow> 's list run) \<Rightarrow> 's set \<Rightarrow> bool" where
  "adds f A \<longleftrightarrow> (\<forall>acc. \<exists>new. f acc = ret new \<and> set new = set acc \<union> A)"

definition stops :: "('s list \<Rightarrow> 's list run) \<Rightarrow> bool" where
  "stops f \<longleftrightarrow> (\<forall>acc. f acc = None)"

lemma adds_fold:
  assumes "\<And>x. x \<in> set xs \<Longrightarrow> adds (f x) (B x)"
  shows "adds (run_fold f xs) (\<Union>x \<in> set xs. B x)"
  using assms
proof (induction xs)
  case Nil
  show ?case by (simp add: adds_def)
next
  case (Cons x xs)
  have IH: "adds (run_fold f xs) (\<Union>x \<in> set xs. B x)" using Cons by simp
  show ?case unfolding adds_def
  proof
    fix acc
    obtain new where new: "f x acc = ret new" "set new = set acc \<union> B x"
      using Cons.prems [of x] by (auto simp: adds_def)
    obtain new' where "run_fold f xs new = ret new'" "set new' = set new \<union> (\<Union>x \<in> set xs. B x)"
      using IH unfolding adds_def by blast
    with new show "\<exists>new. run_fold f (x # xs) acc = ret new \<and> set new = set acc \<union> (\<Union>x \<in> set (x # xs). B x)"
      by auto
  qed
qed

lemma adds_or_stops_fold:
  assumes "\<And>x. x \<in> set xs \<Longrightarrow> stops (f x) \<or> adds (f x) (B x)"
  shows "stops (run_fold f xs) \<or> (\<forall>x \<in> set xs. adds (f x) (B x))"
  using assms
proof (induction xs)
  case Nil
  show ?case by simp
next
  case (Cons x xs)
  have x: "stops (f x) \<or> adds (f x) (B x)" and IH: "stops (run_fold f xs) \<or> (\<forall>x \<in> set xs. adds (f x) (B x))"
    using Cons by simp_all
  show ?case
  proof (cases "stops (f x)")
    case True
    then show ?thesis by (simp add: stops_def)
  next
    case False
    with x have ax: "adds (f x) (B x)" by simp
    from IH show ?thesis
    proof
      assume stop: "stops (run_fold f xs)"
      have "run_fold f (x # xs) acc = None" for acc
      proof -
        obtain new where "f x acc = ret new" using ax by (auto simp: adds_def)
        with stop show ?thesis by (simp add: stops_def)
      qed
      then show ?thesis by (simp add: stops_def)
    next
      assume "\<forall>x \<in> set xs. adds (f x) (B x)"
      with ax show ?thesis by simp
    qed
  qed
qed

lemma adds_not_stops: "adds f A \<Longrightarrow> \<not> stops f"
  unfolding adds_def stops_def by (metis option.distinct(1))

text \<open>The family of stack sets an element of a list contributes, chosen once for a proof.\<close>

lemma fold_adds:
  assumes "\<And>x. x \<in> set xs \<Longrightarrow> stops (f x) \<or> (\<exists>A. adds (f x) A \<and> Q x A)"
  shows "stops (run_fold f xs) \<or> (\<exists>B. adds (run_fold f xs) (\<Union>x \<in> set xs. B x) \<and>
    (\<forall>x \<in> set xs. adds (f x) (B x) \<and> Q x (B x)))"
proof -
  define B where "B x = (SOME A. adds (f x) A \<and> Q x A)" for x
  have B: "stops (f x) \<or> adds (f x) (B x) \<and> Q x (B x)" if "x \<in> set xs" for x
    using assms [OF that] someI_ex [of "\<lambda>A. adds (f x) A \<and> Q x A"] unfolding B_def by blast
  have "stops (run_fold f xs) \<or> (\<forall>x \<in> set xs. adds (f x) (B x))"
    using adds_or_stops_fold [of xs f B] B by blast
  then show ?thesis
  proof
    assume ad: "\<forall>x \<in> set xs. adds (f x) (B x)"
    then have "\<forall>x \<in> set xs. adds (f x) (B x) \<and> Q x (B x)"
      using B adds_not_stops by blast
    then show ?thesis using adds_fold [of xs f B] ad by blast
  qed simp
qed

lemma adds_result: "adds f A \<Longrightarrow> f [] = ret l \<Longrightarrow> set l = A"
  unfolding adds_def by (metis Inr_inject Un_empty_left list.set(1) option.inject)

lemma adds_add_stack: "adds (\<lambda>acc. ret (add_stack st acc)) {st}"
  by (auto simp: adds_def add_stack_def)

definition closes :: "grules \<Rightarrow> gstack \<Rightarrow> gstack set \<Rightarrow> bool" where
  "closes rs st A \<longleftrightarrow> A \<noteq> {} \<and> (\<forall>s \<in> A. ready rs s) \<and>
     (\<forall>w. stack_gen rs st w \<longleftrightarrow> (\<exists>s \<in> A. stack_gen rs s w))"

lemma pos_ok_alternate:
  assumes "wf_rules rs" and "s < length rs" and "is_alternate (rs ! s) (drop j (rs ! s))"
  shows "pos_ok rs (s, j)"
proof -
  have wf: "wf_elements (length rs) 0 (rs ! s)" using assms(1,2) by (simp add: wf_rules_def list_all_length)
  then have "wf_elements (length rs) 0 (drop j (rs ! s))"
    using assms(3) wf_after_ALT unfolding is_alternate_def by metis
  then show ?thesis using assms(2) by (simp add: pos_ok_def at_def)
qed

text \<open>One step at a reference: the stacks for the alternates of the rule, in which the words of the
  stack are split among them.\<close>

lemma advance_ref:
  assumes wf: "wf_rules rs" and st: "stack_ok rs (pos # rest)"
    and e: "at rs pos = e # els" "gtype e = LLAMA_GRETYPE_RULE_REF"
  obtains js where "gvalue e < length rs" "alternates 0 (rs ! gvalue e) = Inr js" "js \<noteq> []"
    "\<And>j. j \<in> set js \<Longrightarrow> pos_ok rs (gvalue e, j)"
    "pos_ok rs (shift pos 1)"
    "\<And>w. stack_gen rs (pos # rest) w \<longleftrightarrow>
       (\<exists>j \<in> set js. \<exists>u v. w = u @ v \<and> gen rs (at rs (gvalue e, j)) u \<and>
          stack_gen rs (if ends rs (shift pos 1) then rest else shift pos 1 # rest) v)"
proof -
  have pos: "fst pos < length rs" "wf_elements (length rs) 0 (e # els)"
    using st e(1) by (simp_all add: stack_ok_def pos_ok_def)
  then have s: "gvalue e < length rs" and els: "wf_elements (length rs) 0 els" using e(2) by simp_all
  have rule: "wf_elements (length rs) 0 (rs ! gvalue e)" using wf s by (simp add: wf_rules_def list_all_length)
  obtain js where js: "alternates 0 (rs ! gvalue e) = Inr js" "js \<noteq> []"
    "(\<lambda>i. drop i (rs ! gvalue e)) ` set js = {ys. is_alternate (rs ! gvalue e) ys}"
    using alternates_wf [OF rule, of 0] by auto
  have ok: "pos_ok rs (gvalue e, j)" if "j \<in> set js" for j
    using pos_ok_alternate [OF wf s] js(3) that by blast
  have at_next: "at rs (shift pos 1) = els" unfolding at_shift e(1) by simp
  have next_ok: "pos_ok rs (shift pos 1)" unfolding pos_ok_def at_next using pos(1) els by simp
  have lang: "language rs (gvalue e) u \<longleftrightarrow> (\<exists>j \<in> set js. gen rs (at rs (gvalue e, j)) u)" for u
  proof -
    have "language rs (gvalue e) u \<longleftrightarrow> (\<exists>alt \<in> {ys. is_alternate (rs ! gvalue e) ys}. gen rs alt u)"
      using s by (auto simp: language_def)
    also have "\<dots> \<longleftrightarrow> (\<exists>j \<in> set js. gen rs (drop j (rs ! gvalue e)) u)" by (simp add: js(3) [symmetric])
    finally show ?thesis using s by (simp add: at_def)
  qed
  have whole: "stack_gen rs (pos # rest) w \<longleftrightarrow>
      (\<exists>u v x. w = u @ v @ x \<and> language rs (gvalue e) u \<and> gen rs els v \<and> stack_gen rs rest x)" for w
    by (auto simp: e(1) gen_at_ref [OF e(2)]) (metis append.assoc)+
  have tail: "stack_gen rs (if ends rs (shift pos 1) then rest else shift pos 1 # rest) v \<longleftrightarrow>
      (\<exists>u x. v = u @ x \<and> gen rs els u \<and> stack_gen rs rest x)" for v
    using stack_gen_push [OF next_ok, of rest v] by (simp only: at_next)
  have sg: "stack_gen rs (pos # rest) w \<longleftrightarrow>
      (\<exists>j \<in> set js. \<exists>u v. w = u @ v \<and> gen rs (at rs (gvalue e, j)) u \<and>
          stack_gen rs (if ends rs (shift pos 1) then rest else shift pos 1 # rest) v)" for w
    unfolding whole tail lang by blast
  show thesis by (rule that [OF s js(1,2) ok next_ok sg])
qed

lemma advance_unfold_ref:
  assumes wf: "wf_rules rs" and st: "stack_ok rs (pos # rest)"
    and e: "at rs pos = e # els" "gtype e = LLAMA_GRETYPE_RULE_REF"
    and js: "alternates 0 (rs ! gvalue e) = Inr js" "\<And>j. j \<in> set js \<Longrightarrow> pos_ok rs (gvalue e, j)"
      "pos_ok rs (shift pos 1)" "gvalue e < length rs"
  shows "llama_grammar_advance_stack (Suc n) rs (pos # rest) =
    run_fold (\<lambda>j. llama_grammar_advance_stack n rs
      (let tl' = (if ends rs (shift pos 1) then rest else shift pos 1 # rest)
       in if ends rs (gvalue e, j) then tl' else (gvalue e, j) # tl')) js"
proof
  fix acc
  show "llama_grammar_advance_stack (Suc n) rs (pos # rest) acc =
    run_fold (\<lambda>j. llama_grammar_advance_stack n rs
      (let tl' = (if ends rs (shift pos 1) then rest else shift pos 1 # rest)
       in if ends rs (gvalue e, j) then tl' else (gvalue e, j) # tl')) js acc"
    unfolding llama_grammar_advance_stack.simps(2) list.case e(1)
    using e(2) js(1,4) push_ok [OF js(3)] push_ok [OF js(2)]
    by (auto simp: Let_def intro!: run_fold_cong)
qed

lemma advance_closes:
  assumes "wf_rules rs" and "stack_ok rs st"
  shows "stops (llama_grammar_advance_stack n rs st) \<or>
    (\<exists>A. adds (llama_grammar_advance_stack n rs st) A \<and> closes rs st A)"
  using assms(2)
proof (induction n arbitrary: st)
  case 0
  show ?case by (simp add: stops_def)
next
  case (Suc n)
  show ?case
  proof (cases st)
    case Nil
    have "closes rs [] {[]}" by (simp add: closes_def ready_def stack_ok_def)
    moreover have "adds (llama_grammar_advance_stack (Suc n) rs []) {[]}"
      using adds_add_stack [of "[]"] by (simp add: adds_def)
    ultimately show ?thesis using Nil by blast
  next
    case (Cons pos rest)
    have pos: "pos_ok rs pos" "\<not> ends rs pos" and rest: "stack_ok rs rest"
      using Suc.prems Cons by (simp_all add: stack_ok_def)
    obtain e els where e: "at rs pos = e # els" using pos_ok_at [OF pos(1)] by blast
    have wfe: "wf_elements (length rs) 0 (e # els)" using pos(1) e by (simp add: pos_ok_def)
    consider (ref) "gtype e = LLAMA_GRETYPE_RULE_REF"
      | (char) "gtype e \<in> {LLAMA_GRETYPE_CHAR, LLAMA_GRETYPE_CHAR_NOT, LLAMA_GRETYPE_CHAR_ANY}"
      using wfe pos(2) e by (auto simp: llama_grammar_is_end_of_sequence_def split: llama_gretype.splits)
    then show ?thesis
    proof cases
      case char
      have "closes rs st {st}" using Suc.prems Cons char e by (simp add: closes_def ready_def)
      moreover have "adds (llama_grammar_advance_stack (Suc n) rs st) {st}"
        using adds_add_stack [of st] char e Cons by (auto simp: adds_def)
      ultimately show ?thesis by blast
    next
      case ref
      from advance_ref [OF assms(1) Suc.prems [unfolded Cons] e ref] obtain js where
        js: "gvalue e < length rs" "alternates 0 (rs ! gvalue e) = Inr js" "js \<noteq> []"
        "\<And>j. j \<in> set js \<Longrightarrow> pos_ok rs (gvalue e, j)" "pos_ok rs (shift pos 1)"
        "\<And>w. stack_gen rs (pos # rest) w \<longleftrightarrow>
          (\<exists>j \<in> set js. \<exists>u v. w = u @ v \<and> gen rs (at rs (gvalue e, j)) u \<and>
             stack_gen rs (if ends rs (shift pos 1) then rest else shift pos 1 # rest) v)" by blast
      define tl' where "tl' = (if ends rs (shift pos 1) then rest else shift pos 1 # rest)"
      define sub where "sub j = (if ends rs (gvalue e, j) then tl' else (gvalue e, j) # tl')" for j
      have tl': "stack_ok rs tl'" unfolding tl'_def by (rule stack_ok_push [OF js(5) rest])
      have sub: "stack_ok rs (sub j)" if "j \<in> set js" for j
        unfolding sub_def by (rule stack_ok_push [OF js(4) [OF that] tl'])
      have step: "llama_grammar_advance_stack (Suc n) rs st =
          run_fold (\<lambda>j. llama_grammar_advance_stack n rs (sub j)) js"
        using advance_unfold_ref [OF assms(1) Suc.prems [unfolded Cons] e ref js(2,4,5,1), of n]
        by (simp only: Cons sub_def tl'_def Let_def)
      have "stack_gen rs st w \<longleftrightarrow> (\<exists>j \<in> set js. stack_gen rs (sub j) w)" for w
        unfolding Cons js(6) sub_def tl'_def using stack_gen_push [OF js(4)] by blast
      then have "closes rs st (\<Union>j \<in> set js. B j)" if "\<forall>j \<in> set js. closes rs (sub j) (B j)" for B
        using that js(3) by (fastforce simp: closes_def)
      then show ?thesis
        using fold_adds [of js "\<lambda>j. llama_grammar_advance_stack n rs (sub j)" "\<lambda>j. closes rs (sub j)"]
          Suc.IH [OF sub] unfolding step by blast
    qed
  qed
qed

lemma advance_result:
  assumes "wf_rules rs" and "stack_ok rs st" and "llama_grammar_advance_stack n rs st [] = ret sts"
  shows "closes rs st (set sts)"
proof -
  from advance_closes [OF assms(1,2), of n] show ?thesis
  proof (elim disjE exE conjE)
    assume "stops (llama_grammar_advance_stack n rs st)"
    then show ?thesis using assms(3) by (simp add: stops_def)
  next
    fix A
    assume A: "adds (llama_grammar_advance_stack n rs st) A" "closes rs st A"
    then show ?thesis using adds_result [OF A(1) assms(3)] by simp
  qed
qed

section \<open>Automata\<close>

text \<open>What a recogniser that reads one character at a time promises: a step that returns leaves the
  words that continued with the character, and more depth does not change what it returns.\<close>

locale automaton =
  fixes ok :: "'s \<Rightarrow> bool" and step :: "nat \<Rightarrow> 's \<Rightarrow> nat \<Rightarrow> 's run" and lang :: "'s \<Rightarrow> nat list \<Rightarrow> bool"
  assumes step_le: "n \<le> m \<Longrightarrow> run_le (step n s c) (step m s c)"
    and step_follows: "ok s \<Longrightarrow> step n s c = None \<or>
      (\<exists>s'. step n s c = ret s' \<and> ok s' \<and> (\<forall>w. lang s' w \<longleftrightarrow> lang s (c # w)))"
begin

lemma run_le: "n \<le> m \<Longrightarrow> run_le (run_fold (\<lambda>c s. step n s c) w s) (run_fold (\<lambda>c s. step m s c) w s)"
  by (intro run_le_fold step_le)

lemma run_follows:
  "ok s \<Longrightarrow> run_fold (\<lambda>c s. step n s c) w s = None \<or>
    (\<exists>s'. run_fold (\<lambda>c s. step n s c) w s = ret s' \<and> ok s' \<and> (\<forall>v. lang s' v \<longleftrightarrow> lang s (w @ v)))"
proof (induction w arbitrary: s)
  case Nil
  then show ?case by simp
next
  case (Cons c w)
  from step_follows [OF Cons.prems, of n c] show ?case
  proof (elim disjE exE conjE)
    fix s'
    assume s': "step n s c = ret s'" "ok s'" "\<forall>v. lang s' v \<longleftrightarrow> lang s (c # v)"
    from Cons.IH [OF s'(2)] show ?thesis using s'(1,3) by simp
  qed simp
qed

end

locale total_automaton = automaton +
  assumes step_returns: "ok s \<Longrightarrow> \<exists>n. step n s c \<noteq> None"
begin

lemma run_returns:
  "ok s \<Longrightarrow> \<exists>n s'. run_fold (\<lambda>c s. step n s c) w s = ret s' \<and> ok s' \<and> (\<forall>v. lang s' v \<longleftrightarrow> lang s (w @ v))"
proof (induction w arbitrary: s)
  case Nil
  then show ?case by simp
next
  case (Cons c w)
  obtain n1 where n1: "step n1 s c \<noteq> None" using step_returns [OF Cons.prems] by blast
  from step_follows [OF Cons.prems, of n1 c] n1 show ?case
  proof (elim disjE exE conjE)
    fix s1
    assume s1: "step n1 s c = ret s1" "ok s1" "\<forall>v. lang s1 v \<longleftrightarrow> lang s (c # v)"
    from Cons.IH [OF s1(2)] obtain n2 s2 where s2: "run_fold (\<lambda>c s. step n2 s c) w s1 = ret s2" "ok s2"
      "\<forall>v. lang s2 v \<longleftrightarrow> lang s1 (w @ v)" by blast
    have "step (max n1 n2) s c = ret s1" using step_le [of n1 "max n1 n2" s c] s1(1) by (simp add: run_le_def)
    moreover have "run_fold (\<lambda>c s. step (max n1 n2) s c) w s1 = ret s2"
      using run_le [of n2 "max n1 n2" w s1] s2(1) by (simp add: run_le_def)
    ultimately have "run_fold (\<lambda>c s. step (max n1 n2) s c) (c # w) s = ret s2" by simp
    with s1(3) s2(2,3) show ?thesis by (metis append_Cons)
  qed simp
qed

end

section \<open>Accepting characters\<close>

lemma pos_ok_after_class:
  assumes "pos_ok rs p"
    and "gtype (hd (at rs p)) \<in> {LLAMA_GRETYPE_CHAR, LLAMA_GRETYPE_CHAR_NOT, LLAMA_GRETYPE_CHAR_ANY}"
  shows "pos_ok rs (shift p (span (at rs p)))"
    and "llama_grammar_match_char (at rs p) chr = Inr (in_class (at rs p) chr, span (at rs p))"
  using match_char_class [of "length rs" "at rs p" chr] assms unfolding pos_ok_def at_shift by simp_all

lemma stack_gen_char:
  assumes "ready rs (p # st)"
  shows "stack_gen rs (p # st) (c # w) \<longleftrightarrow> in_class (at rs p) c \<and>
    (\<exists>u v. w = u @ v \<and> gen rs (at rs (shift p (span (at rs p)))) u \<and> stack_gen rs st v)"
proof -
  have p: "pos_ok rs p" using assms by (simp add: ready_def stack_ok_def)
  obtain e els where e: "at rs p = e # els" using pos_ok_at [OF p] by blast
  then have "gtype e \<in> {LLAMA_GRETYPE_CHAR, LLAMA_GRETYPE_CHAR_NOT, LLAMA_GRETYPE_CHAR_ANY}"
    using assms by (simp add: ready_def)
  then show ?thesis unfolding stack_gen.simps at_shift e gen_at_char [OF \<open>gtype e \<in> _\<close>]
    by (auto simp: Cons_eq_append_conv)
qed

definition follows :: "grules \<Rightarrow> nat \<Rightarrow> gstack \<Rightarrow> gstack set \<Rightarrow> bool" where
  "follows rs c st A \<longleftrightarrow> (\<forall>s \<in> A. ready rs s) \<and>
     (\<forall>w. stack_gen rs st (c # w) \<longleftrightarrow> (\<exists>s \<in> A. stack_gen rs s w))"

lemma accept_stack_follows:
  assumes wf: "wf_rules rs" and st: "ready rs st"
  shows "stops (accept_stack n rs c st) \<or> (\<exists>A. adds (accept_stack n rs c st) A \<and> follows rs c st A)"
proof (cases st)
  case Nil
  then show ?thesis by (intro disjI2 exI [of _ "{}"]) (simp add: accept_stack_def adds_def follows_def)
next
  case (Cons p rest)
  have p: "pos_ok rs p" and rest: "stack_ok rs rest" using st Cons by (simp_all add: ready_def stack_ok_def)
  have ty: "gtype (hd (at rs p)) \<in> {LLAMA_GRETYPE_CHAR, LLAMA_GRETYPE_CHAR_NOT, LLAMA_GRETYPE_CHAR_ANY}"
    using st Cons by (simp add: ready_def)
  note next_ok = pos_ok_after_class(1) [OF p ty] and m = pos_ok_after_class(2) [OF p ty]
  show ?thesis
  proof (cases "in_class (at rs p) c")
    case False
    have "adds (accept_stack n rs c st) {}" using False Cons m by (simp add: accept_stack_def adds_def)
    moreover have "follows rs c st {}" using stack_gen_char [OF st [unfolded Cons]] False Cons by (simp add: follows_def)
    ultimately show ?thesis by blast
  next
    case True
    define st' where "st' = (if ends rs (shift p (span (at rs p))) then rest else shift p (span (at rs p)) # rest)"
    have st': "stack_ok rs st'" unfolding st'_def by (rule stack_ok_push [OF next_ok rest])
    have acc: "accept_stack n rs c st = llama_grammar_advance_stack n rs st'"
      unfolding accept_stack_def Cons using True m push_ok [OF next_ok, of rest] by (simp add: st'_def fun_eq_iff)
    have sg: "stack_gen rs st (c # w) \<longleftrightarrow> stack_gen rs st' w" for w
      unfolding Cons stack_gen_char [OF st [unfolded Cons]] st'_def stack_gen_push [OF next_ok] using True by simp
    from advance_closes [OF wf st', of n] show ?thesis unfolding acc follows_def closes_def sg by blast
  qed
qed

definition grammar_ok :: "llama_grammar \<Rightarrow> bool" where
  "grammar_ok g \<longleftrightarrow> wf_rules (rules g) \<and> (\<forall>st \<in> set (stacks g). ready (rules g) st)"

text \<open>The words that can still follow.\<close>

definition possible :: "llama_grammar \<Rightarrow> nat list \<Rightarrow> bool" where
  "possible g w \<longleftrightarrow> (\<exists>st \<in> set (stacks g). stack_gen (rules g) st w)"

lemma possible_Nil: "grammar_ok g \<Longrightarrow> possible g [] \<longleftrightarrow> [] \<in> set (stacks g)"
  unfolding possible_def grammar_ok_def by (metis stack_gen_ready_Nil)

lemma accept_follows:
  assumes "grammar_ok g"
  shows "llama_grammar_accept n g c = None \<or>
    (\<exists>sts. llama_grammar_accept n g c = ret (g\<lparr>stacks := sts\<rparr>) \<and> grammar_ok (g\<lparr>stacks := sts\<rparr>) \<and>
       (\<forall>w. possible (g\<lparr>stacks := sts\<rparr>) w \<longleftrightarrow> possible g (c # w)))"
proof -
  have "stops (run_fold (accept_stack n (rules g) c) (stacks g)) \<or>
    (\<exists>B. adds (run_fold (accept_stack n (rules g) c) (stacks g)) (\<Union>x \<in> set (stacks g). B x) \<and>
      (\<forall>x \<in> set (stacks g). adds (accept_stack n (rules g) c x) (B x) \<and> follows (rules g) c x (B x)))"
    by (rule fold_adds) (use assms accept_stack_follows in \<open>auto simp: grammar_ok_def\<close>)
  then show ?thesis
  proof
    assume "stops (run_fold (accept_stack n (rules g) c) (stacks g))"
    then show ?thesis by (simp add: llama_grammar_accept_def stops_def)
  next
    assume "\<exists>B. adds (run_fold (accept_stack n (rules g) c) (stacks g)) (\<Union>x \<in> set (stacks g). B x) \<and>
      (\<forall>x \<in> set (stacks g). adds (accept_stack n (rules g) c x) (B x) \<and> follows (rules g) c x (B x))"
    then obtain B sts where B: "\<forall>x \<in> set (stacks g). follows (rules g) c x (B x)"
      and sts: "run_fold (accept_stack n (rules g) c) (stacks g) [] = ret sts" "set sts = (\<Union>x \<in> set (stacks g). B x)"
      unfolding adds_def by (metis Un_empty_left list.set(1))
    have "grammar_ok (g\<lparr>stacks := sts\<rparr>)" using assms B sts(2) by (auto simp: grammar_ok_def follows_def)
    moreover have "possible (g\<lparr>stacks := sts\<rparr>) w \<longleftrightarrow> possible g (c # w)" for w
      using B sts(2) by (auto simp: possible_def follows_def)
    ultimately show ?thesis using sts(1) by (auto simp: llama_grammar_accept_def)
  qed
qed

lemma initial_closes:
  assumes wf: "wf_rules rs" and start: "start < length rs"
  shows "initial_stacks n rs start = None \<or>
    (\<exists>sts. initial_stacks n rs start = ret sts \<and> sts \<noteq> [] \<and> (\<forall>st \<in> set sts. ready rs st) \<and>
      (\<forall>w. language rs start w \<longleftrightarrow> (\<exists>st \<in> set sts. stack_gen rs st w)))"
proof -
  have rule: "wf_elements (length rs) 0 (rs ! start)" using wf start by (simp add: wf_rules_def list_all_length)
  obtain js where js: "alternates 0 (rs ! start) = Inr js" "js \<noteq> []"
    "(\<lambda>i. drop i (rs ! start)) ` set js = {ys. is_alternate (rs ! start) ys}"
    using alternates_wf [OF rule, of 0] by auto
  have ok: "pos_ok rs (start, j)" if "j \<in> set js" for j
    using pos_ok_alternate [OF wf start] js(3) that by blast
  define sub where "sub j = (if ends rs (start, j) then [] else [(start, j)])" for j
  have sub: "stack_ok rs (sub j)" if "j \<in> set js" for j
    unfolding sub_def by (rule stack_ok_push [OF ok [OF that]]) (simp add: stack_ok_def)
  have run: "initial_stacks n rs start = run_fold (\<lambda>j. llama_grammar_advance_stack n rs (sub j)) js []"
    unfolding initial_stacks_def using start js(1) push_ok [OF ok]
    by (auto simp: sub_def intro!: run_fold_cong)
  have lang: "language rs start w \<longleftrightarrow> (\<exists>j \<in> set js. stack_gen rs (sub j) w)" for w
  proof -
    have "language rs start w \<longleftrightarrow> (\<exists>alt \<in> {ys. is_alternate (rs ! start) ys}. gen rs alt w)"
      using start by (auto simp: language_def)
    also have "\<dots> \<longleftrightarrow> (\<exists>j \<in> set js. gen rs (at rs (start, j)) w)"
      using start by (simp add: js(3) [symmetric] at_def)
    also have "\<dots> \<longleftrightarrow> (\<exists>j \<in> set js. stack_gen rs (sub j) w)"
      unfolding sub_def by (simp add: stack_gen_push [OF ok])
    finally show ?thesis .
  qed
  have "stops (run_fold (\<lambda>j. llama_grammar_advance_stack n rs (sub j)) js) \<or>
    (\<exists>B. adds (run_fold (\<lambda>j. llama_grammar_advance_stack n rs (sub j)) js) (\<Union>x \<in> set js. B x) \<and>
      (\<forall>j \<in> set js. adds (llama_grammar_advance_stack n rs (sub j)) (B j) \<and> closes rs (sub j) (B j)))"
    by (rule fold_adds) (use sub advance_closes [OF wf] in blast)
  then show ?thesis
  proof
    assume "stops (run_fold (\<lambda>j. llama_grammar_advance_stack n rs (sub j)) js)"
    then show ?thesis by (simp add: run stops_def)
  next
    assume "\<exists>B. adds (run_fold (\<lambda>j. llama_grammar_advance_stack n rs (sub j)) js) (\<Union>x \<in> set js. B x) \<and>
      (\<forall>j \<in> set js. adds (llama_grammar_advance_stack n rs (sub j)) (B j) \<and> closes rs (sub j) (B j))"
    then obtain B sts where B: "\<forall>j \<in> set js. closes rs (sub j) (B j)"
      and sts: "run_fold (\<lambda>j. llama_grammar_advance_stack n rs (sub j)) js [] = ret sts" "set sts = (\<Union>j \<in> set js. B j)"
      unfolding adds_def by (metis Un_empty_left list.set(1))
    have "set sts \<noteq> {}" using B sts(2) js(2) by (fastforce simp: closes_def)
    moreover have "\<forall>st \<in> set sts. ready rs st" using B sts(2) by (auto simp: closes_def)
    moreover have "language rs start w \<longleftrightarrow> (\<exists>st \<in> set sts. stack_gen rs st w)" for w
      unfolding lang sts(2) using B by (auto simp: closes_def)
    ultimately show ?thesis using run sts(1) by auto
  qed
qed

text \<open>Accepting the characters of a word one after the other.\<close>

definition accept_all :: "nat \<Rightarrow> llama_grammar \<Rightarrow> nat list \<Rightarrow> llama_grammar run" where
  "accept_all n g cs = run_fold (\<lambda>chr g. llama_grammar_accept n g chr) cs g"

section \<open>Left recursion and termination\<close>

text \<open>The rules a sequence can start with, past references to rules that generate the empty word.\<close>

fun sees :: "grules \<Rightarrow> grule \<Rightarrow> nat \<Rightarrow> bool" where
  "sees rs [] s = False"
| "sees rs (e # els) s \<longleftrightarrow> gtype e = LLAMA_GRETYPE_RULE_REF \<and>
     (gvalue e = s \<or> language rs (gvalue e) [] \<and> sees rs els s)"

definition left_rel :: "grules \<Rightarrow> (nat \<times> nat) set" where
  "left_rel rs = {(s, r). r < length rs \<and> (\<exists>alt. is_alternate (rs ! r) alt \<and> sees rs alt s)}"

text \<open>A grammar without left recursion: no rule starts with itself, directly or through others.\<close>

definition no_left_recursion :: "grules \<Rightarrow> bool" where
  "no_left_recursion rs \<longleftrightarrow> wf (left_rel rs)"

definition returns :: "grules \<Rightarrow> gstack \<Rightarrow> bool" where
  "returns rs st \<longleftrightarrow> (\<exists>n A. adds (llama_grammar_advance_stack n rs st) A)"

lemma adds_mono:
  assumes "adds (llama_grammar_advance_stack n rs st) A" and "n \<le> m"
  shows "adds (llama_grammar_advance_stack m rs st) A"
  using assms unfolding adds_def by (metis advance_mono)

lemma returns_common:
  assumes "finite X" and "\<And>x. x \<in> X \<Longrightarrow> returns rs (st x)"
  shows "\<exists>n. \<forall>x \<in> X. \<exists>A. adds (llama_grammar_advance_stack n rs (st x)) A"
  using assms
proof (induction X rule: finite_induct)
  case empty
  show ?case by simp
next
  case (insert x X)
  then obtain n where n: "\<forall>x \<in> X. \<exists>A. adds (llama_grammar_advance_stack n rs (st x)) A" by auto
  obtain m A where m: "adds (llama_grammar_advance_stack m rs (st x)) A"
    using insert.prems [of x] by (auto simp: returns_def)
  have "\<forall>y \<in> insert x X. \<exists>A. adds (llama_grammar_advance_stack (max n m) rs (st y)) A"
    using n m adds_mono max.cobounded1 max.cobounded2 by (metis insert_iff)
  then show ?case by blast
qed

definition returns_with :: "grules \<Rightarrow> gpos \<Rightarrow> bool" where
  "returns_with rs p \<longleftrightarrow> (\<forall>st. stack_ok rs st \<longrightarrow> (gen rs (at rs p) [] \<longrightarrow> returns rs st) \<longrightarrow>
     returns rs (if ends rs p then st else p # st))"

definition rule_returns :: "grules \<Rightarrow> nat \<Rightarrow> bool" where
  "rule_returns rs s \<longleftrightarrow> (\<forall>j. is_alternate (rs ! s) (drop j (rs ! s)) \<longrightarrow> returns_with rs (s, j))"

lemma adds_char:
  assumes "ready rs (p # st)"
  shows "adds (llama_grammar_advance_stack (Suc 0) rs (p # st)) {p # st}"
proof -
  have p: "pos_ok rs p" using assms by (simp add: ready_def stack_ok_def)
  obtain e els where "at rs p = e # els" using pos_ok_at [OF p] by blast
  with assms show ?thesis using adds_add_stack [of "p # st"] by (auto simp: adds_def ready_def)
qed

lemma returns_with_visible:
  assumes wf: "wf_rules rs"
  shows "pos_ok rs p \<Longrightarrow> (\<And>s. sees rs (at rs p) s \<Longrightarrow> rule_returns rs s) \<Longrightarrow> returns_with rs p"
proof (induction "length (at rs p)" arbitrary: p rule: less_induct)
  case less
  obtain e els where e: "at rs p = e # els" using pos_ok_at [OF less.prems(1)] by blast
  show ?case unfolding returns_with_def
  proof (intro allI impI)
    fix st
    assume st: "stack_ok rs st" and null: "gen rs (at rs p) [] \<longrightarrow> returns rs st"
    consider (end') "ends rs p" | (ref) "\<not> ends rs p" "gtype e = LLAMA_GRETYPE_RULE_REF"
      | (char) "\<not> ends rs p" "gtype e \<in> {LLAMA_GRETYPE_CHAR, LLAMA_GRETYPE_CHAR_NOT, LLAMA_GRETYPE_CHAR_ANY}"
      using less.prems(1) e
      by (auto simp: pos_ok_def llama_grammar_is_end_of_sequence_def split: llama_gretype.splits)
    then show "returns rs (if ends rs p then st else p # st)"
    proof cases
      case end'
      then have "gen rs (at rs p) []" using e by (simp add: gen_at_end)
      with null end' show ?thesis by simp
    next
      case char
      then have "ready rs (p # st)" using less.prems(1) st e by (simp add: ready_def stack_ok_def)
      from adds_char [OF this] have "returns rs (p # st)" unfolding returns_def by blast
      with char(1) show ?thesis by simp
    next
      case ref
      have pst: "stack_ok rs (p # st)" using ref less.prems(1) st by (simp add: stack_ok_def)
      have "\<exists>js. gvalue e < length rs \<and> alternates 0 (rs ! gvalue e) = Inr js \<and>
          (\<forall>j \<in> set js. pos_ok rs (gvalue e, j)) \<and> pos_ok rs (shift p 1)"
        by (rule advance_ref [OF wf pst e ref(2)]) (intro exI conjI ballI; assumption)
      then obtain js where js: "gvalue e < length rs" "alternates 0 (rs ! gvalue e) = Inr js"
        "\<And>j. j \<in> set js \<Longrightarrow> pos_ok rs (gvalue e, j)" "pos_ok rs (shift p 1)" by blast
      define tl' where "tl' = (if ends rs (shift p 1) then st else shift p 1 # st)"
      have tl': "stack_ok rs tl'" unfolding tl'_def by (rule stack_ok_push [OF js(4) st])
      have at_next: "at rs (shift p 1) = els" unfolding at_shift e by simp
      have tl_returns: "returns rs tl'" if null_s: "language rs (gvalue e) []"
      proof -
        have "returns_with rs (shift p 1)"
        proof (rule less.hyps [OF _ js(4)])
          show "length (at rs (shift p 1)) < length (at rs p)" unfolding at_next e by simp
          show "rule_returns rs s" if "sees rs (at rs (shift p 1)) s" for s
            using less.prems(2) [of s] that null_s ref(2) unfolding at_next e by simp
        qed
        moreover have "gen rs (at rs (shift p 1)) [] \<longrightarrow> returns rs st"
          using null null_s unfolding at_next e gen_at_ref [OF ref(2)] by simp
        ultimately show ?thesis using st unfolding returns_with_def tl'_def by blast
      qed
      have sub: "returns rs (if ends rs (gvalue e, j) then tl' else (gvalue e, j) # tl')" if j: "j \<in> set js" for j
      proof -
        have alt: "is_alternate (rs ! gvalue e) (drop j (rs ! gvalue e))"
          using alternates_wf [of "length rs" 0 "rs ! gvalue e" 0] wf js(1,2) j
          by (auto simp: wf_rules_def list_all_length)
        have "rule_returns rs (gvalue e)" using less.prems(2) ref(2) unfolding e by simp
        then have "returns_with rs (gvalue e, j)" using alt unfolding rule_returns_def by blast
        moreover have "gen rs (at rs (gvalue e, j)) [] \<longrightarrow> returns rs tl'"
          using tl_returns alt js(1) unfolding language_def at_def by auto
        ultimately show ?thesis using tl' unfolding returns_with_def by blast
      qed
      obtain n where n: "\<forall>j \<in> set js. \<exists>A. adds (llama_grammar_advance_stack n rs
          (if ends rs (gvalue e, j) then tl' else (gvalue e, j) # tl')) A"
        using returns_common [of "set js" rs "\<lambda>j. if ends rs (gvalue e, j) then tl' else (gvalue e, j) # tl'"] sub
        by auto
      then obtain B where B: "\<And>j. j \<in> set js \<Longrightarrow> adds (llama_grammar_advance_stack n rs
          (if ends rs (gvalue e, j) then tl' else (gvalue e, j) # tl')) (B j)" by metis
      have "adds (run_fold (\<lambda>j. llama_grammar_advance_stack n rs
          (if ends rs (gvalue e, j) then tl' else (gvalue e, j) # tl')) js) (\<Union>j \<in> set js. B j)"
        by (rule adds_fold [OF B])
      then have "adds (llama_grammar_advance_stack (Suc n) rs (p # st)) (\<Union>j \<in> set js. B j)"
        using advance_unfold_ref [OF wf pst e ref(2) js(2,3,4,1), of n] by (simp only: tl'_def Let_def)
      then have "returns rs (p # st)" unfolding returns_def by blast
      then show ?thesis using ref(1) by simp
    qed
  qed
qed

lemma sees_in_range: "wf_elements n m els \<Longrightarrow> sees rs els s \<Longrightarrow> s < n"
  by (induction els arbitrary: m) auto

lemma rule_returns_all:
  assumes wf: "wf_rules rs" and lr: "no_left_recursion rs"
  shows "s < length rs \<Longrightarrow> rule_returns rs s"
proof (induction s rule: wf_induct_rule [OF lr [unfolded no_left_recursion_def]])
  case (1 s)
  show ?case unfolding rule_returns_def
  proof (intro allI impI)
    fix j
    assume alt: "is_alternate (rs ! s) (drop j (rs ! s))"
    have ok: "pos_ok rs (s, j)" by (rule pos_ok_alternate [OF wf "1.prems" alt])
    show "returns_with rs (s, j)"
    proof (rule returns_with_visible [OF wf ok])
      fix t
      assume t: "sees rs (at rs (s, j)) t"
      then have "t < length rs" using ok sees_in_range unfolding pos_ok_def by blast
      moreover have "(t, s) \<in> left_rel rs" using t alt "1.prems" by (auto simp: left_rel_def at_def)
      ultimately show "rule_returns rs t" using "1.IH" by blast
    qed
  qed
qed

lemma advance_returns:
  assumes wf: "wf_rules rs" and lr: "no_left_recursion rs"
  shows "stack_ok rs st \<Longrightarrow> returns rs st"
proof (induction st)
  case Nil
  have "adds (llama_grammar_advance_stack (Suc 0) rs []) {[]}" using adds_add_stack [of "[]"] by (simp add: adds_def)
  then show ?case unfolding returns_def by blast
next
  case (Cons p st)
  have p: "pos_ok rs p" "\<not> ends rs p" "stack_ok rs st" using Cons.prems by (simp_all add: stack_ok_def)
  have "rule_returns rs s" if "sees rs (at rs p) s" for s
    using rule_returns_all [OF wf lr] sees_in_range that p(1) unfolding pos_ok_def by blast
  then have "returns_with rs p" by (rule returns_with_visible [OF wf p(1)])
  then show ?case using Cons.IH p unfolding returns_with_def by (metis (full_types))
qed

section \<open>Accepting returns\<close>

lemma advance_le: "n \<le> m \<Longrightarrow> run_le (llama_grammar_advance_stack n rs st acc) (llama_grammar_advance_stack m rs st acc)"
  unfolding run_le_def using advance_mono by blast

lemma accept_stack_mono:
  assumes "n \<le> m"
  shows "run_le (accept_stack n rs c st acc) (accept_stack m rs c st acc)"
proof (cases st)
  case (Cons p rest)
  have "run_le (if b then run_bind (Some r) (\<lambda>st'. llama_grammar_advance_stack n rs st' acc) else ret acc)
      (if b then run_bind (Some r) (\<lambda>st'. llama_grammar_advance_stack m rs st' acc) else ret acc)" for b r
    by (simp add: run_le_bind advance_le [OF assms])
  then show ?thesis unfolding accept_stack_def Cons list.case
    by (intro run_le_bind run_le_refl) (simp add: case_prod_unfold)
qed (simp add: accept_stack_def)

lemma accept_mono:
  assumes "n \<le> m"
  shows "run_le (llama_grammar_accept n g c) (llama_grammar_accept m g c)"
  unfolding llama_grammar_accept_def
  by (intro run_le_bind run_le_fold accept_stack_mono [OF assms] run_le_refl)

lemma accept_stack_returns:
  assumes wf: "wf_rules rs" and lr: "no_left_recursion rs" and st: "ready rs st"
  shows "\<exists>n A. adds (accept_stack n rs c st) A"
proof (cases st)
  case Nil
  then show ?thesis by (intro exI [of _ 0] exI [of _ "{}"]) (simp add: accept_stack_def adds_def)
next
  case (Cons p rest)
  have p: "pos_ok rs p" and rest: "stack_ok rs rest" using st Cons by (simp_all add: ready_def stack_ok_def)
  have ty: "gtype (hd (at rs p)) \<in> {LLAMA_GRETYPE_CHAR, LLAMA_GRETYPE_CHAR_NOT, LLAMA_GRETYPE_CHAR_ANY}"
    using st Cons by (simp add: ready_def)
  note next_ok = pos_ok_after_class(1) [OF p ty] and m = pos_ok_after_class(2) [OF p ty]
  show ?thesis
  proof (cases "in_class (at rs p) c")
    case False
    then have "adds (accept_stack 0 rs c st) {}" using Cons m by (simp add: accept_stack_def adds_def)
    then show ?thesis by blast
  next
    case True
    define st' where "st' = (if ends rs (shift p (span (at rs p))) then rest else shift p (span (at rs p)) # rest)"
    have "returns rs st'" unfolding st'_def by (rule advance_returns [OF wf lr stack_ok_push [OF next_ok rest]])
    moreover have "accept_stack n rs c st = llama_grammar_advance_stack n rs st'" for n
      unfolding accept_stack_def Cons using True m push_ok [OF next_ok, of rest] by (simp add: st'_def fun_eq_iff)
    ultimately show ?thesis by (simp add: returns_def)
  qed
qed

lemma fold_returns:
  fixes f :: "nat \<Rightarrow> 'a \<Rightarrow> 's list \<Rightarrow> 's list run"
  assumes mono: "\<And>n m x acc. n \<le> m \<Longrightarrow> run_le (f n x acc) (f m x acc)"
    and ret: "\<And>x. x \<in> set xs \<Longrightarrow> \<exists>n A. adds (f n x) A"
  shows "\<exists>n A. adds (run_fold (f n) xs) A"
  using ret
proof (induction xs)
  case Nil
  show ?case by (auto simp: adds_def)
next
  case (Cons x xs)
  obtain n A where n: "adds (run_fold (f n) xs) A" using Cons by auto
  obtain m B where m: "adds (f m x) B" using Cons.prems [of x] by auto
  have "adds (run_fold (f (max n m)) xs) A" unfolding adds_def
  proof
    fix acc
    have "run_le (run_fold (f n) xs acc) (run_fold (f (max n m)) xs acc)" by (intro run_le_fold mono max.cobounded1)
    then show "\<exists>new. run_fold (f (max n m)) xs acc = ret new \<and> set new = set acc \<union> A"
      using n unfolding adds_def run_le_def by metis
  qed
  moreover have "adds (f (max n m) x) B" unfolding adds_def
  proof
    fix acc
    have "run_le (f m x acc) (f (max n m) x acc)" by (intro mono max.cobounded2)
    then show "\<exists>new. f (max n m) x acc = ret new \<and> set new = set acc \<union> B"
      using m unfolding adds_def run_le_def by metis
  qed
  ultimately have "adds (run_fold (f (max n m)) (x # xs)) (B \<union> A)"
    unfolding adds_def run_fold.simps by (metis Un_assoc run_bind_simps(3))
  then show ?case by blast
qed

lemma accept_returns:
  assumes "grammar_ok g" and "no_left_recursion (rules g)"
  shows "\<exists>n. llama_grammar_accept n g c \<noteq> None"
proof -
  have "\<exists>n A. adds (run_fold (accept_stack n (rules g) c) (stacks g)) A"
    using assms accept_stack_returns by (intro fold_returns accept_stack_mono) (auto simp: grammar_ok_def)
  then obtain n sts where "run_fold (accept_stack n (rules g) c) (stacks g) [] = ret sts" unfolding adds_def by blast
  then have "llama_grammar_accept n g c \<noteq> None" by (simp add: llama_grammar_accept_def)
  then show ?thesis by blast
qed

lemma accept_ok:
  assumes "grammar_ok g"
  shows "llama_grammar_accept n g c = None \<or>
    (\<exists>g'. llama_grammar_accept n g c = ret g' \<and> grammar_ok g' \<and> rules g' = rules g \<and>
       (\<forall>w. possible g' w \<longleftrightarrow> possible g (c # w)))"
  using accept_follows [OF assms, of n c] by (elim disjE exE conjE) auto

interpretation pda: automaton grammar_ok llama_grammar_accept possible
proof
  show "run_le (llama_grammar_accept n g c) (llama_grammar_accept m g c)" if "n \<le> m" for n m g c
    by (rule accept_mono [OF that])
  show "llama_grammar_accept n g c = None \<or> (\<exists>g'. llama_grammar_accept n g c = ret g' \<and> grammar_ok g' \<and>
      (\<forall>w. possible g' w \<longleftrightarrow> possible g (c # w)))" if "grammar_ok g" for n g c
    using accept_ok [OF that, of n c] by blast
qed

interpretation total: total_automaton "\<lambda>g. grammar_ok g \<and> no_left_recursion (rules g)" llama_grammar_accept possible
proof
  show "run_le (llama_grammar_accept n g c) (llama_grammar_accept m g c)" if "n \<le> m" for n m g c
    by (rule accept_mono [OF that])
  show "llama_grammar_accept n g c = None \<or> (\<exists>g'. llama_grammar_accept n g c = ret g' \<and>
      (grammar_ok g' \<and> no_left_recursion (rules g')) \<and> (\<forall>w. possible g' w \<longleftrightarrow> possible g (c # w)))"
    if "grammar_ok g \<and> no_left_recursion (rules g)" for n g c
    using accept_ok [of g n c] that by metis
  show "\<exists>n. llama_grammar_accept n g c \<noteq> None" if "grammar_ok g \<and> no_left_recursion (rules g)" for g c
    using accept_returns that by blast
qed

lemmas accept_all_le = pda.run_le [folded accept_all_def]
lemmas accept_all_follows = pda.run_follows [folded accept_all_def]

lemma accept_all_returns:
  assumes "grammar_ok g" and "no_left_recursion (rules g)"
  shows "\<exists>n g'. accept_all n g w = ret g' \<and> grammar_ok g' \<and> (\<forall>v. possible g' v \<longleftrightarrow> possible g (w @ v))"
  using total.run_returns [of g w] assms unfolding accept_all_def by blast

lemma initial_returns:
  assumes wf: "wf_rules rs" and lr: "no_left_recursion rs" and start: "start < length rs"
  shows "\<exists>n. initial_stacks n rs start \<noteq> None"
proof -
  have rule: "wf_elements (length rs) 0 (rs ! start)" using wf start by (simp add: wf_rules_def list_all_length)
  obtain js where js: "alternates 0 (rs ! start) = Inr js"
    "(\<lambda>i. drop i (rs ! start)) ` set js = {ys. is_alternate (rs ! start) ys}"
    using alternates_wf [OF rule, of 0] by auto
  have ok: "pos_ok rs (start, j)" if "j \<in> set js" for j
    using pos_ok_alternate [OF wf start] js(2) that by blast
  define sub where "sub j = (if ends rs (start, j) then [] else [(start, j)])" for j
  have sub: "returns rs (sub j)" if "j \<in> set js" for j
    unfolding sub_def
    by (rule advance_returns [OF wf lr stack_ok_push [OF ok [OF that]]]) (simp add: stack_ok_def)
  have run: "initial_stacks n rs start = run_fold (\<lambda>j. llama_grammar_advance_stack n rs (sub j)) js []" for n
    unfolding initial_stacks_def using start js(1) push_ok [OF ok]
    by (auto simp: sub_def intro!: run_fold_cong)
  have "\<exists>n A. adds (run_fold (\<lambda>j. llama_grammar_advance_stack n rs (sub j)) js) A"
    by (rule fold_returns [OF advance_le]) (use sub in \<open>simp_all add: returns_def\<close>)
  then obtain n sts where "initial_stacks n rs start = ret sts" unfolding run adds_def by blast
  then have "initial_stacks n rs start \<noteq> None" by simp
  then show ?thesis by blast
qed

end
