(* ===== verification/GrammarInit.thy ===== *)
theory GrammarInit
  imports GrammarLang
begin

text \<open>
  The search for left recursion and the construction of a grammar state.

  The search marks a rule as possibly empty only when one of its alternates has no elements at all.
  \<open>direct_rel\<close> is the relation it explores; it is part of \<open>left_rel\<close>, so what the search reports is
  left recursion, and it is all of it when every rule that can generate the empty word has an empty
  alternate.
\<close>

section \<open>The relation the search explores\<close>

abbreviation directly_empty :: "grules \<Rightarrow> nat \<Rightarrow> bool" where
  "directly_empty rs r \<equiv> has_empty_alternate True (rs ! r)"

fun direct_sees :: "grules \<Rightarrow> grule \<Rightarrow> nat \<Rightarrow> bool" where
  "direct_sees rs [] s = False"
| "direct_sees rs (e # els) s \<longleftrightarrow> gtype e = LLAMA_GRETYPE_RULE_REF \<and>
     (gvalue e = s \<or> directly_empty rs (gvalue e) \<and> direct_sees rs els s)"

definition direct_rel :: "grules \<Rightarrow> (nat \<times> nat) set" where
  "direct_rel rs = {(s, r). r < length rs \<and> (\<exists>alt. is_alternate (rs ! r) alt \<and> direct_sees rs alt s)}"

definition later_alternate :: "grule \<Rightarrow> grule \<Rightarrow> bool" where
  "later_alternate els alt \<longleftrightarrow> (\<exists>xs e. els = xs @ e # alt \<and> gtype e = LLAMA_GRETYPE_ALT)"

lemma later_alternate_Nil [simp]: "\<not> later_alternate [] alt"
  by (simp add: later_alternate_def)

lemma later_alternate_Cons [simp]:
  "later_alternate (e # els) alt \<longleftrightarrow> gtype e = LLAMA_GRETYPE_ALT \<and> alt = els \<or> later_alternate els alt"
  by (auto simp: later_alternate_def Cons_eq_append_conv)

lemma is_alternate_later: "is_alternate els alt \<longleftrightarrow> alt = els \<or> later_alternate els alt"
  by (simp add: is_alternate_def later_alternate_def)

text \<open>A rule with an empty alternate generates the empty word.\<close>

lemma has_empty_alternate_iff:
  "has_empty_alternate b els \<longleftrightarrow>
     (b \<and> els \<noteq> [] \<and> llama_grammar_is_end_of_sequence (hd els)) \<or>
     (\<exists>xs x alt. els = xs @ x # alt \<and> llama_grammar_is_end_of_sequence x \<and> alt \<noteq> [] \<and>
        llama_grammar_is_end_of_sequence (hd alt))"
proof (induction b els rule: has_empty_alternate.induct)
  case (1 b)
  show ?case by simp
next
  case (2 b e els)
  have "(\<exists>xs x alt. e # els = xs @ x # alt \<and> llama_grammar_is_end_of_sequence x \<and> alt \<noteq> [] \<and>
        llama_grammar_is_end_of_sequence (hd alt)) \<longleftrightarrow>
    llama_grammar_is_end_of_sequence e \<and> els \<noteq> [] \<and> llama_grammar_is_end_of_sequence (hd els) \<or>
    (\<exists>xs x alt. els = xs @ x # alt \<and> llama_grammar_is_end_of_sequence x \<and> alt \<noteq> [] \<and>
        llama_grammar_is_end_of_sequence (hd alt))"
    by (auto simp: Cons_eq_append_conv)
  then show ?case using 2 by auto
qed

lemma wf_END_last: "wf_elements n m (xs @ e # ys) \<Longrightarrow> gtype e = LLAMA_GRETYPE_END \<Longrightarrow> ys = []"
proof (induction xs arbitrary: m)
  case Nil
  then show ?case by simp
next
  case (Cons x xs)
  from Cons.prems(1) have "\<exists>m'. wf_elements n m' (xs @ e # ys)" by (cases "gtype x") auto
  with Cons show ?case by blast
qed

lemma directly_empty_language:
  assumes wf: "wf_rules rs" and r: "r < length rs" and e: "directly_empty rs r"
  shows "language rs r []"
proof -
  have rule: "wf_elements (length rs) 0 (rs ! r)" using wf r by (simp add: wf_rules_def list_all_length)
  have gen: "gen rs alt []" if "alt \<noteq> []" "llama_grammar_is_end_of_sequence (hd alt)" for alt
    using that by (cases alt) (auto intro: gen_end)
  from e consider "rs ! r \<noteq> []" "llama_grammar_is_end_of_sequence (hd (rs ! r))"
    | xs x alt where "rs ! r = xs @ x # alt" "llama_grammar_is_end_of_sequence x" "alt \<noteq> []"
        "llama_grammar_is_end_of_sequence (hd alt)"
    by (auto simp: has_empty_alternate_iff)
  then show ?thesis
  proof cases
    case 1
    then have "is_alternate (rs ! r) (rs ! r)" by (simp add: is_alternate_def)
    then show ?thesis using r gen [OF 1] unfolding language_def by blast
  next
    case (2 xs x alt)
    have "gtype x \<noteq> LLAMA_GRETYPE_END" using wf_END_last rule 2(1,3) by metis
    then have "is_alternate (rs ! r) alt" using 2(1,2) by (auto simp: is_alternate_def llama_grammar_is_end_of_sequence_def)
    then show ?thesis using r gen [OF 2(3,4)] unfolding language_def by blast
  qed
qed

lemma direct_sees_sees:
  assumes "wf_rules rs"
  shows "wf_elements (length rs) m els \<Longrightarrow> direct_sees rs els s \<Longrightarrow> sees rs els s"
proof (induction els arbitrary: m)
  case Nil
  then show ?case by simp
next
  case (Cons e els)
  then show ?case using directly_empty_language [OF assms] by auto
qed

lemma wf_alternate:
  assumes "wf_rules rs" and "r < length rs" and "is_alternate (rs ! r) alt"
  shows "wf_elements (length rs) 0 alt"
  using assms wf_after_ALT unfolding is_alternate_def wf_rules_def list_all_length by metis

lemma direct_left:
  assumes "wf_rules rs"
  shows "direct_rel rs \<subseteq> left_rel rs"
  using direct_sees_sees [OF assms wf_alternate [OF assms]] by (auto simp: direct_rel_def left_rel_def)

section \<open>What the search returns\<close>

text \<open>The references the search follows from a rule, with its flag for a possible start.\<close>

fun visits :: "grules \<Rightarrow> grule \<Rightarrow> bool \<Rightarrow> nat set" where
  "visits rs [] rec = {}"
| "visits rs (e # els) rec =
     (if gtype e = LLAMA_GRETYPE_RULE_REF \<and> rec
      then insert (gvalue e) (visits rs els (directly_empty rs (gvalue e)))
      else visits rs els (llama_grammar_is_end_of_sequence e))"

lemma visits_iff:
  "wf_elements n m els \<Longrightarrow> s \<in> visits rs els rec \<longleftrightarrow>
     rec \<and> direct_sees rs els s \<or> (\<exists>alt. later_alternate els alt \<and> direct_sees rs alt s)"
proof (induction els arbitrary: m rec)
  case Nil
  then show ?case by simp
next
  case (Cons e els)
  show ?case
  proof (cases "gtype e = LLAMA_GRETYPE_END")
    case True
    then have "els = []" using Cons.prems by simp
    with True show ?thesis by simp
  next
    case False
    with Cons.prems obtain m' where m': "wf_elements n m' els" by (cases "gtype e") auto
    show ?thesis using False Cons.IH [OF m'] by (auto simp: llama_grammar_is_end_of_sequence_def)
  qed
qed

lemma visits_rule:
  assumes "wf_rules rs" and "r < length rs"
  shows "s \<in> visits rs (rs ! r) True \<longleftrightarrow> (s, r) \<in> direct_rel rs"
  using visits_iff [of "length rs" 0 "rs ! r" s rs True] assms
  by (auto simp: direct_rel_def is_alternate_later wf_rules_def list_all_length)

definition flags_ok :: "grules \<Rightarrow> nat set \<Rightarrow> recursion_flags \<Rightarrow> bool" where
  "flags_ok rs P fl \<longleftrightarrow>
     length (rules_visited fl) = length rs \<and> length (rules_in_progress fl) = length rs \<and>
     length (rules_may_be_empty fl) = length rs \<and> P \<subseteq> {..<length rs} \<and>
     (\<forall>q < length rs. rules_in_progress fl ! q \<longleftrightarrow> q \<in> P) \<and>
     (\<forall>q < length rs. rules_may_be_empty fl ! q \<longrightarrow> directly_empty rs q) \<and>
     (\<forall>q < length rs. rules_visited fl ! q \<longrightarrow> q \<in> Wellfounded.acc (direct_rel rs))"

text \<open>The outcome of the search from rule \<open>r\<close> while the rules of \<open>P\<close> are in progress: either every
  descent from \<open>r\<close> ends, or, when \<open>r\<close> is reached from all of \<open>P\<close>, there is a cycle.\<close>

definition outcome_ok :: "grules \<Rightarrow> nat set \<Rightarrow> nat set \<Rightarrow> bool \<times> recursion_flags \<Rightarrow> bool" where
  "outcome_ok rs P R = (\<lambda>(found, fl).
     if found then (\<forall>r \<in> R. \<forall>q \<in> P. (r, q) \<in> (direct_rel rs)\<^sup>+) \<longrightarrow> (\<exists>q. (q, q) \<in> (direct_rel rs)\<^sup>+)
     else flags_ok rs P fl \<and> R \<subseteq> Wellfounded.acc (direct_rel rs))"

lemma outcome_ok_insert:
  "outcome_ok rs P R out \<Longrightarrow> r \<in> Wellfounded.acc (direct_rel rs) \<Longrightarrow> outcome_ok rs P (insert r R) out"
  by (auto simp: outcome_ok_def)

text \<open>May-be-empty flags are only ever set.\<close>

definition keeps_empty :: "grules \<Rightarrow> recursion_flags \<Rightarrow> recursion_flags \<Rightarrow> bool" where
  "keeps_empty rs fl fl' \<longleftrightarrow> (\<forall>q < length rs. rules_may_be_empty fl ! q \<longrightarrow> rules_may_be_empty fl' ! q)"

definition search_ok :: "grules \<Rightarrow> (nat \<Rightarrow> recursion_flags \<Rightarrow> (bool \<times> recursion_flags) run) \<Rightarrow> bool" where
  "search_ok rs f \<longleftrightarrow> (\<forall>r P fl. r < length rs \<longrightarrow> flags_ok rs P fl \<longrightarrow>
     f r fl = None \<or> (\<exists>out. f r fl = ret out \<and> outcome_ok rs P {r} out \<and>
       (\<not> fst out \<longrightarrow> (directly_empty rs r \<longrightarrow> rules_may_be_empty (snd out) ! r) \<and>
          keeps_empty rs fl (snd out))))"

lemma leftmost_loop_ok:
  assumes f: "search_ok rs f" and "flags_ok rs P fl" and "wf_elements (length rs) m els"
  shows "leftmost_loop f els rec fl = None \<or>
    (\<exists>out. leftmost_loop f els rec fl = ret out \<and> outcome_ok rs P (visits rs els rec) out \<and>
       (\<not> fst out \<longrightarrow> keeps_empty rs fl (snd out)))"
  using assms(2,3)
proof (induction els arbitrary: rec fl m)
  case Nil
  then show ?case by (simp add: outcome_ok_def keeps_empty_def)
next
  case (Cons e els)
  show ?case
  proof (cases "gtype e = LLAMA_GRETYPE_RULE_REF \<and> rec")
    case True
    then have v: "gvalue e < length rs" and els: "wf_elements (length rs) 0 els" using Cons.prems(2) by simp_all
    from f [unfolded search_ok_def, THEN spec, THEN spec, THEN spec, THEN mp, OF v, THEN mp, OF Cons.prems(1)]
    show ?thesis
    proof (elim disjE exE conjE)
      assume "f (gvalue e) fl = None"
      with True show ?thesis by simp
    next
      fix out
      assume 2: "f (gvalue e) fl = ret out" "outcome_ok rs P {gvalue e} out"
        "\<not> fst out \<longrightarrow> (directly_empty rs (gvalue e) \<longrightarrow> rules_may_be_empty (snd out) ! gvalue e) \<and>
          keeps_empty rs fl (snd out)"
      obtain b fl' where out: "out = (b, fl')" by fastforce
      show ?thesis
      proof (cases b)
        case True': True
        with 2 out have "outcome_ok rs P (visits rs (e # els) rec) (True, fl')"
          using True by (auto simp: outcome_ok_def)
        with True True' 2 out show ?thesis by simp
      next
        case False
        then have fl': "flags_ok rs P fl'" "gvalue e \<in> Wellfounded.acc (direct_rel rs)"
          using 2 out by (auto simp: outcome_ok_def)
        have m: "rules_may_be_empty fl' ! gvalue e = directly_empty rs (gvalue e)"
          using 2(3) out False fl'(1) v by (auto simp: flags_ok_def)
        have len: "gvalue e < length (rules_may_be_empty fl')" using fl'(1) v by (simp add: flags_ok_def)
        have run: "leftmost_loop f (e # els) rec fl = leftmost_loop f els (directly_empty rs (gvalue e)) fl'"
          using True False 2(1) out m len by simp
        have vis: "visits rs (e # els) rec = insert (gvalue e) (visits rs els (directly_empty rs (gvalue e)))"
          using True by simp
        have keeps: "keeps_empty rs fl fl2" if "keeps_empty rs fl' fl2" for fl2
          using 2(3) out False that by (auto simp: keeps_empty_def)
        show ?thesis unfolding run vis
          using Cons.IH [OF fl'(1) els, of "directly_empty rs (gvalue e)"] outcome_ok_insert [OF _ fl'(2)] keeps
          by blast
      qed
    qed
  next
    case False
    show ?thesis
    proof (cases "gtype e = LLAMA_GRETYPE_END")
      case True
      then have "els = []" using Cons.prems(2) by simp
      with False True Cons.prems(1) show ?thesis by (simp add: outcome_ok_def keeps_empty_def)
    next
      case False': False
      with Cons.prems(2) obtain m' where "wf_elements (length rs) m' els" by (cases "gtype e") auto
      from Cons.IH [OF Cons.prems(1) this, of "llama_grammar_is_end_of_sequence e"] show ?thesis
        using False by auto
    qed
  qed
qed

lemma flags_ok_enter:
  assumes "flags_ok rs P fl" and "r < length rs"
  shows "flags_ok rs (insert r P)
    (fl\<lparr>rules_in_progress := (rules_in_progress fl)[r := True],
        rules_may_be_empty := if directly_empty rs r then (rules_may_be_empty fl)[r := True] else rules_may_be_empty fl\<rparr>)"
  using assms by (auto simp: flags_ok_def nth_list_update)

lemma flags_ok_leave:
  assumes "flags_ok rs (insert r P) fl" and "r \<notin> P" and "r \<in> Wellfounded.acc (direct_rel rs)"
  shows "flags_ok rs P (fl\<lparr>rules_in_progress := (rules_in_progress fl)[r := False],
    rules_visited := (rules_visited fl)[r := True]\<rparr>)"
  using assms by (auto simp: flags_ok_def nth_list_update)

text \<open>The first loop of the search, as one update of the flags.\<close>

lemma detect_Suc:
  assumes "flags_ok rs P fl" and "r < length rs" and "r \<notin> P"
  shows "llama_grammar_detect_left_recursion (Suc n) rs r fl =
    run_bind (leftmost_loop (llama_grammar_detect_left_recursion n rs) (rs ! r) True
      (fl\<lparr>rules_in_progress := (rules_in_progress fl)[r := True],
          rules_may_be_empty := if directly_empty rs r then (rules_may_be_empty fl)[r := True]
                                else rules_may_be_empty fl\<rparr>)) (\<lambda>(found, fl').
    if found then ret (True, fl')
    else run_bind (Some (rupd (rules_visited fl') r True)) (\<lambda>visited.
         ret (False, fl'\<lparr>rules_in_progress := (rules_in_progress fl')[r := False], rules_visited := visited\<rparr>)))"
  using assms by (simp add: flags_ok_def)

lemma detect_ok:
  assumes wf: "wf_rules rs"
  shows "search_ok rs (llama_grammar_detect_left_recursion n rs)"
proof (induction n)
  case 0
  show ?case by (simp add: search_ok_def)
next
  case (Suc n)
  have "llama_grammar_detect_left_recursion (Suc n) rs r fl = None \<or>
      (\<exists>out. llama_grammar_detect_left_recursion (Suc n) rs r fl = ret out \<and> outcome_ok rs P {r} out \<and>
        (\<not> fst out \<longrightarrow> (directly_empty rs r \<longrightarrow> rules_may_be_empty (snd out) ! r) \<and> keeps_empty rs fl (snd out)))"
    if r: "r < length rs" and fl: "flags_ok rs P fl" for r P fl
  proof (cases "r \<in> P")
    case True
    then have "llama_grammar_detect_left_recursion (Suc n) rs r fl = ret (True, fl)"
      using fl r by (simp add: flags_ok_def)
    moreover have "outcome_ok rs P {r} (True, fl)" using True by (auto simp: outcome_ok_def)
    ultimately show ?thesis by auto
  next
    case False
    define fl1 where "fl1 = fl\<lparr>rules_in_progress := (rules_in_progress fl)[r := True],
      rules_may_be_empty := if directly_empty rs r then (rules_may_be_empty fl)[r := True] else rules_may_be_empty fl\<rparr>"
    have fl1: "flags_ok rs (insert r P) fl1" unfolding fl1_def by (rule flags_ok_enter [OF fl r])
    have e1: "directly_empty rs r \<longrightarrow> rules_may_be_empty fl1 ! r" "keeps_empty rs fl fl1"
      using fl r by (auto simp: fl1_def keeps_empty_def flags_ok_def nth_list_update)
    have rule: "wf_elements (length rs) 0 (rs ! r)" using wf r by (simp add: wf_rules_def list_all_length)
    have vis: "visits rs (rs ! r) True = {s. (s, r) \<in> direct_rel rs}" using visits_rule [OF wf r] by blast
    note step = detect_Suc [OF fl r False, of n, folded fl1_def]
    from leftmost_loop_ok [OF Suc fl1 rule, of True] show ?thesis
    proof (elim disjE exE conjE)
      assume "leftmost_loop (llama_grammar_detect_left_recursion n rs) (rs ! r) True fl1 = None"
      then show ?thesis by (simp only: step run_bind_simps) simp
    next
      fix out
      assume out: "leftmost_loop (llama_grammar_detect_left_recursion n rs) (rs ! r) True fl1 = ret out"
        "outcome_ok rs (insert r P) (visits rs (rs ! r) True) out" "\<not> fst out \<longrightarrow> keeps_empty rs fl1 (snd out)"
      obtain b fl2 where b: "out = (b, fl2)" by fastforce
      show ?thesis
      proof (cases b)
        case True
        have "\<exists>q. (q, q) \<in> (direct_rel rs)\<^sup>+" if "\<forall>q \<in> P. (r, q) \<in> (direct_rel rs)\<^sup>+"
        proof -
          have "\<forall>s \<in> {s. (s, r) \<in> direct_rel rs}. \<forall>q \<in> insert r P. (s, q) \<in> (direct_rel rs)\<^sup>+"
            using that by (auto intro: trancl_into_trancl2)
          then show ?thesis using out(2) b True vis by (simp add: outcome_ok_def)
        qed
        then have "outcome_ok rs P {r} (True, fl2)" by (simp add: outcome_ok_def)
        moreover have "llama_grammar_detect_left_recursion (Suc n) rs r fl = ret (True, fl2)"
          using True b by (simp add: step out(1) del: llama_grammar_detect_left_recursion.simps)
        ultimately show ?thesis by auto
      next
        case F: False
        then have fl2: "flags_ok rs (insert r P) fl2" and "{s. (s, r) \<in> direct_rel rs} \<subseteq> Wellfounded.acc (direct_rel rs)"
          using out(2) b vis by (auto simp: outcome_ok_def)
        then have acc: "r \<in> Wellfounded.acc (direct_rel rs)" by (blast intro: accI)
        define fl3 where "fl3 = fl2\<lparr>rules_in_progress := (rules_in_progress fl2)[r := False],
          rules_visited := (rules_visited fl2)[r := True]\<rparr>"
        have fl3: "flags_ok rs P fl3" unfolding fl3_def by (rule flags_ok_leave [OF fl2 False acc])
        have "llama_grammar_detect_left_recursion (Suc n) rs r fl = ret (False, fl3)"
          using F b fl2 r by (simp add: step out(1) fl3_def flags_ok_def del: llama_grammar_detect_left_recursion.simps)
        moreover have "outcome_ok rs P {r} (False, fl3)" using fl3 acc by (simp add: outcome_ok_def)
        moreover have "(directly_empty rs r \<longrightarrow> rules_may_be_empty fl3 ! r) \<and> keeps_empty rs fl fl3"
          using e1 out(3) b F r by (auto simp: keeps_empty_def fl3_def)
        ultimately show ?thesis by auto
      qed
    qed
  qed
  then show ?case unfolding search_ok_def by blast
qed

section \<open>The search ends\<close>

lemma leftmost_loop_returns:
  assumes f: "search_ok rs f" and total: "\<And>v fl. v < length rs \<Longrightarrow> flags_ok rs P fl \<Longrightarrow> f v fl \<noteq> None"
    and "flags_ok rs P fl" and "wf_elements (length rs) m els"
  shows "leftmost_loop f els rec fl \<noteq> None"
  using assms(3,4)
proof (induction els arbitrary: rec fl m)
  case Nil
  show ?case by simp
next
  case (Cons e els)
  show ?case
  proof (cases "gtype e = LLAMA_GRETYPE_RULE_REF \<and> rec")
    case True
    then have v: "gvalue e < length rs" and els: "wf_elements (length rs) 0 els" using Cons.prems(2) by simp_all
    obtain b fl' where out: "f (gvalue e) fl = ret (b, fl')" "outcome_ok rs P {gvalue e} (b, fl')"
      using f [unfolded search_ok_def, THEN spec, THEN spec, THEN spec, THEN mp, OF v, THEN mp, OF Cons.prems(1)]
        total [OF v Cons.prems(1)] by (elim disjE exE conjE) (auto simp: split_paired_all)
    show ?thesis
    proof (cases b)
      case True': True
      with True out(1) show ?thesis by simp
    next
      case False
      then have fl': "flags_ok rs P fl'" using out(2) by (simp add: outcome_ok_def)
      then have "gvalue e < length (rules_may_be_empty fl')" using v by (simp add: flags_ok_def)
      with True False out(1) show ?thesis using Cons.IH [OF fl' els] by simp
    qed
  next
    case False
    have "els = [] \<or> (\<exists>m'. wf_elements (length rs) m' els)" using Cons.prems(2) by (cases "gtype e") auto
    with False Cons show ?thesis by auto
  qed
qed

lemma detect_returns:
  assumes wf: "wf_rules rs"
  shows "flags_ok rs P fl \<Longrightarrow> r < length rs \<Longrightarrow> length rs - card P < n \<Longrightarrow>
    llama_grammar_detect_left_recursion n rs r fl \<noteq> None"
proof (induction n arbitrary: r P fl)
  case 0
  then show ?case by simp
next
  case (Suc n)
  show ?case
  proof (cases "r \<in> P")
    case True
    then show ?thesis using Suc.prems by (simp add: flags_ok_def)
  next
    case False
    define fl1 where "fl1 = fl\<lparr>rules_in_progress := (rules_in_progress fl)[r := True],
      rules_may_be_empty := if directly_empty rs r then (rules_may_be_empty fl)[r := True] else rules_may_be_empty fl\<rparr>"
    have fl1: "flags_ok rs (insert r P) fl1" unfolding fl1_def by (rule flags_ok_enter [OF Suc.prems(1,2)])
    have rule: "wf_elements (length rs) 0 (rs ! r)" using wf Suc.prems(2) by (simp add: wf_rules_def list_all_length)
    have P: "finite P" "insert r P \<subseteq> {..<length rs}"
      using Suc.prems(1,2) finite_subset [of P "{..<length rs}"] by (auto simp: flags_ok_def)
    then have "card (insert r P) \<le> length rs" using card_mono [of "{..<length rs}" "insert r P"] by simp
    then have "length rs - card (insert r P) < n" using Suc.prems(3) False P(1) by simp
    then have "leftmost_loop (llama_grammar_detect_left_recursion n rs) (rs ! r) True fl1 \<noteq> None"
      using leftmost_loop_returns [OF detect_ok [OF wf] _ fl1 rule] Suc.IH by blast
    then show ?thesis
      using leftmost_loop_ok [OF detect_ok [OF wf] fl1 rule, of n True]
      unfolding detect_Suc [OF Suc.prems(1,2) False, of n, folded fl1_def]
      by (auto simp: outcome_ok_def flags_ok_def rupd_def split: if_splits)
  qed
qed

lemma check_rules_exact:
  assumes wf: "wf_rules rs" and n: "length rs < n"
  shows "flags_ok rs {} fl \<Longrightarrow> set is \<subseteq> {..<length rs} \<Longrightarrow>
    \<exists>b. check_rules n rs is fl = ret b \<and>
      (if b then \<exists>q. (q, q) \<in> (direct_rel rs)\<^sup>+ else set is \<subseteq> Wellfounded.acc (direct_rel rs))"
proof (induction "is" arbitrary: fl)
  case Nil
  show ?case by (intro exI [of _ False]) simp
next
  case (Cons i "is")
  have i: "i < length rs" using Cons.prems(2) by simp
  have len: "i < length (rules_visited fl)" using Cons.prems(1) i by (simp add: flags_ok_def)
  have rest: "set is \<subseteq> {..<length rs}" using Cons.prems(2) by simp
  have step: "\<exists>b. r = ret b \<and> (if b then C else set (i # is) \<subseteq> A)"
    if "\<exists>b. r = ret b \<and> (if b then C else set is \<subseteq> A)" "i \<in> A" for r C and A :: "nat set"
    using that by (metis insert_subset list.simps(15))
  show ?case
  proof (cases "rules_visited fl ! i")
    case True
    then have "i \<in> Wellfounded.acc (direct_rel rs)" using Cons.prems(1) i by (simp add: flags_ok_def)
    moreover have "check_rules n rs (i # is) fl = check_rules n rs is fl" using True len by simp
    ultimately show ?thesis using step [OF Cons.IH [OF Cons.prems(1) rest]] by simp
  next
    case False
    obtain b fl' where out: "llama_grammar_detect_left_recursion n rs i fl = ret (b, fl')" "outcome_ok rs {} {i} (b, fl')"
      using detect_ok [OF wf, of n, unfolded search_ok_def, THEN spec, THEN spec, THEN spec, THEN mp, OF i, THEN mp,
          OF Cons.prems(1)] detect_returns [OF wf Cons.prems(1) i, of n] n
      by (elim disjE exE conjE) (auto simp: split_paired_all)
    show ?thesis
    proof (cases b)
      case True
      with False len out show ?thesis by (intro exI [of _ True]) (simp add: outcome_ok_def)
    next
      case F: False
      then have fl': "flags_ok rs {} fl'" "i \<in> Wellfounded.acc (direct_rel rs)" using out(2) by (auto simp: outcome_ok_def)
      moreover have "check_rules n rs (i # is) fl = check_rules n rs is fl'" using False F len out(1) by simp
      ultimately show ?thesis using step [OF Cons.IH [OF fl'(1) rest]] by simp
    qed
  qed
qed

lemma no_flags_ok: "flags_ok rs {} (no_flags (length rs))"
  by (simp add: flags_ok_def no_flags_def)

lemma direct_rel_wf:
  assumes "{..<length rs} \<subseteq> Wellfounded.acc (direct_rel rs)"
  shows "wf (direct_rel rs)"
proof -
  have "x \<in> Wellfounded.acc (direct_rel rs)" for x
  proof (cases "x < length rs")
    case False
    then show ?thesis by - (rule accI, auto simp: direct_rel_def)
  qed (use assms in auto)
  then show ?thesis unfolding wf_iff_acc by blast
qed

text \<open>Every rule that generates the empty word has an alternate without elements.\<close>

definition empty_is_direct :: "grules \<Rightarrow> bool" where
  "empty_is_direct rs \<longleftrightarrow> (\<forall>r < length rs. language rs r [] \<longrightarrow> directly_empty rs r)"

lemma left_direct:
  assumes "empty_is_direct rs"
  shows "left_rel rs \<subseteq> direct_rel rs"
proof -
  have "direct_sees rs els s" if "sees rs els s" for els s
    using that assms by (induction els) (auto simp: empty_is_direct_def language_def)
  then show ?thesis by (auto simp: left_rel_def direct_rel_def)
qed

section \<open>Construction of the state\<close>

lemma copy_rule_wf: "wf_elements n m els \<Longrightarrow> copy_rule els = Inr els"
proof -
  assume wf: "wf_elements n m els"
  then have "els = takeWhile (\<lambda>e. gtype e \<noteq> LLAMA_GRETYPE_END) els @ [Elem LLAMA_GRETYPE_END 0]"
  proof (induction els arbitrary: m)
    case Nil
    then show ?case by simp
  next
    case (Cons e els)
    show ?case
    proof (cases "gtype e = LLAMA_GRETYPE_END")
      case True
      then show ?thesis using Cons.prems by (cases e) simp
    next
      case False
      with Cons.prems obtain m' where "wf_elements n m' els" by (cases "gtype e") auto
      with False Cons.IH show ?thesis by simp
    qed
  qed
  then show ?thesis unfolding copy_rule_def Let_def
    by (metis length_append_singleton lessI)
qed

lemma copy_rules_wf: "wf_rules rs \<Longrightarrow> copy_rules rs = Inr rs"
proof -
  have "list_all (wf_elements n 0) rs \<Longrightarrow> copy_rules rs = Inr rs" for n
    by (induction rs) (auto simp: copy_rule_wf)
  then show "wf_rules rs \<Longrightarrow> copy_rules rs = Inr rs" by (simp add: wf_rules_def)
qed

definition fresh_grammar :: "grules \<Rightarrow> gstack list \<Rightarrow> bool \<Rightarrow> nat list list \<Rightarrow> int list \<Rightarrow> llama_grammar" where
  "fresh_grammar rs sts lz words tokens = \<lparr>rules = rs, stacks = sts, partial_utf8 = \<lparr>pvalue = 0, n_remain = 0\<rparr>,
     lazy = lz, awaiting_trigger = lz, trigger_buffer = [], trigger_tokens = tokens, trigger_words = words\<rparr>"

lemma init_cases:
  assumes "wf_rules rs" and "length rs < n"
  obtains "llama_grammar_init_impl n rs start lz words tokens = ret None" "\<exists>q. (q, q) \<in> (direct_rel rs)\<^sup>+"
  | "llama_grammar_init_impl n rs start lz words tokens =
       run_bind (initial_stacks n rs start) (\<lambda>sts. ret (Some (fresh_grammar rs sts lz words tokens)))"
    "wf (direct_rel rs)"
proof -
  have "set [0..<length rs] \<subseteq> {..<length rs}" by auto
  then obtain b where b: "check_rules n rs [0..<length rs] (no_flags (length rs)) = ret b"
    "if b then \<exists>q. (q, q) \<in> (direct_rel rs)\<^sup>+ else set [0..<length rs] \<subseteq> Wellfounded.acc (direct_rel rs)"
    using check_rules_exact [OF assms no_flags_ok, of "[0..<length rs]"] by blast
  show thesis
  proof (cases b)
    case True
    with b show ?thesis by (intro that(1)) (simp_all add: llama_grammar_init_impl_def copy_rules_wf [OF assms(1)])
  next
    case False
    with b(2) have "wf (direct_rel rs)" by (intro direct_rel_wf) (simp add: lessThan_atLeast0)
    with False b(1) show ?thesis
      by (intro that(2)) (simp_all add: llama_grammar_init_impl_def copy_rules_wf [OF assms(1)] fresh_grammar_def)
  qed
qed

lemma wf_no_cycle: "wf r \<Longrightarrow> (q, q) \<notin> r\<^sup>+"
  by (meson wf_irrefl wf_trancl)

lemma init_follows:
  assumes "wf_rules rs" and "no_left_recursion rs" and "start < length rs"
  shows "\<exists>n g g'. llama_grammar_init_impl n rs start lz words tokens = ret (Some g) \<and>
    accept_all n g w = ret g' \<and> (\<forall>v. possible g' v \<longleftrightarrow> language rs start (w @ v)) \<and>
    ([] \<in> set (stacks g') \<longleftrightarrow> language rs start w)"
proof -
  obtain n1 where n1: "initial_stacks n1 rs start \<noteq> None" using initial_returns [OF assms] by blast
  then obtain sts where sts: "initial_stacks n1 rs start = ret sts" "\<forall>st \<in> set sts. ready rs st"
    "\<And>w. language rs start w \<longleftrightarrow> (\<exists>st \<in> set sts. stack_gen rs st w)"
    using initial_closes [OF assms(1,3), of n1] by metis
  define g where "g = fresh_grammar rs sts lz words tokens"
  have g: "grammar_ok g" "rules g = rs" using sts(2) assms(1) by (simp_all add: g_def grammar_ok_def fresh_grammar_def)
  obtain n2 g' where g': "accept_all n2 g w = ret g'" "grammar_ok g'" "\<forall>v. possible g' v \<longleftrightarrow> possible g (w @ v)"
    using accept_all_returns [OF g(1)] g(2) assms(2) by blast
  define n where "n = max (Suc (length rs)) (max n1 n2)"
  have "run_le (initial_stacks n1 rs start) (initial_stacks n rs start)"
    unfolding initial_stacks_def n_def by (intro run_le_bind run_le_refl run_le_fold advance_le) simp_all
  then have i: "initial_stacks n rs start = ret sts" using sts(1) by (simp add: run_le_def)
  have acc: "accept_all n g w = ret g'"
    using accept_all_le [of n2 n g w] g'(1) by (simp add: n_def run_le_def)
  have init: "llama_grammar_init_impl n rs start lz words tokens = ret (Some g)"
  proof (rule init_cases [OF assms(1), of n])
    show "length rs < n" by (simp add: n_def less_max_iff_disj)
  next
    assume "\<exists>q. (q, q) \<in> (direct_rel rs)\<^sup>+"
    moreover have "wf (direct_rel rs)"
      by (rule wf_subset [OF assms(2) [unfolded no_left_recursion_def] direct_left [OF assms(1)]])
    ultimately show ?thesis using wf_no_cycle by metis
  next
    assume "llama_grammar_init_impl n rs start lz words tokens =
      run_bind (initial_stacks n rs start) (\<lambda>sts. ret (Some (fresh_grammar rs sts lz words tokens)))"
    then show ?thesis by (simp add: i g_def)
  qed
  have lang: "possible g' v \<longleftrightarrow> language rs start (w @ v)" for v
    using g'(3) sts(3) by (simp add: possible_def g_def fresh_grammar_def)
  moreover have "[] \<in> set (stacks g') \<longleftrightarrow> language rs start w"
    using possible_Nil [OF g'(2)] lang [of "[]"] by simp
  ultimately show ?thesis using init acc by blast
qed

text \<open>C2: For a well-formed grammar without left recursion, \<open>llama_grammar_init_impl\<close> returns a state,
  accepting the characters of a word returns, and the automaton then stands exactly where the word
  leads: what can still follow is what completes the word to a word of the grammar, and the token
  that ends generation is allowed exactly when the word is one.\<close>

theorem automaton_follows_language:
  assumes "wf_rules rs" and "no_left_recursion rs" and "start < length rs"
  shows "\<exists>n g g'. llama_grammar_init_impl n rs start lz words tokens = ret (Some g) \<and>
    accept_all n g w = ret g' \<and> (\<forall>v. possible g' v \<longleftrightarrow> language rs start (w @ v)) \<and>
    ([] \<in> set (stacks g') \<longleftrightarrow> language rs start w)"
  by (rule init_follows [OF assms])

text \<open>A grammar as the parser makes it of \<open>root ::= "a" root | "b"\<close>.\<close>

definition example_rules :: grules where
  "example_rules = [[Elem LLAMA_GRETYPE_CHAR 97, Elem LLAMA_GRETYPE_RULE_REF 0, Elem LLAMA_GRETYPE_ALT 0,
     Elem LLAMA_GRETYPE_CHAR 98, Elem LLAMA_GRETYPE_END 0]]"

lemma example_rules_ok: "wf_rules example_rules" "no_left_recursion example_rules" "empty_is_direct example_rules"
proof -
  show "wf_rules example_rules" by code_simp
  have "left_rel example_rules = {}"
    by (auto simp: left_rel_def example_rules_def is_alternate_later)
  then show "no_left_recursion example_rules" by (simp add: no_left_recursion_def)
  show "empty_is_direct example_rules"
    by (auto simp: empty_is_direct_def language_def example_rules_def is_alternate_later gen_Cons
      llama_grammar_is_end_of_sequence_def)
qed

theorem automaton_follows_language_witness:
  "\<exists>n g g'. llama_grammar_init_impl n example_rules 0 False [] [] = ret (Some g) \<and>
    accept_all n g [97, 98] = ret g' \<and> [] \<in> set (stacks g')"
proof -
  obtain n g g' where g: "llama_grammar_init_impl n example_rules 0 False [] [] = ret (Some g)"
    "accept_all n g [97, 98] = ret g'" "[] \<in> set (stacks g') \<longleftrightarrow> language example_rules 0 [97, 98]"
    using automaton_follows_language [OF example_rules_ok(1,2), of 0 False "[]" "[]" "[97, 98]"]
    by (auto simp: example_rules_def)
  have b: "gen example_rules [Elem LLAMA_GRETYPE_CHAR 98, Elem LLAMA_GRETYPE_END 0] [98]"
    by (rule gen_char) (auto simp: in_class_def span_def intro: gen_end simp: llama_grammar_is_end_of_sequence_def)
  have "gen example_rules [Elem LLAMA_GRETYPE_RULE_REF 0, Elem LLAMA_GRETYPE_ALT 0,
      Elem LLAMA_GRETYPE_CHAR 98, Elem LLAMA_GRETYPE_END 0] ([98] @ [])"
    by (rule gen_ref [OF _ _ _ b])
      (auto simp: example_rules_def is_alternate_later llama_grammar_is_end_of_sequence_def intro: gen_end)
  then have "gen example_rules (example_rules ! 0) [97, 98]"
    unfolding example_rules_def by (auto simp: gen_Cons in_class_def span_def)
  then have "language example_rules 0 [97, 98]" by (auto simp: language_def example_rules_def is_alternate_def)
  with g show ?thesis by blast
qed

text \<open>C23: When every rule that can generate the empty word has an empty alternate, the search returns
  and rejects exactly the left-recursive grammars.\<close>

theorem left_recursion_rejected:
  assumes "wf_rules rs" and "empty_is_direct rs" and "start < length rs" and "length rs < n"
  shows "llama_grammar_init_impl n rs start lz words tokens = ret None \<longleftrightarrow> \<not> no_left_recursion rs"
proof (rule init_cases [OF assms(1,4)])
  assume "llama_grammar_init_impl n rs start lz words tokens = ret None" "\<exists>q. (q, q) \<in> (direct_rel rs)\<^sup>+"
  moreover from this(2) have "\<not> wf (direct_rel rs)" using wf_no_cycle by metis
  ultimately show ?thesis using wf_subset [OF _ direct_left [OF assms(1)]] unfolding no_left_recursion_def by blast
next
  assume i: "llama_grammar_init_impl n rs start lz words tokens =
      run_bind (initial_stacks n rs start) (\<lambda>sts. ret (Some (fresh_grammar rs sts lz words tokens)))"
    and wf: "wf (direct_rel rs)"
  have "no_left_recursion rs" using wf_subset [OF wf left_direct [OF assms(2)]] unfolding no_left_recursion_def .
  moreover have "llama_grammar_init_impl n rs start lz words tokens \<noteq> ret None"
    using initial_closes [OF assms(1,3), of n] unfolding i by (auto simp: run_bind_def split: option.splits sum.splits)
  ultimately show ?thesis by blast
qed

theorem left_recursion_rejected_witness:
  "llama_grammar_init_impl 5 example_rules 0 False [] [] \<noteq> ret None"
  using left_recursion_rejected [OF example_rules_ok(1,3), of 0 5 False "[]" "[]"] example_rules_ok(2)
  by (simp add: example_rules_def)

section \<open>Left recursion the search misses\<close>

text \<open>The rules of \<open>root ::= ws root | "x"\<close> with \<open>ws ::= [ ]*\<close>: \<open>ws\<close> can be empty, but only through
  the rule made for the repetition.\<close>

definition hidden_rules :: grules where
  "hidden_rules =
    [[Elem LLAMA_GRETYPE_RULE_REF 1, Elem LLAMA_GRETYPE_RULE_REF 0, Elem LLAMA_GRETYPE_ALT 0,
      Elem LLAMA_GRETYPE_CHAR 120, Elem LLAMA_GRETYPE_END 0],
     [Elem LLAMA_GRETYPE_RULE_REF 2, Elem LLAMA_GRETYPE_END 0],
     [Elem LLAMA_GRETYPE_CHAR 32, Elem LLAMA_GRETYPE_RULE_REF 2, Elem LLAMA_GRETYPE_ALT 0, Elem LLAMA_GRETYPE_END 0]]"

lemma hidden_alternates:
  "alternates 0 (hidden_rules ! 0) = Inr [0, 3]" "alternates 0 (hidden_rules ! 1) = Inr [0]"
  "alternates 0 (hidden_rules ! 2) = Inr [0, 3]" "length hidden_rules = 3"
  by code_simp+

lemma hidden_at:
  "\<exists>els. at hidden_rules (0, 0) = Elem LLAMA_GRETYPE_RULE_REF 1 # els"
  "\<exists>els. at hidden_rules (0, 1) = Elem LLAMA_GRETYPE_RULE_REF 0 # els"
  "\<exists>els. at hidden_rules (1, 0) = Elem LLAMA_GRETYPE_RULE_REF 2 # els"
  "\<exists>els. at hidden_rules (2, 0) = Elem LLAMA_GRETYPE_CHAR 32 # els"
  by (simp_all add: at_def hidden_rules_def)

lemma hidden_push:
  "push hidden_rules (0, 1) st = Inr ((0, 1) # st)" "push hidden_rules (0, 2) st = Inr st"
  "push hidden_rules (1, 0) st = Inr ((1, 0) # st)" "push hidden_rules (1, 1) st = Inr st"
  "push hidden_rules (2, 0) st = Inr ((2, 0) # st)" "push hidden_rules (2, 3) st = Inr st"
  "push hidden_rules (0, 0) st = Inr ((0, 0) # st)"
  by (simp_all add: push_def at_def hidden_rules_def llama_grammar_is_end_of_sequence_def)

lemma advance_at_ref:
  assumes "at rs pos = e # els" "gtype e = LLAMA_GRETYPE_RULE_REF" "gvalue e < length rs"
    "alternates 0 (rs ! gvalue e) = Inr js"
  shows "llama_grammar_advance_stack (Suc n) rs (pos # rest) acc =
    run_fold (\<lambda>j new_stacks.
      run_bind (Some (push rs (shift pos 1) rest)) (\<lambda>st.
      run_bind (Some (push rs (gvalue e, j) st)) (\<lambda>st'.
      llama_grammar_advance_stack n rs st' new_stacks))) js acc"
  using assms by simp

lemma hidden_steps:
  "llama_grammar_advance_stack n hidden_rules ((1, 0) # (0, 1) # st) acc = None \<Longrightarrow>
     llama_grammar_advance_stack (Suc n) hidden_rules ((0, 0) # st) acc = None"
  "(\<And>acc. llama_grammar_advance_stack n hidden_rules st acc = None) \<Longrightarrow>
     llama_grammar_advance_stack (Suc n) hidden_rules ((1, 0) # st) acc = None"
  "llama_grammar_advance_stack n hidden_rules ((0, 0) # st) acc = None \<Longrightarrow>
     llama_grammar_advance_stack (Suc n) hidden_rules ((0, 1) # st) acc = None"
proof -
  obtain a b c where a: "at hidden_rules (0, 0) = Elem LLAMA_GRETYPE_RULE_REF 1 # a"
    and b: "at hidden_rules (0, 1) = Elem LLAMA_GRETYPE_RULE_REF 0 # b"
    and c: "at hidden_rules (1, 0) = Elem LLAMA_GRETYPE_RULE_REF 2 # c"
    using hidden_at by blast
  show "llama_grammar_advance_stack n hidden_rules ((1, 0) # (0, 1) # st) acc = None \<Longrightarrow>
     llama_grammar_advance_stack (Suc n) hidden_rules ((0, 0) # st) acc = None"
    by (subst advance_at_ref [OF a, of "[0]"]) (simp_all add: hidden_alternates hidden_alternates [simplified] hidden_push [simplified])
  obtain d where d: "at hidden_rules (2, 0) = Elem LLAMA_GRETYPE_CHAR 32 # d" using hidden_at by blast
  have char: "llama_grammar_advance_stack n hidden_rules ((2, 0) # st) acc \<in> {None, ret (add_stack ((2, 0) # st) acc)}"
    by (cases n) (simp_all add: d)
  show "(\<And>acc. llama_grammar_advance_stack n hidden_rules st acc = None) \<Longrightarrow>
     llama_grammar_advance_stack (Suc n) hidden_rules ((1, 0) # st) acc = None"
    by (subst advance_at_ref [OF c, of "[0, 3]"])
      (use char in \<open>auto simp: hidden_alternates hidden_push [simplified]\<close>)
  show "llama_grammar_advance_stack n hidden_rules ((0, 0) # st) acc = None \<Longrightarrow>
     llama_grammar_advance_stack (Suc n) hidden_rules ((0, 1) # st) acc = None"
    by (subst advance_at_ref [OF b, of "[0, 3]"])
      (simp_all add: hidden_alternates hidden_push [simplified] hidden_push [unfolded numeral_2_eq_2])
qed

lemma hidden_never: "llama_grammar_advance_stack n hidden_rules ((0, 0) # st) acc = None"
proof (induction n arbitrary: acc rule: less_induct)
  case (less n)
  consider "n = 0" | "n = 1" | "n = 2" | k where "n = Suc (Suc (Suc k))"
    by (metis One_nat_def Suc_1 not0_implies_Suc)
  then show ?case
  proof cases
    case 1
    then show ?thesis by simp
  next
    case 2
    then show ?thesis using hidden_steps(1) [of 0] by simp
  next
    case 3
    have "llama_grammar_advance_stack (Suc 0) hidden_rules ((1, 0) # (0, 1) # st) acc = None"
      by (rule hidden_steps(2)) simp
    then show ?thesis using hidden_steps(1) [of "Suc 0"] 3 by (simp add: numeral_2_eq_2)
  next
    case (4 k)
    have "llama_grammar_advance_stack (Suc k) hidden_rules ((0, 1) # st) acc' = None" for acc'
      by (rule hidden_steps(3)) (rule less, simp add: 4)
    then show ?thesis unfolding 4 by (intro hidden_steps(1,2))
  qed
qed

text \<open>C24: For that grammar the search reports no left recursion, and the construction of the state then
  calls itself without end: it returns at no depth.\<close>

theorem hidden_left_recursion:
  "check_rules 4 hidden_rules [0..<3] (no_flags 3) = ret False \<and>
   llama_grammar_init_impl n hidden_rules 0 False [] [] = None"
proof
  show "check_rules 4 hidden_rules [0..<3] (no_flags 3) = ret False" by code_simp
  have wf: "wf_rules hidden_rules" by code_simp
  have check: "check_rules 4 hidden_rules [0..<length hidden_rules] (no_flags (length hidden_rules)) = ret False"
    by code_simp
  have acc: "{..<length hidden_rules} \<subseteq> Wellfounded.acc (direct_rel hidden_rules)"
  proof -
    have "length hidden_rules < 4" "set [0..<length hidden_rules] \<subseteq> {..<length hidden_rules}"
      by (auto simp: hidden_alternates)
    from check_rules_exact [OF wf this(1) no_flags_ok this(2)] show ?thesis
      unfolding check atLeast_upt by (auto simp: subset_iff)
  qed
  have init: "initial_stacks n hidden_rules 0 = None"
    unfolding initial_stacks_def by (simp add: hidden_alternates hidden_push hidden_never)
  show "llama_grammar_init_impl n hidden_rules 0 False [] [] = None"
  proof (cases "length hidden_rules < n")
    case True
    show ?thesis
    proof (rule init_cases [OF wf True])
      assume "\<exists>q. (q, q) \<in> (direct_rel hidden_rules)\<^sup>+"
      then show ?thesis using wf_no_cycle [OF direct_rel_wf [OF acc]] by blast
    next
      assume "llama_grammar_init_impl n hidden_rules 0 False [] [] =
        run_bind (initial_stacks n hidden_rules 0) (\<lambda>sts. ret (Some (fresh_grammar hidden_rules sts False [] [])))"
      then show ?thesis by (simp add: init)
    qed
  next
    case False
    then consider "n = 0" | "n = 1" | "n = 2" | "n = 3" by (fastforce simp: hidden_alternates)
    then show ?thesis by cases (simp only:, code_simp)+
  qed
qed

section \<open>Cloning\<close>

lemma redirect_inside:
  assumes "r < length rs" and "i < length (rs ! r)"
  shows "redirect rs (Original, r, i) = (Clone, r, i)"
proof -
  have inner: "fold (\<lambda>ir1 q. if (Original, r, i) = (Original, ir0, ir1) then (Clone, ir0, ir1) else q) xs q =
      (if r = ir0 \<and> i \<in> set xs then (Clone, r, i) else q)" for ir0 xs q
    by (induction xs arbitrary: q) auto
  have "fold (\<lambda>ir0. fold (\<lambda>ir1 q. if (Original, r, i) = (Original, ir0, ir1) then (Clone, ir0, ir1) else q)
      [0..<length (rs ! ir0)]) xs q = (if r \<in> set xs then (Clone, r, i) else q)" for xs q
    unfolding inner using assms(2) by (induction xs arbitrary: q) auto
  then show ?thesis using assms(1) unfolding redirect_def by simp
qed

text \<open>C25: \<open>llama_grammar_clone_impl\<close> copies the whole state and leaves no pointer into the original: every
  position on a stack of a well-formed grammar becomes the same position in the rules of the clone.\<close>

theorem clone_redirects_all:
  assumes "grammar_ok g"
  shows "llama_grammar_clone_impl g = (g, map (map (Pair Clone)) (stacks g))"
proof -
  have "redirect (rules g) (Original, p) = (Clone, p)" if st: "st \<in> set (stacks g)" "p \<in> set st" for st p
  proof -
    have "pos_ok (rules g) p" using assms st by (auto simp: grammar_ok_def ready_def stack_ok_def)
    then have "fst p < length (rules g)" "snd p < length (rules g ! fst p)"
      using pos_ok_at [of "rules g" p] by (auto simp: pos_ok_def at_def intro: ccontr)
    then show ?thesis using redirect_inside [of "fst p" "rules g" "snd p"] by simp
  qed
  then have sts: "map (map (\<lambda>p. redirect (rules g) (Original, p))) (stacks g) = map (map (Pair Clone)) (stacks g)"
    by simp
  have "map (map snd) (map (map (Pair Clone)) (stacks g)) = stacks g" by (simp add: comp_def)
  then show ?thesis unfolding llama_grammar_clone_impl_def Let_def sts by simp
qed

theorem clone_redirects_all_witness:
  "\<exists>g. rules g = example_rules \<and> stacks g = [[(0, 0)]] \<and> llama_grammar_clone_impl g = (g, [[(Clone, (0, 0))]])"
proof -
  define g where "g = fresh_grammar example_rules [[(0, 0)]] False [] []"
  have "grammar_ok g" unfolding g_def grammar_ok_def fresh_grammar_def using example_rules_ok(1)
    by (auto simp: ready_def stack_ok_def pos_ok_def at_def example_rules_def llama_grammar_is_end_of_sequence_def)
  from clone_redirects_all [OF this] show ?thesis
    by (intro exI [of _ g]) (simp add: g_def fresh_grammar_def)
qed

end
