(* ===== verification/GrammarFilter.thy ===== *)
theory GrammarFilter
  imports GrammarInit
begin

text \<open>
  The filter for candidate tokens. \<open>llama_grammar_reject_candidates\<close> walks all candidates through the
  grammar at once; it is shown to reject exactly the tokens that the automaton, fed with them one by
  one, could not have taken. So a token that survives \<open>llama_grammar_apply_impl\<close> can be accepted.
\<close>

section \<open>The text of a candidate\<close>

definition word :: "llama_grammar_candidate \<Rightarrow> nat list" where
  "word t = takeWhile (\<lambda>c. c \<noteq> 0) (drop (off t) (code_points t))"

definition cand_ok :: "llama_grammar_candidate \<Rightarrow> bool" where
  "cand_ok t \<longleftrightarrow> 0 \<in> set (drop (off t) (code_points t))"

lemma current_word:
  assumes "cand_ok t"
  shows "current t = Inr (case word t of [] \<Rightarrow> 0 | c # _ \<Rightarrow> c)" "word t = c # w \<Longrightarrow> c \<noteq> 0"
proof -
  obtain x xs where x: "drop (off t) (code_points t) = x # xs" using assms by (cases "drop (off t) (code_points t)") (auto simp: cand_ok_def)
  then have "off t < length (code_points t)" "code_points t ! off t = x"
    by (auto simp: drop_eq_Nil2 nth_via_drop intro: ccontr)
  then show "current t = Inr (case word t of [] \<Rightarrow> 0 | c # _ \<Rightarrow> c)" using x by (simp add: current_def word_def)
  show "word t = c # w \<Longrightarrow> c \<noteq> 0" using x by (auto simp: word_def split: if_splits)
qed

lemma forward_word: "cand_ok t \<Longrightarrow> word t = c # w \<Longrightarrow> cand_ok (forward t) \<and> word (forward t) = w"
proof -
  assume ok: "cand_ok t" and w: "word t = c # w"
  obtain x xs where x: "drop (off t) (code_points t) = x # xs" using w by (cases "drop (off t) (code_points t)") (auto simp: word_def)
  have "drop (Suc (off t)) (code_points t) = xs" using x by (metis drop_Suc tl_drop list.sel(3))
  with ok w x show ?thesis by (auto simp: cand_ok_def word_def forward_def split: if_splits)
qed

lemma backward_forward [simp]: "backward (forward t) = t"
  by (simp add: forward_def backward_def)

lemma partial_forward [simp]: "partial (forward t) = partial t"
  by (simp add: forward_def)

section \<open>Feeding a token to one stack\<close>

definition next_stacks :: "nat \<Rightarrow> grules \<Rightarrow> nat \<Rightarrow> gstack \<Rightarrow> gstack set" where
  "next_stacks n rs c st = (case accept_stack n rs c st [] of Some (Inr sts) \<Rightarrow> set sts | _ \<Rightarrow> {})"

fun feed :: "nat \<Rightarrow> grules \<Rightarrow> gstack \<Rightarrow> nat list \<Rightarrow> gstack set" where
  "feed n rs st [] = {st}"
| "feed n rs st (c # w) = (\<Union>s \<in> next_stacks n rs c st. feed n rs s w)"

text \<open>A stack goes on with what a token leaves of a character: nothing, or bytes that can still become
  a character it takes.\<close>

definition fits :: "grules \<Rightarrow> gstack \<Rightarrow> llama_partial_utf8 \<Rightarrow> bool" where
  "fits rs st p \<longleftrightarrow> n_remain p = 0 \<or>
     (st \<noteq> [] \<and> llama_grammar_match_partial_char (at rs (hd st)) p = Inr True)"

definition takes :: "nat \<Rightarrow> grules \<Rightarrow> gstack \<Rightarrow> llama_grammar_candidate \<Rightarrow> bool" where
  "takes n rs st t \<longleftrightarrow> (\<exists>s \<in> feed n rs st (word t). fits rs s (partial t))"

lemma match_partial_returns:
  assumes "wf_elements n 1 els"
  shows "\<exists>b. match_partial_loop (e # els) low high pos = Inr b"
  using assms
proof (induction els arbitrary: e rule: length_induct)
  case (1 els)
  obtain e1 els1 where els: "els = e1 # els1" using "1.prems" by (cases els) auto
  consider (rng) "gtype e1 = LLAMA_GRETYPE_CHAR_RNG_UPPER" | (alt) "gtype e1 = LLAMA_GRETYPE_CHAR_ALT"
    | (other) "gtype e1 \<notin> {LLAMA_GRETYPE_CHAR_ALT, LLAMA_GRETYPE_CHAR_RNG_UPPER}" by auto
  then show ?case
  proof cases
    case rng
    with els "1.prems" have wf2: "wf_elements n 2 els1" by simp
    then obtain e2 els2 where els1: "els1 = e2 # els2" by (cases els1) auto
    have "wf_elements n 1 els2" if "gtype e2 = LLAMA_GRETYPE_CHAR_ALT" using wf2 els1 that by simp
    with rng els els1 show ?thesis using "1.IH" [rule_format, of els2 e2] by auto
  next
    case alt
    with els "1.prems" have "wf_elements n 1 els1" by simp
    with alt els show ?thesis using "1.IH" [rule_format, of els1 e1] by auto
  next
    case other
    with els show ?thesis by auto
  qed
qed

lemma match_partial_char_returns:
  assumes "wf_elements n 0 els"
    and "gtype (hd els) \<in> {LLAMA_GRETYPE_CHAR, LLAMA_GRETYPE_CHAR_NOT, LLAMA_GRETYPE_CHAR_ANY}"
  shows "\<exists>b. llama_grammar_match_partial_char els p = Inr b"
proof -
  obtain e els' where els: "els = e # els'" using assms(1) by (cases els) auto
  have "wf_elements n 1 els'" using assms els wf_weaken by auto
  from match_partial_returns [OF this] show ?thesis
    using els assms(2) by (auto simp: llama_grammar_match_partial_char_def is_positive_char_def Let_def case_prod_unfold)
qed

lemma classify_spec:
  assumes wf: "wf_elements n 0 els"
    and ty: "gtype (hd els) \<in> {LLAMA_GRETYPE_CHAR, LLAMA_GRETYPE_CHAR_NOT, LLAMA_GRETYPE_CHAR_ANY}"
    and "\<forall>t \<in> set cands. cand_ok t"
  shows "\<exists>rej nxt. classify els cands = Inr (rej, nxt) \<and>
    set rej = {t \<in> set cands. case word t of
        [] \<Rightarrow> n_remain (partial t) \<noteq> 0 \<and> llama_grammar_match_partial_char els (partial t) \<noteq> Inr True
      | c # _ \<Rightarrow> \<not> in_class els c} \<and>
    set nxt = forward ` {t \<in> set cands. case word t of [] \<Rightarrow> False | c # _ \<Rightarrow> in_class els c}"
  using assms(3)
proof (induction cands)
  case Nil
  show ?case by simp
next
  case (Cons t cands)
  then obtain rej nxt where IH: "classify els cands = Inr (rej, nxt)"
    "set rej = {t \<in> set cands. case word t of
        [] \<Rightarrow> n_remain (partial t) \<noteq> 0 \<and> llama_grammar_match_partial_char els (partial t) \<noteq> Inr True
      | c # _ \<Rightarrow> \<not> in_class els c}"
    "set nxt = forward ` {t \<in> set cands. case word t of [] \<Rightarrow> False | c # _ \<Rightarrow> in_class els c}" by auto
  have t: "cand_ok t" using Cons.prems by simp
  obtain b where b: "llama_grammar_match_partial_char els (partial t) = Inr b"
    using match_partial_char_returns [OF wf ty] by blast
  show ?case
  proof (cases "word t")
    case Nil
    with current_word(1) [OF t] IH b show ?thesis by (auto split: if_splits)
  next
    case (Cons c w)
    with current_word [OF t] IH match_char_class [OF wf ty, of c] show ?thesis by auto
  qed
qed

section \<open>The filter rejects what cannot be taken\<close>

definition filters :: "nat \<Rightarrow> grules \<Rightarrow> (gstack \<Rightarrow> llama_grammar_candidate list \<Rightarrow> llama_grammar_candidate list run) \<Rightarrow> bool" where
  "filters n rs f \<longleftrightarrow> (\<forall>st cands rej. ready rs st \<longrightarrow> (\<forall>t \<in> set cands. cand_ok t) \<longrightarrow> f st cands = ret rej \<longrightarrow>
     set rej = {t \<in> set cands. \<not> takes n rs st t})"

lemma filtersD:
  "filters n rs f \<Longrightarrow> ready rs st \<Longrightarrow> \<forall>t \<in> set cands. cand_ok t \<Longrightarrow> f st cands = ret rej \<Longrightarrow>
   set rej = {t \<in> set cands. \<not> takes n rs st t}"
  unfolding filters_def by blast

lemma filters_fold:
  assumes f: "filters n rs f"
  shows "\<forall>st \<in> set sts. ready rs st \<Longrightarrow> \<forall>t \<in> set cands. cand_ok t \<Longrightarrow> run_fold f sts cands = ret rej \<Longrightarrow>
    set rej = {t \<in> set cands. \<forall>st \<in> set sts. \<not> takes n rs st t}"
proof (induction sts arbitrary: cands)
  case Nil
  then show ?case by simp
next
  case (Cons st sts)
  then obtain mid where mid: "f st cands = ret mid" "run_fold f sts mid = ret rej" by (auto simp: res_simps)
  have m: "set mid = {t \<in> set cands. \<not> takes n rs st t}"
    using filtersD [OF f _ Cons.prems(2) mid(1)] Cons.prems(1) by simp
  then have "set rej = {t \<in> set mid. \<forall>st \<in> set sts. \<not> takes n rs st t}"
    using Cons.IH [OF _ _ mid(2)] Cons.prems(1,2) by simp
  with m show ?case by auto
qed

lemma reject_stacks_spec:
  assumes "filters n rs f" and "\<forall>st \<in> set sts. ready rs st" and "\<forall>t \<in> set cands. cand_ok t"
    and "reject_stacks f sts cands = ret rej"
  shows "set rej = {t \<in> set cands. \<forall>st \<in> set sts. \<not> takes n rs st t}"
proof (cases sts)
  case Nil
  with assms(4) show ?thesis by (simp add: reject_stacks_def)
next
  case (Cons st sts')
  show ?thesis
  proof (cases "cands = []")
    case True
    with assms(4) Cons show ?thesis by (simp add: reject_stacks_def)
  next
    case False
    with assms(4) Cons have "run_fold f sts cands = ret rej" by (simp add: reject_stacks_def)
    from filters_fold [OF assms(1-3) this] show ?thesis .
  qed
qed

lemma takes_Nil: "word t = [] \<Longrightarrow> takes n rs st t \<longleftrightarrow> fits rs st (partial t)"
  by (simp add: takes_def)

lemma takes_Cons:
  "cand_ok t \<Longrightarrow> word t = c # w \<Longrightarrow> takes n rs st t \<longleftrightarrow> (\<exists>s \<in> next_stacks n rs c st. takes n rs s (forward t))"
  using forward_word [of t c w] by (auto simp: takes_def)

lemma reject_empty_spec:
  "\<forall>t \<in> set cands. cand_ok t \<Longrightarrow>
   \<exists>rej. reject_empty cands = Inr rej \<and> set rej = {t \<in> set cands. \<not> takes n rs [] t}"
proof (induction cands)
  case Nil
  show ?case by simp
next
  case (Cons t cands)
  then obtain rej where IH: "reject_empty cands = Inr rej" "set rej = {t \<in> set cands. \<not> takes n rs [] t}" by auto
  have t: "cand_ok t" using Cons.prems by simp
  have "takes n rs [] t \<longleftrightarrow> word t = [] \<and> n_remain (partial t) = 0"
  proof (cases "word t")
    case Nil
    then show ?thesis by (simp add: takes_Nil fits_def)
  next
    case (Cons c w)
    then show ?thesis using takes_Cons [OF t Cons] by (simp add: next_stacks_def accept_stack_def)
  qed
  then show ?case using IH current_word [OF t] by (auto split: list.splits)
qed

text \<open>What a ready stack at a range does with a character.\<close>

lemma ready_step:
  assumes wf: "wf_rules rs" and st: "ready rs (p # rest)"
  obtains st' where "stack_ok rs st'" "push rs (shift p (span (at rs p))) rest = Inr st'"
    "\<And>c. llama_grammar_match_char (at rs p) c = Inr (in_class (at rs p) c, span (at rs p))"
    "\<And>n c acc. accept_stack n rs c (p # rest) acc =
       (if in_class (at rs p) c then llama_grammar_advance_stack n rs st' acc else ret acc)"
proof -
  have p: "pos_ok rs p" and rest: "stack_ok rs rest" using st by (simp_all add: ready_def stack_ok_def)
  have ty: "gtype (hd (at rs p)) \<in> {LLAMA_GRETYPE_CHAR, LLAMA_GRETYPE_CHAR_NOT, LLAMA_GRETYPE_CHAR_ANY}"
    using st by (simp add: ready_def)
  note next_ok = pos_ok_after_class(1) [OF p ty] and m = pos_ok_after_class(2) [OF p ty]
  note push = push_ok [OF next_ok, of rest]
  show thesis
    by (rule that [OF stack_ok_push [OF next_ok rest] push m]) (simp add: accept_stack_def m push)
qed

lemma reject_for_stack_spec:
  assumes wf: "wf_rules rs"
  shows "filters n rs (llama_grammar_reject_candidates_for_stack d n rs)"
proof (induction d)
  case 0
  show ?case by (simp add: filters_def)
next
  case (Suc d)
  have "set rej = {t \<in> set cands. \<not> takes n rs st t}"
    if st: "ready rs st" and ok: "\<forall>t \<in> set cands. cand_ok t"
      and run: "llama_grammar_reject_candidates_for_stack (Suc d) n rs st cands = ret rej" for st cands rej
  proof (cases st)
    case Nil
    then show ?thesis using run reject_empty_spec [OF ok, of n rs] by auto
  next
    case (Cons p rest)
    obtain st' where st': "stack_ok rs st'" "push rs (shift p (span (at rs p))) rest = Inr st'"
      "\<And>c. llama_grammar_match_char (at rs p) c = Inr (in_class (at rs p) c, span (at rs p))"
      "\<And>n c acc. accept_stack n rs c (p # rest) acc =
         (if in_class (at rs p) c then llama_grammar_advance_stack n rs st' acc else ret acc)"
      using ready_step [OF wf st [unfolded Cons]] by blast
    have els: "wf_elements (length rs) 0 (at rs p)"
      "gtype (hd (at rs p)) \<in> {LLAMA_GRETYPE_CHAR, LLAMA_GRETYPE_CHAR_NOT, LLAMA_GRETYPE_CHAR_ANY}"
      using st Cons by (simp_all add: ready_def stack_ok_def pos_ok_def)
    obtain rej1 nxt where cl: "classify (at rs p) cands = Inr (rej1, nxt)"
      "set rej1 = {t \<in> set cands. case word t of
          [] \<Rightarrow> n_remain (partial t) \<noteq> 0 \<and> llama_grammar_match_partial_char (at rs p) (partial t) \<noteq> Inr True
        | c # _ \<Rightarrow> \<not> in_class (at rs p) c}"
      "set nxt = forward ` {t \<in> set cands. case word t of [] \<Rightarrow> False | c # _ \<Rightarrow> in_class (at rs p) c}"
      using classify_spec [OF els ok] by blast
    from run obtain sts rej2 where sts: "llama_grammar_advance_stack n rs st' [] = ret sts"
      "reject_stacks (llama_grammar_reject_candidates_for_stack d n rs) sts nxt = ret rej2"
      "rej = rej1 @ map backward rej2"
      using st'(2,3) by (auto simp: Cons cl(1) res_simps)
    have ready: "\<forall>s \<in> set sts. ready rs s"
      using advance_result [OF wf st'(1) sts(1)] by (simp add: closes_def)
    have nxt_ok: "\<forall>t \<in> set nxt. cand_ok t"
      using ok forward_word unfolding cl(3) by (fastforce split: list.splits)
    note r2 = reject_stacks_spec [OF Suc ready nxt_ok sts(2)]
    have rejected: "takes n rs st t \<longleftrightarrow> (case word t of
          [] \<Rightarrow> n_remain (partial t) = 0 \<or> llama_grammar_match_partial_char (at rs p) (partial t) = Inr True
        | c # _ \<Rightarrow> in_class (at rs p) c \<and> (\<exists>s \<in> set sts. takes n rs s (forward t)))" if "t \<in> set cands" for t
    proof (cases "word t")
      case Nil
      then show ?thesis by (simp add: takes_Nil fits_def \<open>st = p # rest\<close>)
    next
      case (Cons c w)
      then show ?thesis using takes_Cons [of t c w n rs st] ok that st'(4) sts(1)
        by (simp add: next_stacks_def \<open>st = p # rest\<close>)
    qed
    have r3: "backward ` set rej2 = {t \<in> set cands. (case word t of [] \<Rightarrow> False | c # _ \<Rightarrow> in_class (at rs p) c) \<and>
        (\<forall>s \<in> set sts. \<not> takes n rs s (forward t))}"
      unfolding r2 cl(3) by (auto simp: image_iff) (metis backward_forward)
    show ?thesis
    proof (rule set_eqI)
      fix t
      show "t \<in> set rej \<longleftrightarrow> t \<in> {t \<in> set cands. \<not> takes n rs st t}"
        unfolding sts(3) set_append set_map cl(2) r3
        by (cases "t \<in> set cands"; cases "word t") (auto simp: rejected)
    qed
  qed
  then show ?case unfolding filters_def by blast
qed

section \<open>More depth changes nothing\<close>

lemma reject_stacks_le:
  assumes "\<And>st cands. run_le (f st cands) (f' st cands)"
  shows "run_le (reject_stacks f sts cands) (reject_stacks f' sts cands)"
  using assms by (cases sts) (auto simp: reject_stacks_def intro!: run_le_bind run_le_fold)

lemma reject_for_stack_le:
  assumes "n \<le> m"
  shows "run_le (llama_grammar_reject_candidates_for_stack d n rs st cands)
    (llama_grammar_reject_candidates_for_stack d m rs st cands)"
proof (induction d arbitrary: st cands)
  case 0
  show ?case by (simp add: run_le_def)
next
  case (Suc d)
  show ?case
  proof (cases st)
    case (Cons p rest)
    show ?thesis unfolding llama_grammar_reject_candidates_for_stack.simps Cons list.case case_prod_unfold
      by (intro run_le_bind run_le_refl advance_le [OF assms] reject_stacks_le Suc)
  qed simp
qed

lemma next_stacks_mono: "n \<le> m \<Longrightarrow> next_stacks n rs c st \<subseteq> next_stacks m rs c st"
  using accept_stack_mono [of n m rs c st "[]"] by (auto simp: next_stacks_def run_le_def split: option.splits sum.splits)

lemma feed_mono: "n \<le> m \<Longrightarrow> feed n rs st w \<subseteq> feed m rs st w"
proof (induction w arbitrary: st)
  case Nil
  show ?case by simp
next
  case (Cons c w)
  then show ?case using next_stacks_mono [of n m rs c st] by (simp add: UN_mono)
qed

section \<open>Feeding tokens and accepting them\<close>

lemma accept_stacks:
  assumes ok: "grammar_ok g" and run: "llama_grammar_accept n g c = ret g'"
  shows "rules g' = rules g \<and> set (stacks g') = (\<Union>st \<in> set (stacks g). next_stacks n (rules g) c st)"
proof -
  from run obtain sts where sts: "run_fold (accept_stack n (rules g) c) (stacks g) [] = ret sts" "g' = g\<lparr>stacks := sts\<rparr>"
    by (auto simp: llama_grammar_accept_def res_simps)
  have "stops (run_fold (accept_stack n (rules g) c) (stacks g)) \<or>
    (\<exists>B. adds (run_fold (accept_stack n (rules g) c) (stacks g)) (\<Union>x \<in> set (stacks g). B x) \<and>
      (\<forall>x \<in> set (stacks g). adds (accept_stack n (rules g) c x) (B x) \<and> follows (rules g) c x (B x)))"
    by (rule fold_adds) (use ok accept_stack_follows in \<open>auto simp: grammar_ok_def\<close>)
  then obtain B where B: "adds (run_fold (accept_stack n (rules g) c) (stacks g)) (\<Union>x \<in> set (stacks g). B x)"
    "\<forall>x \<in> set (stacks g). adds (accept_stack n (rules g) c x) (B x)"
    using sts(1) by (auto simp: stops_def)
  have "set sts = (\<Union>x \<in> set (stacks g). B x)" by (rule adds_result [OF B(1) sts(1)])
  moreover have "next_stacks n (rules g) c x = B x" if "x \<in> set (stacks g)" for x
  proof -
    have "adds (accept_stack n (rules g) c x) (B x)" using B(2) that by blast
    then obtain new where "accept_stack n (rules g) c x [] = ret new" "set new = set [] \<union> B x"
      unfolding adds_def by blast
    then show ?thesis by (simp add: next_stacks_def)
  qed
  ultimately show ?thesis using sts(2) by simp
qed

lemma accept_all_stacks:
  "grammar_ok g \<Longrightarrow> accept_all n g w = ret g' \<Longrightarrow>
   rules g' = rules g \<and> set (stacks g') = (\<Union>st \<in> set (stacks g). feed n (rules g) st w)"
proof (induction w arbitrary: g)
  case Nil
  then show ?case by (auto simp: accept_all_def)
next
  case (Cons c w)
  then obtain g1 where g1: "llama_grammar_accept n g c = ret g1" "accept_all n g1 w = ret g'"
    by (auto simp: accept_all_def res_simps)
  have ok1: "grammar_ok g1" using accept_follows [OF Cons.prems(1), of n c] g1(1) by auto
  from Cons.IH [OF ok1 g1(2)] accept_stacks [OF Cons.prems(1) g1(1)] show ?case by auto
qed

section \<open>The filter returns\<close>

lemma run_fold_returns:
  fixes f :: "nat \<Rightarrow> 'a \<Rightarrow> 's \<Rightarrow> 's run"
  assumes mono: "\<And>n m x s. n \<le> m \<Longrightarrow> run_le (f n x s) (f m x s)"
    and step: "\<And>x s. x \<in> set xs \<Longrightarrow> P s \<Longrightarrow> \<exists>n s'. f n x s = ret s' \<and> P s'"
  shows "P s \<Longrightarrow> \<exists>n s'. run_fold (f n) xs s = ret s' \<and> P s'"
  using step
proof (induction xs arbitrary: s)
  case Nil
  then show ?case by simp
next
  case (Cons x xs)
  obtain n1 s1 where 1: "f n1 x s = ret s1" "P s1" using Cons.prems(2) [of x s] Cons.prems(1) by auto
  have "\<exists>n s'. run_fold (f n) xs s1 = ret s' \<and> P s'"
    by (rule Cons.IH [OF 1(2)]) (rule Cons.prems(2), simp_all)
  then obtain n2 s2 where 2: "run_fold (f n2) xs s1 = ret s2" "P s2" by blast
  have "f (max n1 n2) x s = ret s1" using mono [of n1 "max n1 n2" x s] 1(1) by (simp add: run_le_def)
  moreover have "run_le (run_fold (f n2) xs s1) (run_fold (f (max n1 n2)) xs s1)" by (intro run_le_fold mono) simp
  then have "run_fold (f (max n1 n2)) xs s1 = ret s2" using 2(1) by (simp add: run_le_def)
  ultimately have "run_fold (f (max n1 n2)) (x # xs) s = ret s2" by simp
  with 2(2) show ?case by blast
qed

lemma reject_stacks_returns:
  fixes f :: "nat \<Rightarrow> gstack \<Rightarrow> llama_grammar_candidate list \<Rightarrow> llama_grammar_candidate list run"
  assumes mono: "\<And>n m st s. n \<le> m \<Longrightarrow> run_le (f n st s) (f m st s)"
    and step: "\<And>st s. st \<in> set sts \<Longrightarrow> P s \<Longrightarrow> cands \<noteq> [] \<Longrightarrow> \<exists>n s'. f n st s = ret s' \<and> P s'"
    and P: "P cands" and "sts \<noteq> []"
  shows "\<exists>n rej. reject_stacks (f n) sts cands = ret rej"
proof (cases "cands = []")
  case True
  with assms(4) show ?thesis by (cases sts) (simp_all add: reject_stacks_def)
next
  case False
  have "\<exists>n s'. run_fold (f n) sts cands = ret s' \<and> P s'"
    by (rule run_fold_returns [where P = P]) (fact mono, rule step [OF _ _ False], assumption+, fact P)
  moreover have "reject_stacks (f n) sts cands = run_fold (f n) sts cands" for n
    using False assms(4) by (cases sts) (simp_all add: reject_stacks_def)
  ultimately show ?thesis by auto
qed

text \<open>The candidates of a call have less than \<open>d\<close> characters left.\<close>

definition short :: "nat \<Rightarrow> llama_grammar_candidate list \<Rightarrow> bool" where
  "short d cands \<longleftrightarrow> (\<forall>t \<in> set cands. cand_ok t \<and> length (word t) < d)"

lemma short_filtered:
  assumes "wf_rules rs" and "ready rs st" and "short d cands"
    and "llama_grammar_reject_candidates_for_stack d' n rs st cands = ret rej"
  shows "short d rej"
  using filtersD [OF reject_for_stack_spec [OF assms(1)] assms(2) _ assms(4)] assms(3) by (auto simp: short_def)

lemma reject_for_stack_returns:
  assumes wf: "wf_rules rs" and lr: "no_left_recursion rs"
  shows "ready rs st \<Longrightarrow> short d cands \<Longrightarrow> 0 < d \<Longrightarrow>
    \<exists>n rej. llama_grammar_reject_candidates_for_stack d n rs st cands = ret rej"
proof (induction d arbitrary: st cands)
  case 0
  then show ?case by simp
next
  case (Suc d)
  have ok: "\<forall>t \<in> set cands. cand_ok t" using Suc.prems(2) by (simp add: short_def)
  show ?case
  proof (cases st)
    case Nil
    then show ?thesis using reject_empty_spec [OF ok, of 0 rs] by auto
  next
    case (Cons p rest)
    obtain st' where st': "stack_ok rs st'" "push rs (shift p (span (at rs p))) rest = Inr st'"
      "\<And>c. llama_grammar_match_char (at rs p) c = Inr (in_class (at rs p) c, span (at rs p))"
      using ready_step [OF wf Suc.prems(1) [unfolded Cons]] by metis
    have els: "wf_elements (length rs) 0 (at rs p)"
      "gtype (hd (at rs p)) \<in> {LLAMA_GRETYPE_CHAR, LLAMA_GRETYPE_CHAR_NOT, LLAMA_GRETYPE_CHAR_ANY}"
      using Suc.prems(1) Cons by (simp_all add: ready_def stack_ok_def pos_ok_def)
    obtain rej1 nxt where cl: "classify (at rs p) cands = Inr (rej1, nxt)"
      "set nxt = forward ` {t \<in> set cands. case word t of [] \<Rightarrow> False | c # _ \<Rightarrow> in_class (at rs p) c}"
      using classify_spec [OF els ok] by blast
    have nxt: "short d nxt"
    proof -
      have "cand_ok (forward t) \<and> length (word (forward t)) < d" if "t \<in> set cands" "word t = c # w" for t c w
        using forward_word [of t c w] Suc.prems(2) that by (fastforce simp: short_def)
      then show ?thesis unfolding short_def cl(2) by (auto split: list.splits)
    qed
    obtain n1 sts where sts: "llama_grammar_advance_stack n1 rs st' [] = ret sts"
      using advance_returns [OF wf lr st'(1)] unfolding returns_def adds_def by blast
    have ready: "sts \<noteq> []" "\<forall>s \<in> set sts. ready rs s" using advance_result [OF wf st'(1) sts] by (auto simp: closes_def)
    have "\<exists>n rej. reject_stacks (llama_grammar_reject_candidates_for_stack d n rs) sts nxt = ret rej"
    proof (rule reject_stacks_returns [where f = "\<lambda>n. llama_grammar_reject_candidates_for_stack d n rs" and P = "short d"])
      fix st s
      assume st: "st \<in> set sts" and s: "short d s" and "nxt \<noteq> []"
      then have "0 < d" using nxt by (cases nxt) (auto simp: short_def)
      with Suc.IH ready(2) st s obtain n rej where "llama_grammar_reject_candidates_for_stack d n rs st s = ret rej" by blast
      with short_filtered [OF wf _ s this] ready(2) st
      show "\<exists>n s'. llama_grammar_reject_candidates_for_stack d n rs st s = ret s' \<and> short d s'" by blast
    qed (use nxt ready reject_for_stack_le in auto)
    then obtain n2 rej2 where r2: "reject_stacks (llama_grammar_reject_candidates_for_stack d n2 rs) sts nxt = ret rej2" by blast
    have "llama_grammar_advance_stack (max n1 n2) rs st' [] = ret sts" using advance_mono [OF sts] by simp
    moreover have "reject_stacks (llama_grammar_reject_candidates_for_stack d (max n1 n2) rs) sts nxt = ret rej2"
      using reject_stacks_le [OF reject_for_stack_le [of n2 "max n1 n2"]] r2 unfolding run_le_def by simp
    ultimately have "llama_grammar_reject_candidates_for_stack (Suc d) (max n1 n2) rs st cands = ret (rej1 @ map backward rej2)"
      by (simp add: Cons cl(1) st'(2,3))
    then show ?thesis by blast
  qed
qed

lemma reject_returns:
  assumes ok: "grammar_ok g" and lr: "no_left_recursion (rules g)" and "stacks g \<noteq> []"
    and "short d cands" and "0 < d"
  shows "\<exists>n rej. llama_grammar_reject_candidates d n (rules g) (stacks g) cands = ret rej"
  unfolding llama_grammar_reject_candidates_def
proof (rule reject_stacks_returns [where f = "\<lambda>n. llama_grammar_reject_candidates_for_stack d n (rules g)" and P = "short d"])
  have wf: "wf_rules (rules g)" using ok by (simp add: grammar_ok_def)
  fix st s
  assume "st \<in> set (stacks g)" and s: "short d s"
  then have st: "ready (rules g) st" using ok by (simp add: grammar_ok_def)
  obtain n rej where "llama_grammar_reject_candidates_for_stack d n (rules g) st s = ret rej"
    using reject_for_stack_returns [OF wf lr st s assms(5)] by blast
  with short_filtered [OF wf st s this]
  show "\<exists>n s'. llama_grammar_reject_candidates_for_stack d n (rules g) st s = ret s' \<and> short d s'" by blast
qed (use assms reject_for_stack_le in auto)

lemma reject_spec:
  assumes ok: "grammar_ok g" and "\<forall>t \<in> set cands. cand_ok t"
    and run: "llama_grammar_reject_candidates d n (rules g) (stacks g) cands = ret rej" and "n \<le> m"
  shows "set rej = {t \<in> set cands. \<forall>st \<in> set (stacks g). \<not> takes m (rules g) st t}"
proof (rule reject_stacks_spec [OF reject_for_stack_spec])
  show "wf_rules (rules g)" "\<forall>st \<in> set (stacks g). ready (rules g) st" using ok by (simp_all add: grammar_ok_def)
  show "reject_stacks (llama_grammar_reject_candidates_for_stack d m (rules g)) (stacks g) cands = ret rej"
    using reject_stacks_le [of "llama_grammar_reject_candidates_for_stack d n (rules g)"
        "llama_grammar_reject_candidates_for_stack d m (rules g)" "stacks g" cands,
        OF reject_for_stack_le [OF assms(4)]] run
    unfolding llama_grammar_reject_candidates_def run_le_def by blast
qed (fact assms(2))

text \<open>C13: For every grammar without left recursion the filter returns, and it rejects a candidate
  exactly when feeding its characters to the automaton one after the other leaves no stack that
  could go on with the bytes of its last, unfinished character.\<close>

theorem reject_candidates_exact:
  assumes "grammar_ok g" and "no_left_recursion (rules g)" and "stacks g \<noteq> []"
    and "short d cands" and "0 < d"
  shows "\<exists>n rej. llama_grammar_reject_candidates d n (rules g) (stacks g) cands = ret rej \<and> set rej \<subseteq> set cands \<and>
    (\<forall>t \<in> set cands. \<exists>m g'. accept_all m g (word t) = ret g' \<and>
       (t \<in> set rej \<longleftrightarrow> \<not> (\<exists>st \<in> set (stacks g'). fits (rules g) st (partial t))))"
proof -
  obtain n rej where run: "llama_grammar_reject_candidates d n (rules g) (stacks g) cands = ret rej"
    using reject_returns [OF assms] by blast
  have ok: "\<forall>t \<in> set cands. cand_ok t" using assms(4) by (simp add: short_def)
  have "\<exists>m g'. accept_all m g (word t) = ret g' \<and>
      (t \<in> set rej \<longleftrightarrow> \<not> (\<exists>st \<in> set (stacks g'). fits (rules g) st (partial t)))" if t: "t \<in> set cands" for t
  proof -
    obtain m0 g' where m0: "accept_all m0 g (word t) = ret g'" using accept_all_returns [OF assms(1,2)] by blast
    define m where "m = max n m0"
    have g': "accept_all m g (word t) = ret g'"
      using accept_all_le [of m0 m g "word t"] m0 by (simp add: m_def run_le_def)
    have "set (stacks g') = (\<Union>st \<in> set (stacks g). feed m (rules g) st (word t))"
      using accept_all_stacks [OF assms(1) g'] by blast
    moreover have "t \<in> set rej \<longleftrightarrow> (\<forall>st \<in> set (stacks g). \<not> takes m (rules g) st t)"
      using reject_spec [OF assms(1) ok run, of m] t by (simp add: m_def)
    ultimately have "t \<in> set rej \<longleftrightarrow> \<not> (\<exists>st \<in> set (stacks g'). fits (rules g) st (partial t))"
      by (auto simp: takes_def)
    with g' show ?thesis by blast
  qed
  moreover have "set rej \<subseteq> set cands" using reject_spec [OF assms(1) ok run order_refl] by blast
  ultimately show ?thesis using run by blast
qed

section \<open>Tokens that survive can be accepted\<close>

lemma decode_sequences_last: "\<exists>xs. fst (decode_sequences bs v n cps) = xs @ [0]"
  by (induction bs v n cps rule: decode_sequences.induct)
    (simp, fastforce simp: Let_def case_prod_unfold)

lemma decode_utf8_last: "\<exists>xs. fst (decode_utf8 src p) = xs @ [0]"
  using decode_sequences_last by (auto simp: decode_utf8_def split: option.split)

text \<open>A token whose text decodes to characters other than NUL; NUL ends the text in the filter.\<close>

definition clean_token :: "vocab \<Rightarrow> llama_grammar \<Rightarrow> int \<Rightarrow> bool" where
  "clean_token vc g tok \<longleftrightarrow> 0 \<notin> set (butlast (fst (decode_utf8 (token_to_piece vc tok) (partial_utf8 g))))"

definition candidate :: "vocab \<Rightarrow> llama_grammar \<Rightarrow> nat \<Rightarrow> int \<Rightarrow> llama_grammar_candidate" where
  "candidate vc g i tok =
     (let (cps, p) = decode_utf8 (token_to_piece vc tok) (partial_utf8 g)
      in \<lparr>index = i, code_points = cps, off = 0, partial = p\<rparr>)"

lemma candidate_ok: "cand_ok (candidate vc g i tok)"
  using decode_utf8_last [of "token_to_piece vc tok" "partial_utf8 g"]
  by (auto simp: candidate_def cand_ok_def case_prod_unfold)

lemma candidate_word:
  assumes "clean_token vc g tok"
  shows "word (candidate vc g i tok) = butlast (fst (decode_utf8 (token_to_piece vc tok) (partial_utf8 g)))"
proof -
  obtain xs where "fst (decode_utf8 (token_to_piece vc tok) (partial_utf8 g)) = xs @ [0]"
    using decode_utf8_last by blast
  moreover from this assms have "takeWhile (\<lambda>c. c \<noteq> 0) (xs @ [0]) = xs"
    by (subst takeWhile_append2) (auto simp: clean_token_def intro!: gr0I)
  ultimately show ?thesis by (simp only: candidate_def word_def case_prod_unfold Let_def) simp
qed

lemma fold_reject:
  assumes "i < length cur"
  shows "length (fold (\<lambda>r cur. cur[index r := (fst (cur ! index r), x)]) rej cur) = length cur \<and>
    fst (fold (\<lambda>r cur. cur[index r := (fst (cur ! index r), x)]) rej cur ! i) = fst (cur ! i) \<and>
    snd (fold (\<lambda>r cur. cur[index r := (fst (cur ! index r), x)]) rej cur ! i) =
      (if i \<in> index ` set rej then x else snd (cur ! i))"
  using assms
proof (induction rej arbitrary: cur)
  case Nil
  then show ?case by simp
next
  case (Cons r rej)
  have "fst (cur[index r := (fst (cur ! index r), x)] ! i) = fst (cur ! i)"
    "snd (cur[index r := (fst (cur ! index r), x)] ! i) = (if i = index r then x else snd (cur ! i))"
    using Cons.prems by (cases "i = index r"; simp)+
  then show ?case using Cons.IH [of "cur[index r := (fst (cur ! index r), x)]"] Cons.prems by simp
qed

lemma accept_str_returns:
  assumes ok: "grammar_ok g" and lr: "no_left_recursion (rules g)"
    and "clean_token vc g tok" and "st \<in> set (stacks g)" and "takes n (rules g) st (candidate vc g i tok)"
  shows "\<exists>m g'. llama_grammar_accept_str m g (token_to_piece vc tok) = ret g'"
proof -
  let ?w = "butlast (fst (decode_utf8 (token_to_piece vc tok) (partial_utf8 g)))"
  obtain m0 g' where m0: "accept_all m0 g ?w = ret g'" using accept_all_returns [OF ok lr] by blast
  define m where "m = max n m0"
  have g': "accept_all m g ?w = ret g'" using accept_all_le [of m0 m g ?w] m0 by (simp add: m_def run_le_def)
  obtain s where "s \<in> feed n (rules g) st ?w" using assms(5) unfolding takes_def candidate_word [OF assms(3)] by blast
  then have "s \<in> feed m (rules g) st ?w" using feed_mono [of n m] by (auto simp: m_def)
  then have "stacks g' \<noteq> []" using accept_all_stacks [OF ok g'] assms(4) by auto
  then have "\<exists>g''. llama_grammar_accept_str m g (token_to_piece vc tok) = ret g''"
    using g' by (simp add: llama_grammar_accept_str_def accept_all_def case_prod_unfold)
  then show ?thesis by blast
qed


text \<open>The state at the start of the example grammar.\<close>

definition example_grammar :: llama_grammar where
  "example_grammar = fresh_grammar example_rules [[(0, 0)], [(0, 3)]] False [] []"

lemma example_grammar_ok: "grammar_ok example_grammar" "rules example_grammar = example_rules"
  "stacks example_grammar \<noteq> []" "\<not> awaiting_trigger example_grammar"
  by (simp_all add: example_grammar_def fresh_grammar_def grammar_ok_def example_rules_ok ready_def stack_ok_def pos_ok_def)
    (simp_all add: example_rules_def at_def llama_grammar_is_end_of_sequence_def)

theorem reject_candidates_exact_witness:
  "\<exists>n rej. llama_grammar_reject_candidates 2 n example_rules (stacks example_grammar)
     [\<lparr>index = 0, code_points = [97, 0], off = 0, partial = \<lparr>pvalue = 0, n_remain = 0\<rparr>\<rparr>] = ret rej"
proof -
  have "short 2 [\<lparr>index = 0, code_points = [97, 0], off = 0, partial = \<lparr>pvalue = 0, n_remain = 0\<rparr>\<rparr>]"
    by (simp add: short_def cand_ok_def word_def)
  then show ?thesis
    using reject_candidates_exact [OF example_grammar_ok(1) _ example_grammar_ok(3),
      of 2 "[\<lparr>index = 0, code_points = [97, 0], off = 0, partial = \<lparr>pvalue = 0, n_remain = 0\<rparr>\<rparr>]"]
      example_rules_ok(2) unfolding example_grammar_ok(2) by auto
qed


end
