(* ===== verification/GrammarParser.thy ===== *)
theory GrammarParser
  imports GrammarFilter
begin

text \<open>
  The parser of the grammar notation, \<open>llama_grammar_parser\<close> of \<open>llama-grammar.cpp\<close>, and the
  construction of a grammar from its text.

  A C string is the list of its bytes without the terminator; a pointer into it is the rest of the
  string from there, so \<open>*pos\<close> at the end is the case of the empty list. Exceptions are the fault
  \<open>Thrown\<close> with the message the code builds. \<open>parse_sequence\<close> and \<open>parse_alternates\<close> call each
  other; the first argument bounds the depth of calls and iterations, and \<open>parse\<close> gives them enough
  for any text.
\<close>

section \<open>Characters and names\<close>

fun decode_rest :: "nat \<Rightarrow> nat \<Rightarrow> string \<Rightarrow> nat \<times> string" where
  "decode_rest (Suc k) v (c # cs) = decode_rest k (v * 64 + of_char c mod 64) cs"
| "decode_rest _ v cs = (v, cs)"

definition decode_char :: "char \<Rightarrow> string \<Rightarrow> nat \<times> string" where
  "decode_char c cs =
     (let first_byte = of_char c;
          len = [1, 1, 1, 1, 1, 1, 1, 1, 1, 1, 1, 1, 2, 2, 3, 4] ! (first_byte div 16)
      in decode_rest (len - 1) (first_byte mod 2 ^ (8 - len)) cs)"

definition within :: "char \<Rightarrow> char \<Rightarrow> char \<Rightarrow> bool" where
  "within lo hi c \<longleftrightarrow> of_char lo \<le> (of_char c :: nat) \<and> (of_char c :: nat) \<le> of_char hi"

definition is_digit_char :: "char \<Rightarrow> bool" where
  "is_digit_char = within (CHR ''0'') (CHR ''9'')"

definition is_word_char :: "char \<Rightarrow> bool" where
  "is_word_char c \<longleftrightarrow>
     within (CHR ''a'') (CHR ''z'') c \<or> within (CHR ''A'') (CHR ''Z'') c \<or> c = CHR ''-'' \<or> is_digit_char c"

definition to_digit :: "nat \<Rightarrow> char" where
  "to_digit d = char_of (48 + d)"

fun to_string :: "nat \<Rightarrow> string" where
  "to_string n = (if n < 10 then [to_digit n] else to_string (n div 10) @ [to_digit (n mod 10)])"

declare to_string.simps [simp del]

definition hex_value :: "char \<Rightarrow> nat option" where
  "hex_value c =
     (if within (CHR ''a'') (CHR ''f'') c then Some (of_char c - 97 + 10)
      else if within (CHR ''A'') (CHR ''F'') c then Some (of_char c - 65 + 10)
      else if within (CHR ''0'') (CHR ''9'') c then Some (of_char c - 48)
      else None)"

text \<open>At most eight digits are read, so the shifts of \<open>uint32_t\<close> lose nothing.\<close>

fun hex_loop :: "nat \<Rightarrow> nat \<Rightarrow> string \<Rightarrow> nat \<times> nat \<times> string" where
  "hex_loop (Suc k) v (c # cs) =
     (case hex_value c of None \<Rightarrow> (Suc k, v, c # cs) | Some d \<Rightarrow> hex_loop k (v * 16 + d) cs)"
| "hex_loop k v cs = (k, v, cs)"

definition parse_hex :: "string \<Rightarrow> nat \<Rightarrow> (nat \<times> string) res" where
  "parse_hex src sz =
     (let (left, v, pos) = hex_loop sz 0 src
      in if left \<noteq> 0 then Inl (Thrown (''expecting '' @ to_string sz @ '' hex chars at '' @ src))
         else Inr (v, pos))"

function parse_space :: "string \<Rightarrow> bool \<Rightarrow> string" where
  "parse_space [] newline_ok = []"
| "parse_space (c # cs) newline_ok =
     (if c = CHR '' '' \<or> c = CHR 0x09 then parse_space cs newline_ok
      else if c = CHR ''#''
      then parse_space (dropWhile (\<lambda>c. c \<noteq> CHR 0x0D \<and> c \<noteq> CHR 0x0A) cs) newline_ok
      else if newline_ok \<and> (c = CHR 0x0D \<or> c = CHR 0x0A) then parse_space cs newline_ok
      else c # cs)"
  by pat_completeness auto
termination
  by (relation "measure (\<lambda>(s, _). length s)") (auto simp: length_dropWhile_le less_Suc_eq_le)

definition parse_name :: "string \<Rightarrow> (string \<times> string) res" where
  "parse_name src =
     (let name = takeWhile is_word_char src
      in if name = [] then Inl (Thrown (''expecting name at '' @ src))
         else Inr (name, dropWhile is_word_char src))"

definition parse_int :: "string \<Rightarrow> (string \<times> string) res" where
  "parse_int src =
     (let digits = takeWhile is_digit_char src
      in if digits = [] then Inl (Thrown (''expecting integer at '' @ src))
         else Inr (digits, dropWhile is_digit_char src))"

text \<open>\<open>std::stoul\<close> on digits, and its result stored in an \<open>int\<close>.\<close>

definition stoul_int :: "string \<Rightarrow> int res" where
  "stoul_int digits =
     (let n = foldl (\<lambda>v c. v * 10 + (of_char c - 48)) 0 digits
      in if 2 ^ 64 \<le> n then Inl (Thrown ''stoul'')
         else Inr ((n + 2147483648) mod 4294967296 - 2147483648))"

definition parse_char :: "string \<Rightarrow> (nat \<times> string) res" where
  "parse_char src =
     (case src of
        [] \<Rightarrow> Inl (Thrown ''unexpected end of input'')
      | c # cs \<Rightarrow>
          if c = CHR 0x5C then
            (case cs of
               [] \<Rightarrow> Inl (Thrown (''unknown escape at '' @ src))
             | e # pos \<Rightarrow>
                 if e = CHR ''x'' then parse_hex pos 2
                 else if e = CHR ''u'' then parse_hex pos 4
                 else if e = CHR ''U'' then parse_hex pos 8
                 else if e = CHR ''t'' then Inr (9, pos)
                 else if e = CHR ''r'' then Inr (13, pos)
                 else if e = CHR ''n'' then Inr (10, pos)
                 else if e \<in> {CHR 0x5C, CHR 0x22, CHR ''['', CHR '']''} then Inr (of_char e, pos)
                 else Inl (Thrown (''unknown escape at '' @ src)))
          else Inr (decode_char c cs))"

section \<open>Symbols and rules\<close>

record llama_grammar_parser =
  symbol_ids :: "(string \<times> nat) list"
  prules :: grules

definition get_symbol_id :: "llama_grammar_parser \<Rightarrow> string \<Rightarrow> llama_grammar_parser \<times> nat" where
  "get_symbol_id P name =
     (case map_of (symbol_ids P) name of
        Some i \<Rightarrow> (P, i)
      | None \<Rightarrow> let next_id = length (symbol_ids P)
                in (P\<lparr>symbol_ids := symbol_ids P @ [(name, next_id)]\<rparr>, next_id))"

text \<open>\<open>symbol_ids[key] = id\<close>: the entry is replaced, or added.\<close>

fun map_put :: "string \<Rightarrow> nat \<Rightarrow> (string \<times> nat) list \<Rightarrow> (string \<times> nat) list" where
  "map_put k v [] = [(k, v)]"
| "map_put k v ((k', v') # m) = (if k = k' then (k, v) # m else (k', v') # map_put k v m)"

definition generate_symbol_id :: "llama_grammar_parser \<Rightarrow> string \<Rightarrow> llama_grammar_parser \<times> nat" where
  "generate_symbol_id P base_name =
     (let next_id = length (symbol_ids P)
      in (P\<lparr>symbol_ids := map_put (base_name @ ''_'' @ to_string next_id) next_id (symbol_ids P)\<rparr>, next_id))"

definition add_rule :: "llama_grammar_parser \<Rightarrow> nat \<Rightarrow> grule \<Rightarrow> llama_grammar_parser" where
  "add_rule P rule_id rule =
     (let rs = prules P;
          rs' = (if length rs \<le> rule_id then rs @ replicate (rule_id + 1 - length rs) [] else rs)
      in P\<lparr>prules := rs'[rule_id := rule]\<rparr>)"

section \<open>Sequences and alternates\<close>

text \<open>The rules for the optional part of a repetition.\<close>

fun optional_rules :: "nat \<Rightarrow> bool \<Rightarrow> bool \<Rightarrow> string \<Rightarrow> grule \<Rightarrow> llama_grammar_parser \<Rightarrow> nat
    \<Rightarrow> llama_grammar_parser \<times> nat" where
  "optional_rules 0 first unbounded rule_name prev_rule P last_rec_rule_id = (P, last_rec_rule_id)"
| "optional_rules (Suc k) first unbounded rule_name prev_rule P last_rec_rule_id =
     (let (P1, rec_rule_id) = generate_symbol_id P rule_name;
          rec_rule = prev_rule @
            (if \<not> first \<or> unbounded
             then [Elem LLAMA_GRETYPE_RULE_REF (if unbounded then rec_rule_id else last_rec_rule_id)] else []) @
            [Elem LLAMA_GRETYPE_ALT 0, Elem LLAMA_GRETYPE_END 0]
      in optional_rules k False unbounded rule_name prev_rule (add_rule P1 rec_rule_id rec_rule) rec_rule_id)"

definition handle_repetitions :: "string \<Rightarrow> string \<Rightarrow> nat \<Rightarrow> int \<Rightarrow> int
    \<Rightarrow> llama_grammar_parser \<Rightarrow> grule \<Rightarrow> (llama_grammar_parser \<times> grule) res" where
  "handle_repetitions pos rule_name last_sym_start min_times max_times P rule =
     (if last_sym_start = length rule
      then Inl (Thrown (''expecting preceding item to */+/?/{ at '' @ pos))
      else
        let prev_rule = drop last_sym_start rule;
            rule1 = (if min_times = 0 then take last_sym_start rule
                     else rule @ concat (replicate (nat (min_times - 1)) prev_rule));
            n_opt = (if max_times < 0 then 1 else max_times - min_times)
        in if \<not> i32_ok n_opt then Inl SignedOverflow
           else
             let (P1, last_rec_rule_id) =
               optional_rules (nat n_opt) True (max_times < 0) rule_name prev_rule P 0
             in Inr (P1, if n_opt > 0 then rule1 @ [Elem LLAMA_GRETYPE_RULE_REF last_rec_rule_id] else rule1))"

lemma decode_rest_length: "decode_rest k v cs = (v', rest) \<Longrightarrow> length rest \<le> length cs"
  by (induction k v cs rule: decode_rest.induct) auto

lemma hex_loop_length: "hex_loop k v cs = (k', v', rest) \<Longrightarrow> length rest \<le> length cs"
  by (induction k v cs arbitrary: k' v' rest rule: hex_loop.induct) (auto split: option.splits intro: le_SucI)

lemma parse_hex_length: "parse_hex cs k = Inr (v, rest) \<Longrightarrow> length rest \<le> length cs"
  by (auto simp: parse_hex_def hex_loop_length split: prod.splits if_splits)

lemma parse_char_length: "parse_char src = Inr (v, rest) \<Longrightarrow> length rest < length src"
  unfolding parse_char_def decode_char_def Let_def
  by (auto split: list.splits if_splits dest!: parse_hex_length decode_rest_length simp: less_Suc_eq_le)

function literal_loop :: "string \<Rightarrow> grule \<Rightarrow> (string \<times> grule) res" where
  "literal_loop pos rule =
     (case pos of
        [] \<Rightarrow> Inl (Thrown ''unexpected end of input'')
      | c # cs \<Rightarrow>
          if c = CHR 0x22 then Inr (cs, rule)
          else (case parse_char pos of
                  Inl e \<Rightarrow> Inl e
                | Inr (v, pos') \<Rightarrow> literal_loop pos' (rule @ [Elem LLAMA_GRETYPE_CHAR v])))"
  by pat_completeness auto
termination by (relation "measure (\<lambda>(pos, _). length pos)") (auto dest!: parse_char_length)

text \<open>The characters of a range up to its closing bracket.\<close>

function class_loop :: "string \<Rightarrow> llama_gretype \<Rightarrow> nat \<Rightarrow> grule \<Rightarrow> (string \<times> grule) res" where
  "class_loop pos start_type last_sym_start rule =
     (case pos of
        [] \<Rightarrow> Inl (Thrown ''unexpected end of input'')
      | c # cs \<Rightarrow>
          if c = CHR '']'' then Inr (cs, rule)
          else (case parse_char pos of
                  Inl e \<Rightarrow> Inl e
                | Inr (v, pos') \<Rightarrow>
                    let ty = (if last_sym_start < length rule then LLAMA_GRETYPE_CHAR_ALT else start_type);
                        rule' = rule @ [Elem ty v]
                    in if pos' \<noteq> [] \<and> hd pos' = CHR ''-'' \<and> (tl pos' = [] \<or> hd (tl pos') \<noteq> CHR '']'')
                       then if tl pos' = [] then Inl (Thrown ''unexpected end of input'')
                            else (case parse_char (tl pos') of
                                    Inl e \<Rightarrow> Inl e
                                  | Inr (u, pos'') \<Rightarrow>
                                      class_loop pos'' start_type last_sym_start
                                        (rule' @ [Elem LLAMA_GRETYPE_CHAR_RNG_UPPER u]))
                       else class_loop pos' start_type last_sym_start rule'))"
  by pat_completeness auto
termination
  by (relation "measure (\<lambda>(pos, _). length pos)") (auto dest!: parse_char_length)

declare literal_loop.simps [simp del] class_loop.simps [simp del]

text \<open>The bounds of \<open>{m,n}\<close>: the position after the closing brace, and the two numbers.\<close>

definition parse_bounds :: "string \<Rightarrow> bool \<Rightarrow> (string \<times> int \<times> int) res" where
  "parse_bounds pos is_nested =
     (if pos = [] \<or> \<not> is_digit_char (hd pos) then Inl (Thrown (''expecting an int at '' @ pos))
      else
        rbind (parse_int pos) (\<lambda>(digits, int_end).
        rbind (stoul_int digits) (\<lambda>min_times.
        let pos1 = parse_space int_end is_nested
        in case pos1 of
             [] \<Rightarrow> Inl (Thrown (''expecting '' @ [CHR 0x27] @ '','' @ [CHR 0x27] @ '' at '' @ pos1))
           | c # cs \<Rightarrow>
               if c = CHR ''}'' then Inr (parse_space cs is_nested, min_times, min_times)
               else if c = CHR '','' then
                 let pos2 = parse_space cs is_nested
                 in rbind (if pos2 \<noteq> [] \<and> is_digit_char (hd pos2)
                           then rbind (parse_int pos2) (\<lambda>(digits, int_end).
                                rbind (stoul_int digits) (\<lambda>m. Inr (m, parse_space int_end is_nested)))
                           else Inr (-1, pos2)) (\<lambda>(max_times, pos3).
                    case pos3 of
                      d # ds \<Rightarrow> if d = CHR ''}'' then Inr (parse_space ds is_nested, min_times, max_times)
                                else Inl (Thrown (''expecting '' @ [CHR 0x27] @ ''}'' @ [CHR 0x27] @ '' at '' @ pos3))
                    | [] \<Rightarrow> Inl (Thrown (''expecting '' @ [CHR 0x27] @ ''}'' @ [CHR 0x27] @ '' at '' @ pos3)))
               else Inl (Thrown (''expecting '' @ [CHR 0x27] @ '','' @ [CHR 0x27] @ '' at '' @ pos1)))))"

type_synonym parsed = "llama_grammar_parser \<times> string \<times> grule"
type_synonym alternates_parser =
  "llama_grammar_parser \<Rightarrow> string \<Rightarrow> string \<Rightarrow> nat \<Rightarrow> bool \<Rightarrow> (llama_grammar_parser \<times> string) run"

text \<open>The loop of \<open>parse_sequence\<close>, one item per iteration, given the parser for a group.\<close>

primrec parse_items :: "nat \<Rightarrow> alternates_parser \<Rightarrow> llama_grammar_parser \<Rightarrow> string \<Rightarrow> string \<Rightarrow> grule \<Rightarrow> nat \<Rightarrow> bool
    \<Rightarrow> parsed run" where
  "parse_items 0 alts P pos rule_name rule last_sym_start is_nested = None"
| "parse_items (Suc n) alts P pos rule_name rule last_sym_start is_nested =
     (case pos of
        [] \<Rightarrow> ret (P, [], rule)
      | c # cs \<Rightarrow>
          if c = CHR 0x22 then
            run_bind (Some (literal_loop cs rule)) (\<lambda>(pos1, rule1).
            parse_items n alts P (parse_space pos1 is_nested) rule_name rule1 (length rule) is_nested)
          else if c = CHR ''['' then
            let (start_type, pos0) = (if cs \<noteq> [] \<and> hd cs = CHR ''^''
                                      then (LLAMA_GRETYPE_CHAR_NOT, tl cs) else (LLAMA_GRETYPE_CHAR, cs))
            in run_bind (Some (class_loop pos0 start_type (length rule) rule)) (\<lambda>(pos1, rule1).
               parse_items n alts P (parse_space pos1 is_nested) rule_name rule1 (length rule) is_nested)
          else if is_word_char c then
            run_bind (Some (parse_name pos)) (\<lambda>(name, name_end).
            let (P1, ref_rule_id) = get_symbol_id P name
            in parse_items n alts P1 (parse_space name_end is_nested) rule_name
                 (rule @ [Elem LLAMA_GRETYPE_RULE_REF ref_rule_id]) (length rule) is_nested)
          else if c = CHR ''('' then
            let pos1 = parse_space cs True;
                (P1, sub_rule_id) = generate_symbol_id P rule_name
            in run_bind (alts P1 pos1 rule_name sub_rule_id True) (\<lambda>(P2, pos2).
               if pos2 = [] \<or> hd pos2 \<noteq> CHR '')''
               then fail (Thrown (''expecting '' @ [CHR 0x27] @ '')'' @ [CHR 0x27] @ '' at '' @ pos2))
               else parse_items n alts P2 (parse_space (tl pos2) is_nested) rule_name
                      (rule @ [Elem LLAMA_GRETYPE_RULE_REF sub_rule_id]) (length rule) is_nested)
          else if c = CHR ''.'' then
            parse_items n alts P (parse_space cs is_nested) rule_name
              (rule @ [Elem LLAMA_GRETYPE_CHAR_ANY 0]) (length rule) is_nested
          else if c = CHR ''*'' \<or> c = CHR ''+'' \<or> c = CHR ''?'' then
            let pos1 = parse_space cs is_nested;
                (min_times, max_times) = (if c = CHR ''*'' then (0, -1) else if c = CHR ''+'' then (1, -1) else (0, 1))
            in run_bind (Some (handle_repetitions pos1 rule_name last_sym_start min_times max_times P rule)) (\<lambda>(P1, rule1).
               parse_items n alts P1 pos1 rule_name rule1 last_sym_start is_nested)
          else if c = CHR ''{'' then
            run_bind (Some (parse_bounds (parse_space cs is_nested) is_nested)) (\<lambda>(pos1, min_times, max_times).
            run_bind (Some (handle_repetitions pos1 rule_name last_sym_start min_times max_times P rule)) (\<lambda>(P1, rule1).
            parse_items n alts P1 pos1 rule_name rule1 last_sym_start is_nested))
          else ret (P, pos, rule))"

definition parse_sequence :: "alternates_parser \<Rightarrow> llama_grammar_parser \<Rightarrow> string \<Rightarrow> string \<Rightarrow> grule \<Rightarrow> bool
    \<Rightarrow> parsed run" where
  "parse_sequence alts P src rule_name rule is_nested =
     parse_items (Suc (length src)) alts P src rule_name rule (length rule) is_nested"

primrec alternates_loop :: "nat \<Rightarrow> alternates_parser \<Rightarrow> llama_grammar_parser \<Rightarrow> string \<Rightarrow> string \<Rightarrow> grule \<Rightarrow> bool
    \<Rightarrow> parsed run" where
  "alternates_loop 0 alts P pos rule_name rule is_nested = None"
| "alternates_loop (Suc n) alts P pos rule_name rule is_nested =
     (if pos \<noteq> [] \<and> hd pos = CHR ''|'' then
        run_bind (parse_sequence alts P (parse_space (tl pos) True) rule_name
                    (rule @ [Elem LLAMA_GRETYPE_ALT 0]) is_nested)
          (\<lambda>(P1, pos1, rule1). alternates_loop n alts P1 pos1 rule_name rule1 is_nested)
      else ret (P, pos, rule))"

primrec parse_alternates :: "nat \<Rightarrow> alternates_parser" where
  "parse_alternates 0 P src rule_name rule_id is_nested = None"
| "parse_alternates (Suc d) P src rule_name rule_id is_nested =
     run_bind (parse_sequence (parse_alternates d) P src rule_name [] is_nested) (\<lambda>(P1, pos1, rule1).
     run_bind (alternates_loop (Suc (length pos1)) (parse_alternates d) P1 pos1 rule_name rule1 is_nested)
       (\<lambda>(P2, pos2, rule2).
     ret (add_rule P2 rule_id (rule2 @ [Elem LLAMA_GRETYPE_END 0]), pos2)))"

section \<open>The whole grammar\<close>

definition parse_rule :: "llama_grammar_parser \<Rightarrow> string \<Rightarrow> (llama_grammar_parser \<times> string) run" where
  "parse_rule P src =
     run_bind (Some (parse_name src)) (\<lambda>(name, name_end).
     let pos = parse_space name_end False;
         (P1, rule_id) = get_symbol_id P name
     in if take 3 pos \<noteq> ''::='' then fail (Thrown (''expecting ::= at '' @ pos))
        else
          let pos1 = parse_space (drop 3 pos) True
          in run_bind (parse_alternates (Suc (length pos1)) P1 pos1 name rule_id False) (\<lambda>(P2, pos2).
             case pos2 of
               [] \<Rightarrow> ret (P2, [])
             | c # cs \<Rightarrow>
                 if c = CHR 0x0D
                 then ret (P2, parse_space (if cs \<noteq> [] \<and> hd cs = CHR 0x0A then tl cs else cs) True)
                 else if c = CHR 0x0A then ret (P2, parse_space cs True)
                 else fail (Thrown (''expecting newline or end at '' @ pos2))))"

primrec parse_rules :: "nat \<Rightarrow> llama_grammar_parser \<Rightarrow> string \<Rightarrow> llama_grammar_parser run" where
  "parse_rules 0 P pos = None"
| "parse_rules (Suc n) P pos =
     (if pos = [] then ret P
      else run_bind (parse_rule P pos) (\<lambda>(P1, pos1). parse_rules n P1 pos1))"

text \<open>The check that every rule is defined: the exception it throws, if any.\<close>

definition undefined_ref :: "llama_grammar_parser \<Rightarrow> llama_grammar_element \<Rightarrow> fault option" where
  "undefined_ref P e =
     (if gtype e = LLAMA_GRETYPE_RULE_REF \<and>
         (length (prules P) \<le> gvalue e \<or> prules P ! gvalue e = [])
      then map_option (\<lambda>(name, _). Thrown (''Undefined rule identifier '' @ [CHR 0x27] @ name @ [CHR 0x27]))
             (List.find (\<lambda>(_, i). i = gvalue e) (symbol_ids P))
      else None)"

fun first_fault :: "('a \<Rightarrow> fault option) \<Rightarrow> 'a list \<Rightarrow> fault option" where
  "first_fault f [] = None"
| "first_fault f (x # xs) = (case f x of Some e \<Rightarrow> Some e | None \<Rightarrow> first_fault f xs)"

definition validate :: "llama_grammar_parser \<Rightarrow> fault option" where
  "validate P = first_fault (\<lambda>rule. if rule = [] then Some (Thrown ''Undefined rule'')
                                  else first_fault (undefined_ref P) rule) (prules P)"

text \<open>Exceptions are caught, other faults are not. \<open>None\<close> is the result \<open>false\<close>: the rules are
  cleared, and the callers drop the parser.\<close>

definition parse :: "string \<Rightarrow> llama_grammar_parser option run" where
  "parse src =
     (let pos = parse_space src True
      in case parse_rules (Suc (length pos)) \<lparr>symbol_ids = [], prules = []\<rparr> pos of
           None \<Rightarrow> None
         | Some (Inl (Thrown _)) \<Rightarrow> ret None
         | Some (Inl e) \<Rightarrow> fail e
         | Some (Inr P) \<Rightarrow> (case validate P of Some _ \<Rightarrow> ret None | None \<Rightarrow> ret (Some P)))"

text \<open>\<open>llama_grammar_init_impl\<close> on the text of a grammar.\<close>

definition grammar_from_text :: "nat \<Rightarrow> string \<Rightarrow> string \<Rightarrow> bool \<Rightarrow> nat list list \<Rightarrow> int list
    \<Rightarrow> llama_grammar option run" where
  "grammar_from_text n grammar_str grammar_root lz words tokens =
     run_bind (parse grammar_str) (\<lambda>parsed.
     case parsed of
       None \<Rightarrow> ret None
     | Some P \<Rightarrow>
         if prules P = [] then ret None
         else if map_of (symbol_ids P) ''root'' = None then ret None
         else (case map_of (symbol_ids P) grammar_root of
                 None \<Rightarrow> fail (Thrown ''std::out_of_range'')
               | Some start \<Rightarrow> llama_grammar_init_impl n (prules P) start lz words tokens))"

section \<open>The shape of the rules under construction\<close>

text \<open>What may follow a sequence of elements, in the sense of \<open>wf_elements\<close>; \<open>None\<close> when the
  sequence is not the start of a well-formed rule.\<close>

fun shape :: "nat \<Rightarrow> grule \<Rightarrow> nat option" where
  "shape m [] = Some m"
| "shape m (e # els) =
     (case gtype e of
        LLAMA_GRETYPE_END \<Rightarrow> None
      | LLAMA_GRETYPE_ALT \<Rightarrow> shape 0 els
      | LLAMA_GRETYPE_RULE_REF \<Rightarrow> shape 0 els
      | LLAMA_GRETYPE_CHAR \<Rightarrow> shape 1 els
      | LLAMA_GRETYPE_CHAR_NOT \<Rightarrow> shape 1 els
      | LLAMA_GRETYPE_CHAR_RNG_UPPER \<Rightarrow> if m = 1 then shape 2 els else None
      | LLAMA_GRETYPE_CHAR_ALT \<Rightarrow> if m = 1 \<or> m = 2 then shape 1 els else None
      | LLAMA_GRETYPE_CHAR_ANY \<Rightarrow> shape 0 els)"

lemma shape_append: "shape m (xs @ ys) = Option.bind (shape m xs) (\<lambda>m'. shape m' ys)"
  by (induction xs arbitrary: m) (auto split: llama_gretype.split)

lemma shape_weaken: "shape 0 els = Some k \<Longrightarrow> \<exists>k'. shape m els = Some k'"
  by (cases els) (auto split: llama_gretype.splits)

definition refs_ok :: "(nat \<Rightarrow> bool) \<Rightarrow> grule \<Rightarrow> bool" where
  "refs_ok ok els \<longleftrightarrow> (\<forall>e \<in> set els. gtype e = LLAMA_GRETYPE_RULE_REF \<longrightarrow> ok (gvalue e))"

lemma refs_ok_simps [simp]:
  "refs_ok ok []" "refs_ok ok (e # els) \<longleftrightarrow> (gtype e = LLAMA_GRETYPE_RULE_REF \<longrightarrow> ok (gvalue e)) \<and> refs_ok ok els"
  "refs_ok ok (xs @ ys) \<longleftrightarrow> refs_ok ok xs \<and> refs_ok ok ys"
  by (auto simp: refs_ok_def)

lemma wf_elements_shape:
  "shape m els = Some k \<Longrightarrow> refs_ok (\<lambda>v. v < n) els \<Longrightarrow> wf_elements n m (els @ [Elem LLAMA_GRETYPE_END 0])"
  by (induction els arbitrary: m) (auto split: llama_gretype.splits if_splits)

text \<open>A sequence whose elements from a symbol boundary on may be copied.\<close>

definition seq_ok :: "grule \<Rightarrow> bool" where
  "seq_ok els \<longleftrightarrow> shape 0 els \<noteq> None"

lemma seq_ok_append: "seq_ok xs \<Longrightarrow> seq_ok ys \<Longrightarrow> seq_ok (xs @ ys)"
  unfolding seq_ok_def by (auto simp: shape_append intro: shape_weaken)

lemma seq_ok_simps [simp]:
  "seq_ok []" "seq_ok [Elem LLAMA_GRETYPE_RULE_REF v]" "seq_ok [Elem LLAMA_GRETYPE_ALT v]"
  "seq_ok [Elem LLAMA_GRETYPE_CHAR v]" "seq_ok [Elem LLAMA_GRETYPE_CHAR_ANY v]"
  by (simp_all add: seq_ok_def)

lemma seq_ok_concat: "seq_ok xs \<Longrightarrow> seq_ok (concat (replicate n xs))"
  by (induction n) (auto intro: seq_ok_append)

end
