(* ===== verification/GrammarText.thy ===== *)
theory GrammarText
  imports GrammarParser
begin

text \<open>
  What the parser of the grammar notation promises: it returns for every text, and the rules it
  returns have the shape the automaton relies on. The parser for a nested group is an interface, the
  locale \<open>group_parser\<close>: the loop over the items of a sequence is verified once against it, and the
  parser itself is shown to satisfy it by induction on the nesting depth.
\<close>

section \<open>The state of the parser\<close>

text \<open>A reference is resolved when its rule is in the table, or its symbol has a name of the text, so
  that the final validation finds it. Names made by the parser contain an underscore.\<close>

definition resolved :: "llama_grammar_parser \<Rightarrow> nat \<Rightarrow> bool" where
  "resolved P v \<longleftrightarrow> v < length (prules P) \<or> (\<exists>k. (k, v) \<in> set (symbol_ids P) \<and> CHR ''_'' \<notin> set k)"

definition rule_ok :: "llama_grammar_parser \<Rightarrow> grule \<Rightarrow> bool" where
  "rule_ok P rule \<longleftrightarrow>
     (rule \<noteq> [] \<longrightarrow> (\<exists>els. rule = els @ [Elem LLAMA_GRETYPE_END 0] \<and> seq_ok els \<and> refs_ok (resolved P) els))"

definition parser_ok :: "llama_grammar_parser \<Rightarrow> bool" where
  "parser_ok P \<longleftrightarrow> (\<forall>rule \<in> set (prules P). rule_ok P rule)"

definition extends :: "llama_grammar_parser \<Rightarrow> llama_grammar_parser \<Rightarrow> bool" where
  "extends P P' \<longleftrightarrow> length (prules P) \<le> length (prules P') \<and>
     (\<forall>kv \<in> set (symbol_ids P). CHR ''_'' \<notin> set (fst kv) \<longrightarrow> kv \<in> set (symbol_ids P'))"

lemma extends_refl [simp, intro]: "extends P P"
  by (simp add: extends_def)

lemma extends_trans [trans]: "extends P Q \<Longrightarrow> extends Q R \<Longrightarrow> extends P R"
  by (auto simp: extends_def)

lemma resolved_extends: "extends P P' \<Longrightarrow> resolved P v \<Longrightarrow> resolved P' v"
  by (fastforce simp: extends_def resolved_def)

lemma refs_extends: "extends P P' \<Longrightarrow> refs_ok (resolved P) els \<Longrightarrow> refs_ok (resolved P') els"
  by (auto simp: refs_ok_def intro: resolved_extends)

lemma rule_ok_extends: "extends P P' \<Longrightarrow> rule_ok P rule \<Longrightarrow> rule_ok P' rule"
  by (auto simp: rule_ok_def intro: refs_extends)

lemma get_symbol_id_ok:
  assumes "get_symbol_id P name = (P', i)" and "CHR ''_'' \<notin> set name"
  shows "extends P P'" and "prules P' = prules P" and "resolved P' i"
  using assms unfolding get_symbol_id_def Let_def
  by (auto simp: extends_def resolved_def split: option.splits dest!: map_of_SomeD)

lemma map_put_keeps: "kv \<in> set m \<Longrightarrow> fst kv \<noteq> k \<Longrightarrow> kv \<in> set (map_put k v m)"
  by (induction k v m rule: map_put.induct) auto

lemma generate_symbol_id_ok:
  assumes "generate_symbol_id P base = (P', i)"
  shows "extends P P'" and "prules P' = prules P"
  using assms unfolding generate_symbol_id_def Let_def
  by (auto simp: extends_def intro!: map_put_keeps)

lemma parser_ok_extends: "parser_ok P \<Longrightarrow> extends P P' \<Longrightarrow> prules P' = prules P \<Longrightarrow> parser_ok P'"
  by (auto simp: parser_ok_def intro: rule_ok_extends)

lemma add_rule_extends: "extends P (add_rule P i rule)"
  by (auto simp: add_rule_def extends_def Let_def)

lemma add_rule_length: "i < length (prules (add_rule P i rule))"
  by (auto simp: add_rule_def Let_def)

lemma add_rule_ok:
  assumes "parser_ok P" and "rule_ok (add_rule P i rule) rule"
  shows "parser_ok (add_rule P i rule)"
proof -
  have "set (prules (add_rule P i rule)) \<subseteq> insert rule (insert [] (set (prules P)))"
    by (auto simp: add_rule_def Let_def dest!: set_update_subset_insert [THEN subsetD] split: if_splits)
  moreover have "rule_ok (add_rule P i rule) []" by (simp add: rule_ok_def)
  ultimately show ?thesis
    using assms rule_ok_extends [OF add_rule_extends] unfolding parser_ok_def by blast
qed

section \<open>Repetitions\<close>

lemma optional_rules_ok:
  assumes "optional_rules n first unbounded name prev P prior = (P', i)" and "parser_ok P"
    and "seq_ok prev" and "refs_ok (resolved P) prev" and "first \<or> prior < length (prules P)"
  shows "parser_ok P' \<and> extends P P' \<and> (n > 0 \<or> \<not> first \<longrightarrow> i < length (prules P'))"
  using assms
proof (induction n arbitrary: first P prior)
  case 0
  then show ?case by auto
next
  case (Suc n)
  obtain P1 rec where g: "generate_symbol_id P name = (P1, rec)" by force
  define els where "els = prev @
    (if \<not> first \<or> unbounded then [Elem LLAMA_GRETYPE_RULE_REF (if unbounded then rec else prior)] else []) @
    [Elem LLAMA_GRETYPE_ALT 0]"
  define P2 where "P2 = add_rule P1 rec (els @ [Elem LLAMA_GRETYPE_END 0])"
  note P1 = generate_symbol_id_ok [OF g]
  have ext: "extends P P2" using P1(1) add_rule_extends extends_trans unfolding P2_def by blast
  have rec: "rec < length (prules P2)" unfolding P2_def by (rule add_rule_length)
  have "prior < length (prules P2)" if "\<not> first" using that Suc.prems(5) ext by (auto simp: extends_def)
  then have "refs_ok (resolved P2) els"
    using refs_extends [OF ext Suc.prems(4)] rec unfolding els_def by (auto simp: resolved_def)
  moreover have "seq_ok els" unfolding els_def using Suc.prems(3) by (auto intro!: seq_ok_append simp: seq_ok_def [of "[_, _]"])
  ultimately have "rule_ok P2 (els @ [Elem LLAMA_GRETYPE_END 0])" by (auto simp: rule_ok_def)
  then have ok: "parser_ok P2"
    unfolding P2_def using parser_ok_extends [OF Suc.prems(2) P1] by (intro add_rule_ok) auto
  have "optional_rules n False unbounded name prev P2 rec = (P', i)"
    using Suc.prems(1) unfolding optional_rules.simps g Let_def prod.case P2_def els_def append_assoc append.simps .
  from Suc.IH [OF this ok Suc.prems(3) refs_extends [OF ext Suc.prems(4)]] rec
  show ?case using extends_trans [OF ext] by auto
qed

text \<open>A rule under construction, with the boundary of its last symbol.\<close>

definition building :: "llama_grammar_parser \<Rightarrow> grule \<Rightarrow> nat \<Rightarrow> bool" where
  "building P rule k \<longleftrightarrow> k \<le> length rule \<and> seq_ok (take k rule) \<and> seq_ok (drop k rule) \<and> refs_ok (resolved P) rule"

lemma building_seq: "building P rule k \<Longrightarrow> seq_ok rule"
  unfolding building_def using seq_ok_append [of "take k rule" "drop k rule"] by simp

lemma building_add:
  assumes "building P rule k" and "extends P P'" and "seq_ok els" and "refs_ok (resolved P') els"
  shows "building P' (rule @ els) (length rule)"
  using assms building_seq [OF assms(1)] refs_extends [OF assms(2)] by (auto simp: building_def)

lemma refs_take_drop: "refs_ok ok els \<Longrightarrow> refs_ok ok (take k els) \<and> refs_ok ok (drop k els)"
  by (auto simp: refs_ok_def dest: in_set_takeD in_set_dropD)

lemma refs_concat: "refs_ok ok xs \<Longrightarrow> refs_ok ok (concat (replicate n xs))"
  by (induction n) auto

lemma handle_repetitions_ok:
  assumes "handle_repetitions pos name k lo hi P rule = Inr (P', rule')" and "parser_ok P" and "building P rule k"
  shows "parser_ok P' \<and> extends P P' \<and> building P' rule' k"
proof -
  define prev where "prev = drop k rule"
  define n_opt where "n_opt = (if hi < 0 then 1 else hi - lo)"
  define rule1 where "rule1 = (if lo = 0 then take k rule else rule @ concat (replicate (nat (lo - 1)) prev))"
  obtain P1 i where opt: "optional_rules (nat n_opt) True (hi < 0) name prev P 0 = (P1, i)" by force
  have r: "P' = P1" "rule' = (if n_opt > 0 then rule1 @ [Elem LLAMA_GRETYPE_RULE_REF i] else rule1)"
    using assms(1) unfolding handle_repetitions_def Let_def prev_def [symmetric] n_opt_def [symmetric]
      rule1_def [symmetric] opt prod.case by (simp_all split: if_splits)
  have b: "k \<le> length rule" "seq_ok (take k rule)" "seq_ok prev" "refs_ok (resolved P) rule"
    using assms(3) by (auto simp: building_def prev_def)
  then have refs: "refs_ok (resolved P) (take k rule)" "refs_ok (resolved P) prev"
    unfolding prev_def by (auto dest: refs_take_drop)
  from optional_rules_ok [OF opt assms(2) b(3) refs(2)]
  have P1: "parser_ok P1" "extends P P1" "n_opt > 0 \<Longrightarrow> i < length (prules P1)" by auto
  have len: "length (take k rule) = k" using b(1) by simp
  obtain els where els: "rule1 = take k rule @ els" "seq_ok els" "refs_ok (resolved P) els"
  proof (cases "lo = 0")
    case True
    then show ?thesis using that [of "[]"] by (simp add: rule1_def)
  next
    case False
    have "rule1 = take k rule @ prev @ concat (replicate (nat (lo - 1)) prev)"
      using False by (simp add: rule1_def prev_def)
    then show ?thesis using that b(3) refs(2) by (simp add: seq_ok_append seq_ok_concat refs_concat)
  qed
  define els' where "els' = els @ (if n_opt > 0 then [Elem LLAMA_GRETYPE_RULE_REF i] else [])"
  have "rule' = take k rule @ els'" unfolding r(2) els'_def els(1) by simp
  moreover have "seq_ok els'" unfolding els'_def using els(2) by (auto intro: seq_ok_append)
  moreover have "refs_ok (resolved P1) els'"
    unfolding els'_def using refs_extends [OF P1(2) els(3)] P1(3) by (auto simp: resolved_def)
  ultimately have "building P' rule' k"
    unfolding building_def r(1) using b len refs_extends [OF P1(2) refs(1)] by auto
  with P1 r(1) show ?thesis by blast
qed


section \<open>Literals and character ranges\<close>

lemma literal_loop_ok:
  "literal_loop pos rule = Inr (pos', rule') \<Longrightarrow>
     length pos' < length pos \<and> (\<exists>els. rule' = rule @ els \<and> seq_ok els \<and> refs_ok ok els)"
proof (induction pos rule rule: literal_loop.induct)
  case (1 pos rule)
  obtain c cs where pos: "pos = c # cs" using "1.prems" by (subst (asm) literal_loop.simps) (auto split: list.splits)
  show ?case
  proof (cases "c = CHR 0x22")
    case True
    have "pos' = cs" "rule' = rule" using "1.prems" True unfolding pos by (simp_all add: literal_loop.simps)
    then show ?thesis using pos by (auto intro: exI [of _ "[]"])
  next
    case False
    obtain v pos1 where v: "parse_char pos = Inr (v, pos1)"
      and l: "literal_loop pos1 (rule @ [Elem LLAMA_GRETYPE_CHAR v]) = Inr (pos', rule')"
      using "1.prems" False pos by (subst (asm) literal_loop.simps) (auto split: sum.splits)
    from "1.IH" [OF pos False v refl l]
    obtain els where "rule' = rule @ Elem LLAMA_GRETYPE_CHAR v # els" "seq_ok els" "refs_ok ok els"
      "length pos' < length pos1" by auto
    then show ?thesis using parse_char_length [OF v] seq_ok_append [of "[Elem LLAMA_GRETYPE_CHAR v]" els]
      by (intro conjI exI [of _ "Elem LLAMA_GRETYPE_CHAR v # els"]) auto
  qed
qed

text \<open>The part of a range read so far: nothing, or characters that another may follow.\<close>

definition class_ok :: "grule \<Rightarrow> bool" where
  "class_ok els \<longleftrightarrow> els = [] \<or> shape 0 els = Some 1 \<or> shape 0 els = Some 2"

lemma class_ok_add:
  assumes "class_ok els" and "start \<in> {LLAMA_GRETYPE_CHAR, LLAMA_GRETYPE_CHAR_NOT}"
  shows "shape 0 (els @ [Elem (if els = [] then start else LLAMA_GRETYPE_CHAR_ALT) v]) = Some 1"
  using assms by (auto simp: class_ok_def shape_append)

lemma class_loop_ok:
  assumes "class_loop pos start (length rule) (rule @ els) = Inr (pos', rule')"
    and "class_ok els" and "start \<in> {LLAMA_GRETYPE_CHAR, LLAMA_GRETYPE_CHAR_NOT}" and "refs_ok ok els"
  shows "length pos' < length pos \<and> (\<exists>els'. rule' = rule @ els' \<and> class_ok els' \<and> refs_ok ok els')"
  using assms
proof (induction "length pos" arbitrary: pos els rule: less_induct)
  case less
  obtain c cs where pos: "pos = c # cs" using less.prems(1) by (subst (asm) class_loop.simps) (auto split: list.splits)
  show ?case
  proof (cases "c = CHR '']''")
    case True
    have "pos' = cs" "rule' = rule @ els"
      using less.prems(1) True unfolding pos by (simp_all add: class_loop.simps)
    with less.prems show ?thesis using pos by auto
  next
    case False
    obtain v pos1 where v: "parse_char pos = Inr (v, pos1)"
      using less.prems(1) False pos by (subst (asm) class_loop.simps) (auto split: sum.splits)
    define ty where "ty = (if els = [] then start else LLAMA_GRETYPE_CHAR_ALT)"
    define els1 where "els1 = els @ [Elem ty v]"
    have els1: "shape 0 els1 = Some 1" unfolding els1_def ty_def by (rule class_ok_add) (use less.prems in auto)
    have refs: "refs_ok ok els1" unfolding els1_def ty_def using less.prems(3,4) by auto
    note len = parse_char_length [OF v]
    define more where "more \<longleftrightarrow> pos1 \<noteq> [] \<and> hd pos1 = CHR ''-'' \<and> (tl pos1 = [] \<or> hd (tl pos1) \<noteq> CHR '']'')"
    have step: "class_loop pos start (length rule) (rule @ els) =
      (if more then if tl pos1 = [] then Inl (Thrown ''unexpected end of input'')
         else (case parse_char (tl pos1) of Inl e \<Rightarrow> Inl e
               | Inr (u, pos2) \<Rightarrow> class_loop pos2 start (length rule)
                   (rule @ els1 @ [Elem LLAMA_GRETYPE_CHAR_RNG_UPPER u]))
       else class_loop pos1 start (length rule) (rule @ els1))"
      using False v pos unfolding more_def els1_def ty_def
      by (subst class_loop.simps) (auto simp: Let_def split: sum.split)
    show ?thesis
    proof (cases more)
      case True
      obtain u pos2 where u: "parse_char (tl pos1) = Inr (u, pos2)"
        and l: "class_loop pos2 start (length rule) (rule @ els1 @ [Elem LLAMA_GRETYPE_CHAR_RNG_UPPER u]) = Inr (pos', rule')"
        using less.prems(1) True unfolding step by (auto split: if_splits sum.splits)
      have len2: "length pos2 < length pos" using parse_char_length [OF u] len by simp
      have "class_ok (els1 @ [Elem LLAMA_GRETYPE_CHAR_RNG_UPPER u])"
        using els1 by (simp add: class_ok_def shape_append)
      from less.hyps [OF len2 l this less.prems(3)] refs len2 show ?thesis by auto
    next
      case False
      with less.prems(1) step have l: "class_loop pos1 start (length rule) (rule @ els1) = Inr (pos', rule')" by simp
      from less.hyps [OF len l _ less.prems(3) refs] els1 len show ?thesis by (auto simp: class_ok_def)
    qed
  qed
qed

lemma class_seq_ok: "class_ok els \<Longrightarrow> seq_ok els"
  by (auto simp: class_ok_def seq_ok_def)


section \<open>Items of a sequence\<close>

lemma parse_space_length: "length (parse_space s b) \<le> length s"
proof (induction s b rule: parse_space.induct)
  case (2 c cs b)
  have "length (dropWhile f cs) \<le> length cs" for f :: "char \<Rightarrow> bool" by (rule length_dropWhile_le)
  with 2 show ?case by (auto intro: le_trans le_SucI)
qed simp

lemma parse_name_ok:
  assumes "parse_name src = Inr (name, rest)"
  shows "CHR ''_'' \<notin> set name \<and> length rest < length src"
proof -
  have "name = takeWhile is_word_char src" "rest = dropWhile is_word_char src" "name \<noteq> []"
    using assms by (auto simp: parse_name_def Let_def split: if_splits)
  moreover have "\<not> is_word_char (CHR ''_'')" by code_simp
  moreover have "length (takeWhile is_word_char src) + length (dropWhile is_word_char src) = length src"
    by (metis length_append takeWhile_dropWhile_id)
  ultimately show ?thesis by (auto dest: set_takeWhileD simp: length_greater_0_conv [symmetric] simp del: length_greater_0_conv)
qed

lemma parse_int_length: "parse_int src = Inr (digits, rest) \<Longrightarrow> length rest \<le> length src"
  by (auto simp: parse_int_def Let_def length_dropWhile_le split: if_splits)

lemma parse_space_le: "length xs \<le> n \<Longrightarrow> length (parse_space xs b) \<le> n"
  using parse_space_length [of xs b] by simp

lemma parse_space_Cons: "parse_space xs b = y # ys \<Longrightarrow> length xs \<le> n \<Longrightarrow> length ys \<le> n"
  using parse_space_length [of xs b] by simp

lemma second_bound_length:
  "run_post (Some (if pos \<noteq> [] \<and> is_digit_char (hd pos)
      then rbind (parse_int pos) (\<lambda>(digits, int_end). rbind (stoul_int digits) (\<lambda>m. Inr (m, parse_space int_end b)))
      else Inr (-1, pos))) (\<lambda>(m, pos'). length pos' \<le> length pos)"
  by (auto intro!: run_post_rbind parse_space_le dest: parse_int_length)

lemma parse_bounds_length:
  "run_post (Some (parse_bounds pos b)) (\<lambda>(pos', lo, hi). length pos' \<le> length pos)"
proof -
  have after: "run_post (Some (rbind (if pos2 \<noteq> [] \<and> is_digit_char (hd pos2)
        then rbind (parse_int pos2) (\<lambda>(digits, int_end). rbind (stoul_int digits) (\<lambda>m. Inr (m, parse_space int_end b)))
        else Inr (-1, pos2)) (\<lambda>(max_times, pos3).
      case pos3 of
        d # ds \<Rightarrow> if d = CHR ''}'' then Inr (parse_space ds b, min_times, max_times) else Inl (f pos3)
      | [] \<Rightarrow> Inl (f pos3)))) (\<lambda>(pos', lo, hi). length pos' \<le> length pos)"
    if "length pos2 \<le> length pos" for pos2 min_times f
    using second_bound_length [of pos2 b] that
    by (intro run_post_rbind) (auto simp: run_post_def split: list.splits if_splits intro!: parse_space_le)
  show ?thesis
  proof (cases "pos = [] \<or> \<not> is_digit_char (hd pos)")
    case True
    then show ?thesis by (simp add: parse_bounds_def)
  next
    case False
    show ?thesis unfolding parse_bounds_def if_not_P [OF False] Let_def
    proof (rule run_post_rbind, clarify, rule run_post_rbind)
      fix digits rest min_times
      assume "parse_int pos = Inr (digits, rest)"
      then have rest: "length rest \<le> length pos" by (rule parse_int_length)
      show "run_post (Some (case parse_space rest b of
           [] \<Rightarrow> Inl (Thrown (''expecting '' @ [CHR 0x27] @ '','' @ [CHR 0x27] @ '' at '' @ parse_space rest b))
         | c # cs \<Rightarrow> if c = CHR ''}'' then Inr (parse_space cs b, min_times, min_times)
             else if c = CHR '','' then
               rbind (if parse_space cs b \<noteq> [] \<and> is_digit_char (hd (parse_space cs b))
                      then rbind (parse_int (parse_space cs b)) (\<lambda>(digits, int_end).
                             rbind (stoul_int digits) (\<lambda>m. Inr (m, parse_space int_end b)))
                      else Inr (-1, parse_space cs b)) (\<lambda>(max_times, pos3).
               case pos3 of
                 [] \<Rightarrow> Inl (Thrown (''expecting '' @ [CHR 0x27] @ ''}'' @ [CHR 0x27] @ '' at '' @ pos3))
               | d # ds \<Rightarrow> if d = CHR ''}'' then Inr (parse_space ds b, min_times, max_times)
                   else Inl (Thrown (''expecting '' @ [CHR 0x27] @ ''}'' @ [CHR 0x27] @ '' at '' @ pos3)))
             else Inl (Thrown (''expecting '' @ [CHR 0x27] @ '','' @ [CHR 0x27] @ '' at '' @ parse_space rest b))))
        (\<lambda>(pos', lo, hi). length pos' \<le> length pos)"
      proof (cases "parse_space rest b")
        case (Cons c cs)
        have cs: "length (parse_space cs b) \<le> length pos"
          by (rule parse_space_le, rule parse_space_Cons [OF Cons rest])
        show ?thesis unfolding Cons list.case using cs after [OF cs] by (auto simp del: rbind_simps)
      qed simp
    qed
  qed
qed

text \<open>What a sequence parser started at \<open>pos\<close> in state \<open>P\<close> leaves.\<close>

definition seq_post :: "llama_grammar_parser \<Rightarrow> string \<Rightarrow> parsed \<Rightarrow> bool" where
  "seq_post P pos = (\<lambda>(P', pos', rule').
     parser_ok P' \<and> extends P P' \<and> seq_ok rule' \<and> refs_ok (resolved P') rule' \<and> length pos' \<le> length pos)"

lemma seq_post_mono: "seq_post P' pos' r \<Longrightarrow> extends P P' \<Longrightarrow> length pos' \<le> length pos \<Longrightarrow> seq_post P pos r"
  by (auto simp: seq_post_def intro: extends_trans)

locale group_parser =
  fixes alts :: alternates_parser and depth :: nat
  assumes group_ok: "length pos < depth \<Longrightarrow> parser_ok P \<Longrightarrow>
    run_post (alts P pos name i nested)
      (\<lambda>(P', pos'). parser_ok P' \<and> extends P P' \<and> i < length (prules P') \<and> length pos' \<le> length pos)"
begin

lemma items_ok:
  assumes "length pos \<le> depth" and "length pos < n" and "parser_ok P" and "building P rule k"
  shows "run_post (parse_items n alts P pos name rule k nested) (seq_post P pos)"
  using assms
proof (induction n arbitrary: P pos rule k)
  case 0
  then show ?case by simp
next
  case (Suc n)
  have step: "run_post (parse_items n alts P' pos' name rule' k' nested) (seq_post P pos)"
    if "length pos' < length pos" "parser_ok P'" "extends P P'" "building P' rule' k'" for P' pos' rule' k'
    by (rule run_post_mono, rule Suc.IH [of pos' P' rule' k'])
      (use that Suc.prems in \<open>auto intro: seq_post_mono\<close>)
  have sp: "length xs < length pos \<Longrightarrow> length (parse_space xs b) < length pos" for xs b
    using parse_space_length [of xs b] by simp
  note add = building_add [OF Suc.prems(4)]
  show ?case
  proof (cases pos)
    case Nil
    with Suc.prems building_seq [OF Suc.prems(4)] show ?thesis by (simp add: seq_post_def building_def)
  next
    case (Cons c cs)
    have rep: "run_post (run_bind (Some (handle_repetitions pos1 name k lo hi P rule))
        (\<lambda>(P1, rule1). parse_items n alts P1 pos1 name rule1 k nested)) (seq_post P pos)"
      if "length pos1 < length pos" for pos1 lo hi
    proof (rule run_post_bind [where R = "\<lambda>(P1, rule1). parser_ok P1 \<and> extends P P1 \<and> building P1 rule1 k"])
      show "run_post (Some (handle_repetitions pos1 name k lo hi P rule))
          (\<lambda>(P1, rule1). parser_ok P1 \<and> extends P P1 \<and> building P1 rule1 k)"
        by (rule run_post_pure) (use handle_repetitions_ok [OF _ Suc.prems(3,4)] in \<open>blast intro: case_prodI2\<close>)
    qed (auto intro: step [OF that])
    consider (lit) "c = CHR 0x22" | (brk) "c = CHR ''[''" | (word) "is_word_char c" "c \<noteq> CHR 0x22" "c \<noteq> CHR ''[''"
      | (group) "c = CHR ''(''" | (other) "c \<noteq> CHR 0x22" "c \<noteq> CHR ''[''" "\<not> is_word_char c" "c \<noteq> CHR ''(''"
      by blast
    then show ?thesis
    proof cases
      case lit
      have "run_post (Some (literal_loop cs rule)) (\<lambda>(pos1, rule1). length pos1 < length pos \<and> building P rule1 (length rule))"
        using literal_loop_ok [of cs rule _ _ "resolved P"] add [OF extends_refl] Cons
        by (intro run_post_pure) fastforce
      moreover have "parse_items (Suc n) alts P pos name rule k nested =
          run_bind (Some (literal_loop cs rule)) (\<lambda>(pos1, rule1).
            parse_items n alts P (parse_space pos1 nested) name rule1 (length rule) nested)"
        using lit Cons by simp
      ultimately show ?thesis by (auto elim!: run_post_bind intro!: step sp Suc.prems)
    next
      case brk
      obtain start pos0 where s: "(if cs \<noteq> [] \<and> hd cs = CHR ''^'' then (LLAMA_GRETYPE_CHAR_NOT, tl cs)
          else (LLAMA_GRETYPE_CHAR, cs)) = (start, pos0)"
        "start \<in> {LLAMA_GRETYPE_CHAR, LLAMA_GRETYPE_CHAR_NOT}" "length pos0 < length pos"
        using Cons by (cases "cs \<noteq> [] \<and> hd cs = CHR ''^''") auto
      have "run_post (Some (class_loop pos0 start (length rule) rule))
          (\<lambda>(pos1, rule1). length pos1 < length pos \<and> building P rule1 (length rule))"
        using class_loop_ok [of pos0 start rule "[]" _ _ "resolved P"] add [OF extends_refl] s(2,3)
        by (intro run_post_pure) (fastforce simp: class_ok_def [of "[]"] intro: class_seq_ok)
      moreover have "parse_items (Suc n) alts P pos name rule k nested =
          run_bind (Some (class_loop pos0 start (length rule) rule)) (\<lambda>(pos1, rule1).
            parse_items n alts P (parse_space pos1 nested) name rule1 (length rule) nested)"
        using brk Cons s(1) by simp
      ultimately show ?thesis by (auto elim!: run_post_bind intro!: step sp Suc.prems)
    next
      case word
      have "run_post (Some (parse_name pos)) (\<lambda>(nm, rest). CHR ''_'' \<notin> set nm \<and> length rest < length pos)"
        by (rule run_post_pure) (use parse_name_ok in force)
      moreover have "run_post (let (P1, r) = get_symbol_id P nm in parse_items n alts P1 (parse_space rest nested) name
          (rule @ [Elem LLAMA_GRETYPE_RULE_REF r]) (length rule) nested) (seq_post P pos)"
        if "CHR ''_'' \<notin> set nm" "length rest < length pos" for nm rest
      proof -
        obtain P1 r where g: "get_symbol_id P nm = (P1, r)" by force
        note P1 = get_symbol_id_ok [OF g that(1)]
        show ?thesis unfolding g Let_def prod.case
          by (rule step) (use P1 that(2) parser_ok_extends [OF Suc.prems(3) P1(1,2)] in \<open>auto intro: sp add\<close>)
      qed
      moreover have "parse_items (Suc n) alts P pos name rule k nested =
          run_bind (Some (parse_name pos)) (\<lambda>(nm, rest).
            let (P1, r) = get_symbol_id P nm in parse_items n alts P1 (parse_space rest nested) name
              (rule @ [Elem LLAMA_GRETYPE_RULE_REF r]) (length rule) nested)"
        using word Cons by simp
      ultimately show ?thesis by (auto elim!: run_post_bind simp del: parse_items.simps)
    next
      case group
      obtain P1 r where g: "generate_symbol_id P name = (P1, r)" by force
      note P1 = generate_symbol_id_ok [OF g]
      have ok1: "parser_ok P1" by (rule parser_ok_extends [OF Suc.prems(3) P1])
      have len: "length (parse_space cs True) < length pos" using Cons by (intro sp) simp
      have alts: "run_post (alts P1 (parse_space cs True) name r True)
          (\<lambda>(P', pos'). parser_ok P' \<and> extends P P' \<and> r < length (prules P') \<and> length pos' < length pos)"
        by (rule run_post_mono, rule group_ok [OF _ ok1])
          (use len Suc.prems(1) extends_trans [OF P1(1)] in auto)
      have not: "c \<noteq> CHR 0x22" "c \<noteq> CHR ''[''" "\<not> is_word_char c" unfolding group by (simp_all, code_simp)
      have "parse_items (Suc n) alts P pos name rule k nested =
          run_bind (alts P1 (parse_space cs True) name r True) (\<lambda>(P2, pos2).
            if pos2 = [] \<or> hd pos2 \<noteq> CHR '')''
            then fail (Thrown (''expecting '' @ [CHR 0x27] @ '')'' @ [CHR 0x27] @ '' at '' @ pos2))
            else parse_items n alts P2 (parse_space (tl pos2) nested) name
                   (rule @ [Elem LLAMA_GRETYPE_RULE_REF r]) (length rule) nested)"
        using group not g Cons by simp
      then show ?thesis using alts by (auto elim!: run_post_bind simp: resolved_def intro!: step sp add)
    next
      case other
      have sp': "length (parse_space cs nested) < length pos" using Cons by (intro sp) simp
      have bounds: "run_post (Some (parse_bounds (parse_space cs nested) nested)) (\<lambda>(pos1, lo, hi). length pos1 < length pos)"
        by (rule run_post_mono [OF parse_bounds_length]) (use sp' in auto)
      have "run_post (run_bind (Some (parse_bounds (parse_space cs nested) nested)) (\<lambda>(pos1, lo, hi).
          run_bind (Some (handle_repetitions pos1 name k lo hi P rule)) (\<lambda>(P1, rule1).
          parse_items n alts P1 pos1 name rule1 k nested))) (seq_post P pos)"
        by (rule run_post_bind [OF bounds]) (use rep in auto)
      moreover have "run_post (parse_items n alts P (parse_space cs nested) name
          (rule @ [Elem LLAMA_GRETYPE_CHAR_ANY 0]) (length rule) nested) (seq_post P pos)"
        by (rule step [OF sp']) (auto intro: Suc.prems add)
      moreover have "seq_post P pos (P, pos, rule)"
        using Suc.prems(3,4) building_seq [OF Suc.prems(4)] by (simp add: seq_post_def building_def)
      moreover have "parse_items (Suc n) alts P pos name rule k nested =
          (if c = CHR ''.'' then parse_items n alts P (parse_space cs nested) name
               (rule @ [Elem LLAMA_GRETYPE_CHAR_ANY 0]) (length rule) nested
           else if c = CHR ''*'' \<or> c = CHR ''+'' \<or> c = CHR ''?'' then
             run_bind (Some (handle_repetitions (parse_space cs nested) name k
                 (if c = CHR ''+'' then 1 else 0) (if c = CHR ''?'' then 1 else -1) P rule)) (\<lambda>(P1, rule1).
               parse_items n alts P1 (parse_space cs nested) name rule1 k nested)
           else if c = CHR ''{'' then
             run_bind (Some (parse_bounds (parse_space cs nested) nested)) (\<lambda>(pos1, lo, hi).
             run_bind (Some (handle_repetitions pos1 name k lo hi P rule)) (\<lambda>(P1, rule1).
               parse_items n alts P1 pos1 name rule1 k nested))
           else ret (P, pos, rule))"
        using other Cons by (simp add: Let_def)
      ultimately show ?thesis
        using rep [OF sp'] by (simp del: run_bind_simps parse_items.simps)
    qed
  qed
qed

lemma sequence_ok:
  assumes "length pos \<le> depth" and "parser_ok P" and "seq_ok rule" and "refs_ok (resolved P) rule"
  shows "run_post (parse_sequence alts P pos name rule nested) (seq_post P pos)"
  unfolding parse_sequence_def by (rule items_ok) (use assms in \<open>auto simp: building_def\<close>)

lemma alternates_ok:
  assumes "length pos \<le> depth" and "length pos < n" and "parser_ok P" and "seq_ok rule" and "refs_ok (resolved P) rule"
  shows "run_post (alternates_loop n alts P pos name rule nested) (seq_post P pos)"
  using assms
proof (induction n arbitrary: P pos rule)
  case 0
  then show ?case by simp
next
  case (Suc n)
  show ?case
  proof (cases "pos \<noteq> [] \<and> hd pos = CHR ''|''")
    case True
    then have len: "length (parse_space (tl pos) True) < length pos"
      using parse_space_length [of "tl pos" True] by (cases pos) auto
    have seq: "run_post (parse_sequence alts P (parse_space (tl pos) True) name (rule @ [Elem LLAMA_GRETYPE_ALT 0]) nested)
        (seq_post P (parse_space (tl pos) True))"
      by (rule sequence_ok) (use len Suc.prems in \<open>auto intro: seq_ok_append\<close>)
    have rest: "run_post (alternates_loop n alts P1 pos1 name rule1 nested) (seq_post P pos)"
      if "seq_post P (parse_space (tl pos) True) (P1, pos1, rule1)" for P1 pos1 rule1
      by (rule run_post_mono, rule Suc.IH [of pos1 P1 rule1])
        (use that len Suc.prems(1,2) in \<open>auto simp: seq_post_def intro: extends_trans\<close>)
    show ?thesis unfolding alternates_loop.simps if_P [OF True]
      by (rule run_post_bind [OF seq]) (use rest in auto)
  next
    case False
    show ?thesis unfolding alternates_loop.simps if_not_P [OF False] using Suc.prems by (simp add: seq_post_def)
  qed
qed

text \<open>All alternates of a rule, and the rule they make.\<close>

lemma rule_alternates_ok:
  assumes "length src \<le> depth" and "parser_ok P"
  shows "run_post (run_bind (parse_sequence alts P src name [] nested) (\<lambda>(P1, pos1, rule1).
      run_bind (alternates_loop (Suc (length pos1)) alts P1 pos1 name rule1 nested) (\<lambda>(P2, pos2, rule2).
      ret (add_rule P2 i (rule2 @ [Elem LLAMA_GRETYPE_END 0]), pos2))))
    (\<lambda>(P', pos'). parser_ok P' \<and> extends P P' \<and> i < length (prules P') \<and> length pos' \<le> length src)"
proof (rule run_post_bind [OF sequence_ok [OF assms]], simp, simp, clarify)
  fix P1 pos1 rule1
  assume s: "seq_post P src (P1, pos1, rule1)"
  have alt: "run_post (alternates_loop (Suc (length pos1)) alts P1 pos1 name rule1 nested) (seq_post P src)"
    by (rule run_post_mono, rule alternates_ok)
      (use s assms(1) in \<open>auto simp: seq_post_def intro: extends_trans\<close>)
  have "parser_ok (add_rule P2 i (rule2 @ [Elem LLAMA_GRETYPE_END 0]))"
    if "parser_ok P2" "seq_ok rule2" "refs_ok (resolved P2) rule2" for P2 rule2
    by (rule add_rule_ok [OF that(1)])
      (use that refs_extends [OF add_rule_extends] in \<open>auto simp: rule_ok_def\<close>)
  then show "run_post (run_bind (alternates_loop (Suc (length pos1)) alts P1 pos1 name rule1 nested) (\<lambda>(P2, pos2, rule2).
      ret (add_rule P2 i (rule2 @ [Elem LLAMA_GRETYPE_END 0]), pos2)))
    (\<lambda>(P', pos'). parser_ok P' \<and> extends P P' \<and> i < length (prules P') \<and> length pos' \<le> length src)"
    by (intro run_post_bind [OF alt])
      (auto simp: seq_post_def add_rule_length intro: extends_trans [OF _ add_rule_extends])
qed

end

section \<open>The parser satisfies its interface\<close>

lemma parse_alternates_group: "group_parser (parse_alternates d) d"
proof (induction d)
  case 0
  show ?case by unfold_locales simp
next
  case (Suc d)
  show ?case
  proof
    fix pos name :: string and P i nested
    assume "length pos < Suc d" and ok: "parser_ok P"
    then have "length pos \<le> d" by simp
    from group_parser.rule_alternates_ok [OF Suc.IH this ok]
    show "run_post (parse_alternates (Suc d) P pos name i nested)
      (\<lambda>(P', pos'). parser_ok P' \<and> extends P P' \<and> i < length (prules P') \<and> length pos' \<le> length pos)"
      unfolding parse_alternates.simps .
  qed
qed

interpretation group: group_parser "parse_alternates d" d for d
  by (rule parse_alternates_group)

section \<open>Whole texts\<close>

lemma parse_rule_ok:
  assumes "parser_ok P"
  shows "run_post (parse_rule P src) (\<lambda>(P', pos'). parser_ok P' \<and> extends P P' \<and> length pos' < length src)"
proof -
  have name: "run_post (Some (parse_name src)) (\<lambda>(name, rest). CHR ''_'' \<notin> set name \<and> length rest < length src)"
    by (rule run_post_pure) (use parse_name_ok in force)
  show ?thesis unfolding parse_rule_def
  proof (rule run_post_bind [OF name], clarify)
    fix name rest :: string
    assume n: "CHR ''_'' \<notin> set name" "length rest < length src"
    obtain P1 i where g: "get_symbol_id P name = (P1, i)" by force
    note P1 = get_symbol_id_ok [OF g n(1)]
    define pos1 where "pos1 = parse_space (drop 3 (parse_space rest False)) True"
    have len: "length pos1 < length src"
      using n(2) parse_space_length [of rest False] parse_space_length [of "drop 3 (parse_space rest False)" True]
      by (simp add: pos1_def)
    have "run_post (parse_alternates (Suc (length pos1)) P1 pos1 name i False)
        (\<lambda>(P', pos'). parser_ok P' \<and> extends P P' \<and> length pos' < length src)"
      by (rule run_post_mono, rule group.group_ok)
        (use len parser_ok_extends [OF assms P1(1,2)] extends_trans [OF P1(1)] in auto)
    then show "run_post (let pos = parse_space rest False; (P1, rule_id) = get_symbol_id P name
        in if take 3 pos \<noteq> ''::='' then fail (Thrown (''expecting ::= at '' @ pos))
           else let pos1 = parse_space (drop 3 pos) True
                in run_bind (parse_alternates (Suc (length pos1)) P1 pos1 name rule_id False) (\<lambda>(P2, pos2).
                   case pos2 of
                     [] \<Rightarrow> ret (P2, [])
                   | c # cs \<Rightarrow>
                       if c = CHR 0x0D
                       then ret (P2, parse_space (if cs \<noteq> [] \<and> hd cs = CHR 0x0A then tl cs else cs) True)
                       else if c = CHR 0x0A then ret (P2, parse_space cs True)
                       else fail (Thrown (''expecting newline or end at '' @ pos2))))
      (\<lambda>(P', pos'). parser_ok P' \<and> extends P P' \<and> length pos' < length src)"
      unfolding g Let_def prod.case pos1_def [symmetric]
      by (auto elim!: run_post_bind split: list.split intro!: le_less_trans [OF parse_space_length])
  qed
qed

lemma parse_rules_ok:
  assumes "parser_ok P" and "length pos < n"
  shows "run_post (parse_rules n P pos) parser_ok"
  using assms
proof (induction n arbitrary: P pos)
  case (Suc n)
  show ?case
  proof (cases "pos = []")
    case False
    show ?thesis unfolding parse_rules.simps if_not_P [OF False]
      by (rule run_post_bind [OF parse_rule_ok [OF Suc.prems(1)]]) (use Suc in \<open>auto\<close>)
  qed (use Suc.prems in simp)
qed simp

lemma first_fault_None: "first_fault f xs = None \<longleftrightarrow> (\<forall>x \<in> set xs. f x = None)"
  by (induction xs) (auto split: option.splits)

lemma validated_rules:
  assumes "parser_ok P" and "validate P = None"
  shows "wf_rules (prules P)"
proof -
  have "wf_elements (length (prules P)) 0 rule" if rule: "rule \<in> set (prules P)" for rule
  proof -
    have v: "rule \<noteq> []" "\<forall>e \<in> set rule. undefined_ref P e = None"
      using assms(2) rule unfolding validate_def first_fault_None by (auto split: if_splits simp: first_fault_None)
    obtain els where els: "rule = els @ [Elem LLAMA_GRETYPE_END 0]" "seq_ok els" "refs_ok (resolved P) els"
      using assms(1) rule v(1) unfolding parser_ok_def rule_ok_def by blast
    have "gvalue e < length (prules P)" if e: "e \<in> set els" "gtype e = LLAMA_GRETYPE_RULE_REF" for e
    proof (rule ccontr)
      assume not: "\<not> gvalue e < length (prules P)"
      then obtain k where "(k, gvalue e) \<in> set (symbol_ids P)"
        using els(3) e unfolding refs_ok_def resolved_def by blast
      moreover have "List.find (\<lambda>(_, i). i = gvalue e) (symbol_ids P) = None"
        using bspec [OF v(2), of e] e els(1) not by (simp add: undefined_ref_def)
      ultimately show False by (auto simp: find_None_iff)
    qed
    then have "refs_ok (\<lambda>v. v < length (prules P)) els" by (simp add: refs_ok_def)
    with els(2) show ?thesis unfolding els(1) seq_ok_def by (auto intro: wf_elements_shape)
  qed
  then show ?thesis by (simp add: wf_rules_def list_all_iff)
qed

lemma parse_post: "run_post (parse src) (\<lambda>r. \<forall>P. r = Some P \<longrightarrow> wf_rules (prules P))"
proof -
  have "parser_ok \<lparr>symbol_ids = [], prules = []\<rparr>" by (simp add: parser_ok_def)
  moreover define m where "m = parse_rules (Suc (length (parse_space src True))) \<lparr>symbol_ids = [], prules = []\<rparr> (parse_space src True)"
  ultimately have "run_post m parser_ok" using parse_rules_ok by blast
  then show ?thesis unfolding parse_def Let_def m_def [symmetric]
    by (cases m; simp; rename_tac r; case_tac r) (auto split: option.splits fault.split dest: validated_rules)
qed

section \<open>Properties\<close>




end
