(* ===== verification/GrammarRepeat.thy ===== *)
theory GrammarRepeat
  imports GrammarText
begin

text \<open>
  The meaning of the repetition operators. \<open>handle_repetitions\<close> rewrites \<open>S{m,n}\<close> into copies of \<open>S\<close>
  and a chain of optional rules; the rewritten elements are shown to generate the concatenations of
  at least \<open>m\<close> and at most \<open>n\<close> words of \<open>S\<close>.
\<close>

section \<open>What a sequence of symbols generates\<close>

definition plain :: "grule \<Rightarrow> bool" where
  "plain els \<longleftrightarrow> (\<forall>e \<in> set els. \<not> llama_grammar_is_end_of_sequence e)"

definition modifier :: "llama_grammar_element \<Rightarrow> bool" where
  "modifier e \<longleftrightarrow> gtype e \<in> {LLAMA_GRETYPE_CHAR_ALT, LLAMA_GRETYPE_CHAR_RNG_UPPER}"

abbreviation END :: llama_grammar_element where
  "END \<equiv> Elem LLAMA_GRETYPE_END 0"

definition symbols :: "grules \<Rightarrow> grule \<Rightarrow> nat list \<Rightarrow> bool" where
  "symbols rs els w \<longleftrightarrow> gen rs (els @ [END]) w"

lemma plain_simps [simp]:
  "plain []" "plain (e # els) \<longleftrightarrow> \<not> llama_grammar_is_end_of_sequence e \<and> plain els"
  "plain (xs @ ys) \<longleftrightarrow> plain xs \<and> plain ys"
  by (auto simp: plain_def)

lemma ranges_append:
  "\<not> modifier y \<Longrightarrow> \<not> modifier y' \<Longrightarrow> ranges (x # xs @ y # ys) = ranges (x # xs @ y' # ys')"
proof (induction "x # xs" arbitrary: x xs rule: length_induct)
  case 1
  show ?case
  proof (cases xs)
    case Nil
    with 1 show ?thesis by (auto simp: modifier_def)
  next
    case (Cons e1 els)
    show ?thesis
    proof (cases els)
      case Nil
      with 1 Cons show ?thesis by (auto simp: modifier_def)
    next
      case (Cons e2 els2)
      have "ranges (e2 # els2 @ y # ys) = ranges (e2 # els2 @ y' # ys')"
        "ranges (e1 # e2 # els2 @ y # ys) = ranges (e1 # e2 # els2 @ y' # ys')"
        using "1.hyps" [rule_format, of "e2 # els2" e2 els2] "1.hyps" [rule_format, of "e1 # e2 # els2" e1 "e2 # els2"]
          "1.prems" Cons \<open>xs = e1 # els\<close> by auto
      with Cons \<open>xs = e1 # els\<close> show ?thesis by auto
    qed
  qed
qed

lemma span_append: "\<not> modifier y \<Longrightarrow> span (x # xs @ y # ys) = span (x # xs) \<and> span (x # xs) \<le> length (x # xs)"
  by (induction xs) (auto simp: span_def modifier_def)

lemma plain_drop: "plain els \<Longrightarrow> plain (drop n els)"
  by (auto simp: plain_def dest: in_set_dropD)

lemma Cons_append_ex:
  "(\<exists>c v. w = c # v \<and> I c \<and> (\<exists>x y. v = x @ y \<and> A x \<and> B y)) \<longleftrightarrow>
   (\<exists>u v. w = u @ v \<and> (\<exists>c x. u = c # x \<and> I c \<and> A x) \<and> B v)"
  by (auto 0 0 intro: exI [of _ "_ # _"]) (metis append_Cons, blast)

lemma gen_append:
  assumes "plain xs" and "\<not> modifier y"
  shows "gen rs (xs @ y # ys) w \<longleftrightarrow> (\<exists>u v. w = u @ v \<and> symbols rs xs u \<and> gen rs (y # ys) v)"
  using assms(1)
proof (induction xs arbitrary: w rule: length_induct)
  case (1 xs)
  have E: "\<not> modifier END" "llama_grammar_is_end_of_sequence END"
    by (simp_all add: modifier_def llama_grammar_is_end_of_sequence_def)
  show ?case
  proof (cases xs)
    case Nil
    then show ?thesis by (simp add: symbols_def gen_at_end [OF E(2)])
  next
    case (Cons e els)
    consider (ref) "gtype e = LLAMA_GRETYPE_RULE_REF"
      | (char) "gtype e \<in> {LLAMA_GRETYPE_CHAR, LLAMA_GRETYPE_CHAR_NOT, LLAMA_GRETYPE_CHAR_ANY}"
      | (none) "modifier e"
      using "1.prems" Cons by (cases "gtype e") (auto simp: modifier_def llama_grammar_is_end_of_sequence_def)
    then show ?thesis
    proof cases
      case ref
      from "1.IH" [rule_format, of els] "1.prems" Cons
      have IH: "gen rs (els @ y # ys) w' \<longleftrightarrow> (\<exists>u v. w' = u @ v \<and> symbols rs els u \<and> gen rs (y # ys) v)" for w' by simp
      show ?thesis unfolding Cons symbols_def append.simps gen_at_ref [OF ref] IH
        unfolding symbols_def by (metis append.assoc)
    next
      case char
      define k where "k = span (e # els)"
      have k: "span (e # els @ y # ys) = k" "span (e # els @ [END]) = k" "k \<le> length (e # els)" "0 < k"
        using span_append [OF assms(2), of e els ys] span_append [OF E(1), of e els "[]"]
        by (simp_all add: k_def) (simp add: span_def)
      have "length (drop k xs) < length xs" using k(3,4) Cons by simp
      with "1.IH" [rule_format, of "drop k xs"] plain_drop [OF "1.prems"]
      have IH: "gen rs (drop k xs @ y # ys) w' \<longleftrightarrow> (\<exists>u v. w' = u @ v \<and> symbols rs (drop k xs) u \<and> gen rs (y # ys) v)" for w'
        by simp
      have cls: "in_class (e # els @ y # ys) c = in_class (e # els @ [END]) c" for c
        unfolding in_class_def using ranges_append [OF assms(2) E(1), of e els ys "[]"] by simp
      have drop: "drop k (e # els @ zs) = drop k xs @ zs" for zs
        using drop_append [of k xs zs] k(3) unfolding Cons by simp
      have "gen rs (xs @ y # ys) w \<longleftrightarrow>
          (\<exists>c v. w = c # v \<and> in_class (e # els @ [END]) c \<and> (\<exists>u v'. v = u @ v' \<and> symbols rs (drop k xs) u \<and> gen rs (y # ys) v'))"
        unfolding IH [symmetric] drop [symmetric] cls [symmetric] by (simp add: Cons gen_at_char [OF char] k(1))
      moreover have "symbols rs xs u \<longleftrightarrow> (\<exists>c x. u = c # x \<and> in_class (e # els @ [END]) c \<and> symbols rs (drop k xs) x)" for u
        unfolding symbols_def drop [symmetric] by (simp add: Cons gen_at_char [OF char] k(2))
      ultimately show ?thesis by (simp only: Cons_append_ex)
    next
      case none
      then have "\<not> gen rs (e # zs) w'" for zs w'
        by (auto simp: gen_Cons modifier_def llama_grammar_is_end_of_sequence_def)
      then show ?thesis unfolding Cons symbols_def by simp
    qed
  qed
qed

lemma symbols_append:
  assumes "plain xs" and "ys = [] \<or> \<not> modifier (hd ys)"
  shows "symbols rs (xs @ ys) w \<longleftrightarrow> (\<exists>u v. w = u @ v \<and> symbols rs xs u \<and> symbols rs ys v)"
proof (cases ys)
  case Nil
  have "symbols rs [] v \<longleftrightarrow> v = []" for v
    unfolding symbols_def by (simp add: gen_at_end llama_grammar_is_end_of_sequence_def)
  then show ?thesis using Nil by auto
next
  case (Cons y zs)
  then show ?thesis using gen_append [OF assms(1), of y rs "zs @ [END]"] assms(2) unfolding symbols_def by simp
qed


section \<open>Fresh names\<close>

text \<open>Decimal numbers are read back as they were written.\<close>

definition digits_value :: "string \<Rightarrow> nat" where
  "digits_value s = foldl (\<lambda>v c. v * 10 + (of_char c - 48)) 0 s"

lemma digits_value_snoc: "digits_value (s @ [c]) = digits_value s * 10 + (of_char c - 48)"
  by (simp add: digits_value_def)

lemma digits_value_to_string: "digits_value (to_string n) = n"
proof (induction n rule: to_string.induct)
  case (1 n)
  have d: "of_char (to_digit k) - 48 = k" if "k < 10" for k
    using that by (simp add: to_digit_def)
  show ?case
  proof (cases "n < 10")
    case True
    then show ?thesis using d by (subst to_string.simps) (simp add: digits_value_def)
  next
    case False
    then show ?thesis using 1 d [of "n mod 10"] by (subst to_string.simps) (simp add: digits_value_snoc)
  qed
qed

definition fresh :: "string \<Rightarrow> llama_grammar_parser \<Rightarrow> bool" where
  "fresh name P \<longleftrightarrow> (\<forall>m \<ge> length (symbol_ids P). name @ ''_'' @ to_string m \<notin> fst ` set (symbol_ids P))"

lemma map_put_fresh: "k \<notin> fst ` set m \<Longrightarrow> map_put k v m = m @ [(k, v)]"
  by (induction k v m rule: map_put.induct) auto

lemma generate_fresh:
  assumes "fresh name P" and "generate_symbol_id P name = (P', i)"
  shows "i = length (symbol_ids P)" and "length (symbol_ids P') = Suc (length (symbol_ids P))"
    and "prules P' = prules P" and "fresh name P'"
proof -
  have k: "map_put (name @ ''_'' @ to_string i) i (symbol_ids P) = symbol_ids P @ [(name @ ''_'' @ to_string i, i)]"
    and i: "i = length (symbol_ids P)"
    using assms by (auto simp: fresh_def generate_symbol_id_def Let_def intro!: map_put_fresh)
  then have P': "P' = P\<lparr>symbol_ids := symbol_ids P @ [(name @ ''_'' @ to_string i, i)]\<rparr>"
    using assms(2) by (auto simp: generate_symbol_id_def Let_def)
  show "i = length (symbol_ids P)" by (rule i)
  show "length (symbol_ids P') = Suc (length (symbol_ids P))" "prules P' = prules P" using P' by simp_all
  have "to_string m \<noteq> to_string i" if "Suc i \<le> m" for m
    using digits_value_to_string [of m] digits_value_to_string [of i] that by auto
  then show "fresh name P'" using assms(1) i unfolding P' fresh_def by auto
qed

lemma add_rule_nth:
  "prules (add_rule P i rule) ! j = (if j = i then rule else if j < length (prules P) then prules P ! j else [])"
  if "j < length (prules (add_rule P i rule))"
  using that by (auto simp: add_rule_def Let_def nth_append nth_list_update split: if_splits)

lemma add_rule_symbols [simp]: "symbol_ids (add_rule P i rule) = symbol_ids P"
  by (simp add: add_rule_def Let_def)

lemma fresh_add_rule [simp]: "fresh name (add_rule P i rule) = fresh name P"
  by (simp add: fresh_def)

text \<open>The rules \<open>optional_rules\<close> adds are consecutive, each referring to itself or to the one before.\<close>

definition optional_rule :: "bool \<Rightarrow> grule \<Rightarrow> nat option \<Rightarrow> nat \<Rightarrow> grule" where
  "optional_rule unbounded S prior i = S @
     (if unbounded then [Elem LLAMA_GRETYPE_RULE_REF i]
      else case prior of None \<Rightarrow> [] | Some p \<Rightarrow> [Elem LLAMA_GRETYPE_RULE_REF p]) @
     [Elem LLAMA_GRETYPE_ALT 0, END]"

lemma optional_rules_table:
  assumes "optional_rules n first unbounded name S P prior = (P', i)" and "fresh name P"
  defines "b \<equiv> length (symbol_ids P)"
  shows "length (symbol_ids P') = b + n \<and> i = (if n = 0 then prior else b + n - 1) \<and>
    (\<forall>j < n. b + j < length (prules P') \<and> prules P' ! (b + j) = optional_rule unbounded S
       (if j = 0 then (if first then None else Some prior) else Some (b + j - 1)) (b + j)) \<and>
    length (prules P) \<le> length (prules P') \<and> (\<forall>j < b. j < length (prules P) \<longrightarrow> prules P' ! j = prules P ! j)"
  using assms(1,2) unfolding b_def
proof (induction n arbitrary: first P prior)
  case 0
  then show ?case by simp
next
  case (Suc n)
  obtain P1 r where g: "generate_symbol_id P name = (P1, r)" by force
  note P1 = generate_fresh [OF Suc.prems(2) g]
  define rule where "rule = optional_rule unbounded S (if first then None else Some prior) r"
  define P2 where "P2 = add_rule P1 r rule"
  have run: "optional_rules n False unbounded name S P2 r = (P', i)"
    using Suc.prems(1) unfolding optional_rules.simps g Let_def prod.case P2_def rule_def optional_rule_def
    by (cases first; cases unbounded) simp_all
  have P2: "fresh name P2" "length (symbol_ids P2) = Suc r" using P1 by (simp_all add: P2_def)
  from Suc.IH [OF run P2(1)] P2(2)
  have IH: "length (symbol_ids P') = Suc r + n" "i = (if n = 0 then r else r + n)"
    "\<And>j. j < n \<Longrightarrow> Suc r + j < length (prules P') \<and> prules P' ! (Suc r + j) =
        optional_rule unbounded S (if j = 0 then Some r else Some (r + j)) (Suc r + j)"
    "length (prules P2) \<le> length (prules P')"
    "\<And>j. j < Suc r \<Longrightarrow> j < length (prules P2) \<Longrightarrow> prules P' ! j = prules P2 ! j" by simp_all
  have r: "r < length (prules P2)" unfolding P2_def by (rule add_rule_length)
  have len: "length (prules P) \<le> length (prules P2)"
    using add_rule_extends [of P1 r rule] P1(3) by (simp add: P2_def extends_def)
  have at_r: "prules P' ! r = rule" using IH(5) [of r] r add_rule_nth [of r P1 r rule] by (simp add: P2_def)
  have later: "r + j < length (prules P') \<and> prules P' ! (r + j) = optional_rule unbounded S
      (if j = 0 then (if first then None else Some prior) else Some (r + j - 1)) (r + j)" if "j < Suc n" for j
    using that IH(3) [of "j - 1"] at_r r IH(4) by (cases j) (auto simp: rule_def)
  have before: "prules P' ! j = prules P ! j" if "j < r" "j < length (prules P)" for j
    using IH(5) [of j] that len add_rule_nth [of j P1 r rule] P1(3) by (simp add: P2_def)
  show ?case using IH(1,2) later before len IH(4) P1(1) by auto
qed

section \<open>Copies of a symbol\<close>

fun copies :: "grules \<Rightarrow> grule \<Rightarrow> nat \<Rightarrow> nat list \<Rightarrow> bool" where
  "copies rs S 0 w \<longleftrightarrow> w = []"
| "copies rs S (Suc n) w \<longleftrightarrow> (\<exists>u v. w = u @ v \<and> symbols rs S u \<and> copies rs S n v)"

lemma copies_add: "copies rs S (m + n) w \<longleftrightarrow> (\<exists>u v. w = u @ v \<and> copies rs S m u \<and> copies rs S n v)"
proof (induction m arbitrary: w)
  case (Suc m)
  have "copies rs S (Suc m + n) w \<longleftrightarrow> (\<exists>u x y. w = u @ x @ y \<and> symbols rs S u \<and> copies rs S m x \<and> copies rs S n y)"
    using Suc by auto
  also have "\<dots> \<longleftrightarrow> (\<exists>u v. w = u @ v \<and> copies rs S (Suc m) u \<and> copies rs S n v)"
    by (auto, metis append.assoc) (metis append.assoc)
  finally show ?case .
qed simp

lemma symbols_Nil [simp]: "symbols rs [] w \<longleftrightarrow> w = []"
  unfolding symbols_def by (simp add: gen_at_end llama_grammar_is_end_of_sequence_def)

lemma seq_ok_start: "seq_ok (e # els) \<Longrightarrow> \<not> modifier e"
  by (auto simp: seq_ok_def modifier_def)

lemma symbols_replicate:
  assumes "plain S" and "seq_ok S" and "S \<noteq> []"
  shows "symbols rs (concat (replicate n S)) w \<longleftrightarrow> copies rs S n w"
proof (induction n arbitrary: w)
  case (Suc n)
  have "concat (replicate n S) = [] \<or> \<not> modifier (hd (concat (replicate n S)))"
    using assms(2,3) seq_ok_start by (cases n; cases S) auto
  from symbols_append [OF assms(1) this] Suc show ?case by simp
qed simp

lemma symbols_ref: "symbols rs [Elem LLAMA_GRETYPE_RULE_REF i] w \<longleftrightarrow> language rs i w"
  unfolding symbols_def
  by (simp add: gen_at_ref gen_at_end llama_grammar_is_end_of_sequence_def)

section \<open>The optional rules\<close>

lemma optional_alternates:
  assumes "plain S"
  shows "is_alternate (optional_rule unbounded S prior i) alt \<longleftrightarrow> alt = optional_rule unbounded S prior i \<or> alt = [END]"
proof -
  define refs where "refs = (if unbounded then [Elem LLAMA_GRETYPE_RULE_REF i]
    else case prior of None \<Rightarrow> [] | Some p \<Rightarrow> [Elem LLAMA_GRETYPE_RULE_REF p])"
  have r: "optional_rule unbounded S prior i = (S @ refs) @ Elem LLAMA_GRETYPE_ALT 0 # [END]"
    by (simp add: optional_rule_def refs_def)
  have "\<forall>x \<in> set (S @ refs). \<not> llama_grammar_is_end_of_sequence x"
    using assms by (auto simp: refs_def plain_def llama_grammar_is_end_of_sequence_def split: option.splits if_splits)
  from is_alternate_split [OF r _ this]
  have "is_alternate (optional_rule unbounded S prior i) alt \<longleftrightarrow>
      alt = optional_rule unbounded S prior i \<or> is_alternate [END] alt"
    by (simp add: llama_grammar_is_end_of_sequence_def)
  moreover have "is_alternate [END] alt \<longleftrightarrow> alt = [END]"
    by (auto simp: is_alternate_def Cons_eq_append_conv)
  ultimately show ?thesis by simp
qed

lemma gen_END [simp]: "gen rs [END] w \<longleftrightarrow> w = []"
  by (simp add: gen_at_end llama_grammar_is_end_of_sequence_def)

lemma gen_ALT [simp]: "gen rs (Elem LLAMA_GRETYPE_ALT v # els) w \<longleftrightarrow> w = []"
  by (simp add: gen_at_end llama_grammar_is_end_of_sequence_def)

lemma optional_language:
  assumes "plain S" and "i < length rs" and "rs ! i = optional_rule False S prior i"
  shows "language rs i w \<longleftrightarrow> w = [] \<or>
    (case prior of None \<Rightarrow> symbols rs S w | Some p \<Rightarrow> \<exists>u v. w = u @ v \<and> symbols rs S u \<and> language rs p v)"
proof -
  have "language rs i w \<longleftrightarrow> w = [] \<or> gen rs (optional_rule False S prior i) w"
    using assms(2) unfolding language_def assms(3) optional_alternates [OF assms(1)] by auto
  moreover have "gen rs (optional_rule False S prior i) w \<longleftrightarrow>
      (case prior of None \<Rightarrow> symbols rs S w | Some p \<Rightarrow> \<exists>u v. w = u @ v \<and> symbols rs S u \<and> language rs p v)"
    unfolding optional_rule_def
    by (cases prior) (simp_all add: gen_append [OF assms(1)] modifier_def gen_at_ref)
  ultimately show ?thesis by simp
qed

lemma bounded_chain:
  assumes "plain S" and rules: "\<And>j. j < n \<Longrightarrow> b + j < length rs \<and>
    rs ! (b + j) = optional_rule False S (if j = 0 then None else Some (b + j - 1)) (b + j)"
  shows "j < n \<Longrightarrow> language rs (b + j) w \<longleftrightarrow> (\<exists>m \<le> Suc j. copies rs S m w)"
proof (induction j arbitrary: w)
  case 0
  have "(\<exists>m \<le> Suc 0. copies rs S m w) \<longleftrightarrow> w = [] \<or> symbols rs S w"
    by (auto simp: le_Suc_eq)
  then show ?case using optional_language [OF assms(1), of b rs None] rules [OF 0] by simp
next
  case (Suc j)
  have "(\<exists>m \<le> Suc (Suc j). copies rs S m w) \<longleftrightarrow> w = [] \<or> (\<exists>m \<le> Suc j. copies rs S (Suc m) w)"
    by (auto simp: Suc_le_D dest: Suc_le_D) (metis copies.simps not0_implies_Suc Suc_le_mono)+
  then show ?case
    using optional_language [OF assms(1), of "b + Suc j" rs "Some (b + j)" w] rules [OF Suc.prems] Suc by auto
qed

lemma unbounded_sound:
  assumes "plain S" and "rs ! i = optional_rule True S prior i" and "gen rs els w"
  shows "plain xs \<Longrightarrow> els = xs @ [Elem LLAMA_GRETYPE_RULE_REF i, Elem LLAMA_GRETYPE_ALT 0, END] \<Longrightarrow>
    \<exists>u v n. w = u @ v \<and> symbols rs xs u \<and> copies rs S n v"
  using assms(3)
proof (induction arbitrary: xs rule: gen.induct)
  case (gen_end e els)
  then show ?case by (cases xs) (auto simp: llama_grammar_is_end_of_sequence_def)
next
  case (gen_char e els c w)
  then obtain xs' where xs: "xs = e # xs'"
    "els = xs' @ [Elem LLAMA_GRETYPE_RULE_REF i, Elem LLAMA_GRETYPE_ALT 0, END]" by (cases xs) auto
  define k where "k = span (e # xs')"
  have m: "\<not> modifier (Elem LLAMA_GRETYPE_RULE_REF i)" "\<not> modifier END" by (simp_all add: modifier_def)
  have k: "span (e # els) = k" "span (e # xs' @ [END]) = k" "k \<le> length xs"
    using span_append [OF m(1), of e xs'] span_append [OF m(2), of e xs'] by (simp_all add: k_def xs)
  have "drop k (e # els) = drop k xs @ [Elem LLAMA_GRETYPE_RULE_REF i, Elem LLAMA_GRETYPE_ALT 0, END]"
    using drop_append [of k xs] k(3) unfolding xs by simp
  with gen_char.IH [OF plain_drop [OF gen_char.prems(1)]] k(1)
  obtain u v n where u: "w = u @ v" "symbols rs (drop k xs) u" "copies rs S n v" by blast
  have "in_class (e # xs' @ [END]) c"
    using gen_char.hyps(2) ranges_append [OF m(2,1), of e xs' "[]"] unfolding in_class_def xs by simp
  then have "symbols rs xs (c # u)"
    using u(2) gen_char.hyps(1) drop_append [of k xs "[END]"] k(2,3)
    unfolding symbols_def xs by (auto simp: gen_at_char)
  then show ?case using u by (metis append_Cons)
next
  case (gen_ref e alt u els w)
  show ?case
  proof (cases xs)
    case Nil
    with gen_ref.prems have e: "gvalue e = i" "els = [Elem LLAMA_GRETYPE_ALT 0, END]" by auto
    have w: "w = []" using gen_ref.hyps(5) e(2) by simp
    have "alt = optional_rule True S prior i \<or> alt = [END]"
      using gen_ref.hyps(3) unfolding e(1) assms(2) optional_alternates [OF assms(1)] .
    then have "\<exists>n. copies rs S n u"
    proof
      assume "alt = [END]"
      then show ?thesis using gen_ref.hyps(4) by (auto intro: exI [of _ 0])
    next
      assume "alt = optional_rule True S prior i"
      then have "alt = S @ [Elem LLAMA_GRETYPE_RULE_REF i, Elem LLAMA_GRETYPE_ALT 0, END]"
        by (simp add: optional_rule_def)
      from gen_ref.IH(1) [OF assms(1) this] show ?thesis by (metis copies.simps(2))
    qed
    with Nil w show ?thesis by auto
  next
    case (Cons x xs')
    with gen_ref.prems have x: "x = e" "els = xs' @ [Elem LLAMA_GRETYPE_RULE_REF i, Elem LLAMA_GRETYPE_ALT 0, END]" "plain xs'"
      by auto
    from gen_ref.IH(2) [OF x(3,2)]
    obtain u' v n where s: "w = u' @ v" "symbols rs xs' u'" "copies rs S n v" by blast
    have "symbols rs xs (u @ u')"
      unfolding symbols_def Cons x(1) append.simps
      by (rule gen.gen_ref [OF gen_ref.hyps(1-4)]) (use s(2) in \<open>simp add: symbols_def\<close>)
    then show ?thesis using s by (metis append.assoc)
  qed
qed

lemma unbounded_language:
  assumes "plain S" and "i < length rs" and "rs ! i = optional_rule True S prior i"
  shows "language rs i w \<longleftrightarrow> (\<exists>n. copies rs S n w)"
proof
  assume "language rs i w"
  then have "gen rs [Elem LLAMA_GRETYPE_RULE_REF i, Elem LLAMA_GRETYPE_ALT 0, END] w"
    by (simp add: gen_at_ref)
  from unbounded_sound [OF assms(1,3) this, of "[]"] show "\<exists>n. copies rs S n w" by auto
next
  have step: "language rs i w \<longleftrightarrow> w = [] \<or> (\<exists>u v. w = u @ v \<and> symbols rs S u \<and> language rs i v)" for w
  proof -
    have "language rs i w \<longleftrightarrow> gen rs (optional_rule True S prior i) w \<or> w = []"
      using assms(2) unfolding language_def assms(3) optional_alternates [OF assms(1)] by auto
    moreover have "gen rs (optional_rule True S prior i) w \<longleftrightarrow> (\<exists>u v. w = u @ v \<and> symbols rs S u \<and> language rs i v)"
      unfolding optional_rule_def by (simp add: gen_append [OF assms(1)] modifier_def gen_at_ref)
    ultimately show ?thesis by blast
  qed
  assume "\<exists>n. copies rs S n w"
  then obtain n where "copies rs S n w" by blast
  then show "language rs i w"
  proof (induction n arbitrary: w)
    case 0
    then show ?case using step [of w] by auto
  next
    case (Suc n)
    then obtain u v where "w = u @ v" "symbols rs S u" "copies rs S n v" by auto
    with Suc.IH step [of w] show ?case by blast
  qed
qed

section \<open>Repetitions\<close>

text \<open>The elements a repetition leaves: the copies it requires and a reference to the optional ones.\<close>

lemma handle_repetitions_elements:
  assumes "handle_repetitions pos name k lo hi P rule = Inr (P', rule')" and "0 \<le> lo" and "k \<le> length rule"
  defines "S \<equiv> drop k rule" and "n_opt \<equiv> if hi < 0 then 1 else hi - lo"
  shows "\<exists>i. S \<noteq> [] \<and> optional_rules (nat n_opt) True (hi < 0) name S P 0 = (P', i) \<and>
    rule' = take k rule @ concat (replicate (nat lo) S) @ (if n_opt > 0 then [Elem LLAMA_GRETYPE_RULE_REF i] else [])"
proof -
  obtain P1 i where opt: "optional_rules (nat n_opt) True (hi < 0) name S P 0 = (P1, i)" by force
  have "rule @ concat (replicate (nat (lo - 1)) S) = take k rule @ concat (replicate (nat lo) S)" if "lo \<noteq> 0"
  proof -
    have "nat lo = Suc (nat (lo - 1))" using that assms(2) by simp
    then show ?thesis unfolding S_def by (simp add: append_assoc [symmetric])
  qed
  then have "k \<noteq> length rule \<and> P' = P1 \<and>
      rule' = take k rule @ concat (replicate (nat lo) S) @ (if n_opt > 0 then [Elem LLAMA_GRETYPE_RULE_REF i] else [])"
    using assms(1) unfolding handle_repetitions_def Let_def S_def [symmetric] n_opt_def [symmetric] opt prod.case
    by (auto split: if_splits)
  with opt assms(3) show ?thesis by (auto simp: S_def)
qed

lemma optional_reference:
  assumes "optional_rules (nat n_opt) True (hi < 0) name S P 0 = (P', i)" and "fresh name P" and "plain S"
    and n_opt: "n_opt = (if hi < 0 then 1 else hi - lo)" "0 < n_opt"
    and keeps: "\<forall>i. length (symbol_ids P) \<le> i \<and> i < length (symbol_ids P') \<longrightarrow> i < length rs \<and> rs ! i = prules P' ! i"
  shows "language rs i w \<longleftrightarrow> (\<exists>n. (hi < 0 \<or> int n \<le> hi - lo) \<and> copies rs S n w)"
proof -
  define b where "b = length (symbol_ids P)"
  from optional_rules_table [OF assms(1,2)] n_opt(2)
  have table: "length (symbol_ids P') = b + nat n_opt" "i = b + nat n_opt - 1"
    "\<And>j. j < nat n_opt \<Longrightarrow> prules P' ! (b + j) =
        optional_rule (hi < 0) S (if j = 0 then None else Some (b + j - 1)) (b + j)"
    by (simp_all add: b_def)
  have rs: "b + j < length rs \<and> rs ! (b + j) =
      optional_rule (hi < 0) S (if j = 0 then None else Some (b + j - 1)) (b + j)" if "j < nat n_opt" for j
    using keeps [rule_format, of "b + j"] table(1) table(3) [OF that] that unfolding b_def by simp
  show ?thesis
  proof (cases "hi < 0")
    case True
    then have "i = b" "nat n_opt = 1" using table(2) n_opt(1) by simp_all
    then show ?thesis using unbounded_language [OF assms(3), of b rs None] rs [of 0] True by simp
  next
    case False
    define j where "j = nat n_opt - 1"
    have j: "j < nat n_opt" "i = b + j" "int (Suc j) = hi - lo"
      using table(2) n_opt False by (auto simp: j_def)
    have "language rs (b + j) w \<longleftrightarrow> (\<exists>m \<le> Suc j. copies rs S m w)"
      by (rule bounded_chain [OF assms(3) _ j(1)]) (use rs False in auto)
    moreover have "m \<le> Suc j \<longleftrightarrow> int m \<le> hi - lo" for m using j(3) by auto
    ultimately show ?thesis using False j(2) by auto
  qed
qed

lemma copies_between:
  assumes "0 \<le> lo"
  shows "(\<exists>u v. w = u @ v \<and> copies rs S (nat lo) u \<and> (\<exists>m. (hi < 0 \<or> int m \<le> max 0 (hi - lo)) \<and> copies rs S m v)) \<longleftrightarrow>
    (\<exists>n. lo \<le> int n \<and> (hi < 0 \<or> int n \<le> max lo hi) \<and> copies rs S n w)"
proof
  assume "\<exists>u v. w = u @ v \<and> copies rs S (nat lo) u \<and> (\<exists>m. (hi < 0 \<or> int m \<le> max 0 (hi - lo)) \<and> copies rs S m v)"
  then obtain m where "hi < 0 \<or> int m \<le> max 0 (hi - lo)" "copies rs S (nat lo + m) w"
    unfolding copies_add by blast
  with assms show "\<exists>n. lo \<le> int n \<and> (hi < 0 \<or> int n \<le> max lo hi) \<and> copies rs S n w"
    by (intro exI [of _ "nat lo + m"]) auto
next
  assume "\<exists>n. lo \<le> int n \<and> (hi < 0 \<or> int n \<le> max lo hi) \<and> copies rs S n w"
  then obtain n where n: "lo \<le> int n" "hi < 0 \<or> int n \<le> max lo hi" "copies rs S n w" by blast
  then have "copies rs S (nat lo + (n - nat lo)) w" by (simp add: nat_le_iff)
  moreover have "hi < 0 \<or> int (n - nat lo) \<le> max 0 (hi - lo)" using n(1,2) assms by auto
  ultimately show "\<exists>u v. w = u @ v \<and> copies rs S (nat lo) u \<and> (\<exists>m. (hi < 0 \<or> int m \<le> max 0 (hi - lo)) \<and> copies rs S m v)"
    unfolding copies_add by blast
qed

text \<open>C12: The rewriting of \<open>S{m,n}\<close> by \<open>handle_repetitions\<close> means what the notation says. The symbol
  \<open>S\<close> before the operator is replaced by elements that generate, in every table that keeps the rules
  the parser has added for it, exactly the concatenations of at least \<open>m\<close> words of \<open>S\<close> and, unless \<open>n\<close>
  is negative, which stands for no bound, at most \<open>n\<close> of them (at most \<open>m\<close> when \<open>n\<close> is smaller).\<close>

theorem repetition_means_copies:
  assumes "handle_repetitions pos name k lo hi P rule = Inr (P', rule')"
    and "0 \<le> lo" and "k \<le> length rule" and "plain (drop k rule)" and "seq_ok (drop k rule)" and "fresh name P"
    and "\<forall>i. length (symbol_ids P) \<le> i \<and> i < length (symbol_ids P') \<longrightarrow> i < length rs \<and> rs ! i = prules P' ! i"
  shows "\<exists>els. rule' = take k rule @ els \<and>
    (\<forall>w. symbols rs els w \<longleftrightarrow> (\<exists>n. lo \<le> int n \<and> (hi < 0 \<or> int n \<le> max lo hi) \<and> copies rs (drop k rule) n w))"
proof -
  define S where "S = drop k rule"
  define n_opt where "n_opt = (if hi < 0 then 1 else hi - lo)"
  define reps where "reps = concat (replicate (nat lo) S)"
  obtain i where S: "S \<noteq> []" and opt: "optional_rules (nat n_opt) True (hi < 0) name S P 0 = (P', i)"
    and rule': "rule' = take k rule @ reps @ (if n_opt > 0 then [Elem LLAMA_GRETYPE_RULE_REF i] else [])"
    using handle_repetitions_elements [OF assms(1-3)] unfolding S_def n_opt_def reps_def by blast
  define refs where "refs = (if n_opt > 0 then [Elem LLAMA_GRETYPE_RULE_REF i] else [])"
  have S_ok: "plain S" "seq_ok S" using assms(4,5) by (simp_all add: S_def)
  have refs: "symbols rs refs w \<longleftrightarrow> (\<exists>n. (hi < 0 \<or> int n \<le> max 0 (hi - lo)) \<and> copies rs S n w)" for w
  proof (cases "n_opt > 0")
    case True
    then have "hi < 0 \<or> int m \<le> max 0 (hi - lo) \<longleftrightarrow> hi < 0 \<or> int m \<le> hi - lo" for m
      by (auto simp: n_opt_def split: if_splits)
    with True optional_reference [OF opt assms(6) S_ok(1) n_opt_def True assms(7)] show ?thesis
      by (simp add: refs_def symbols_ref)
  next
    case False
    then have "hi \<ge> 0" "hi \<le> lo" by (auto simp: n_opt_def split: if_splits)
    with False show ?thesis by (auto simp: refs_def)
  qed
  have "plain reps" using S_ok(1) by (auto simp: reps_def plain_def)
  moreover have "refs = [] \<or> \<not> modifier (hd refs)" by (auto simp: refs_def modifier_def)
  ultimately have "symbols rs (reps @ refs) w \<longleftrightarrow> (\<exists>u v. w = u @ v \<and> copies rs S (nat lo) u \<and> symbols rs refs v)" for w
    using symbols_append [of reps refs] symbols_replicate [OF S_ok S] by (simp add: reps_def)
  then have "symbols rs (reps @ refs) w \<longleftrightarrow> (\<exists>n. lo \<le> int n \<and> (hi < 0 \<or> int n \<le> max lo hi) \<and> copies rs S n w)" for w
    unfolding refs copies_between [OF assms(2)] .
  then show ?thesis using rule' unfolding S_def refs_def by blast
qed

text \<open>\<open>"a"{1,3}\<close> as the first thing in a grammar takes two letters.\<close>

theorem repetition_means_copies_witness:
  "\<exists>P' els. handle_repetitions [] ''r'' 0 1 3 \<lparr>symbol_ids = [], prules = []\<rparr> [Elem LLAMA_GRETYPE_CHAR 97] = Inr (P', els) \<and>
     symbols (prules P') els [97, 97]"
proof -
  define P :: llama_grammar_parser where "P = \<lparr>symbol_ids = [], prules = []\<rparr>"
  define S where "S = [Elem LLAMA_GRETYPE_CHAR 97]"
  obtain P' els where h: "handle_repetitions [] ''r'' 0 1 3 P S = Inr (P', els)"
    "length (prules P') = 2" "length (symbol_ids P') = 2"
  proof -
    have "case handle_repetitions [] ''r'' 0 1 3 P S of Inl e \<Rightarrow> False
        | Inr (P', els) \<Rightarrow> length (prules P') = 2 \<and> length (symbol_ids P') = 2"
      unfolding P_def S_def by code_simp
    then show ?thesis using that by (auto split: sum.splits)
  qed
  have "plain (drop 0 S)" "seq_ok (drop 0 S)" "fresh ''r'' P"
    by (simp_all add: S_def P_def llama_grammar_is_end_of_sequence_def fresh_def)
  from repetition_means_copies [OF h(1) _ _ this, of "prules P'"] h(2,3)
  have eq: "symbols (prules P') els w \<longleftrightarrow> (\<exists>n. 1 \<le> int n \<and> int n \<le> 3 \<and> copies (prules P') S n w)" for w
    by (auto simp: P_def)
  have "symbols (prules P') S [97]"
    by (simp add: symbols_def S_def gen_at_char in_class_def span_def)
  then have "copies (prules P') S 2 [97, 97]"
    by (auto simp: numeral_2_eq_2 intro!: exI [of _ "[97]"])
  then have "symbols (prules P') els [97, 97]" unfolding eq by (intro exI [of _ 2]) simp
  with h(1) show ?thesis unfolding P_def S_def by blast
qed

end
