(* ===== verification/Spec2Isabelle.thy ===== *)
theory Spec2Isabelle
  imports KvClient Decode UnicodeSplit Chat GrammarRepeat
begin

text \<open>
  This library verifies the parts of the inference engine under \<^verbatim>\<open>src/ollama/llama/llama.cpp/src\<close> whose
  behaviour is decided by the program's own C++ code, and not by tensor kernels or floating-point
  arithmetic: how a prompt is formatted and cut into words, how a batch of tokens is split and placed
  in the key/value cache, how its evaluation prepares inputs and hands out outputs, and how a grammar
  constrains the tokens that may be generated.

  \<^bold>\<open>The parts and how they interact.\<close> A chat is turned into a prompt (\<^verbatim>\<open>llama-chat.cpp\<close>). The prompt is
  cut into words and encoded byte by byte before the vocabulary is consulted (\<^verbatim>\<open>unicode.cpp\<close>). The tokens
  form a batch, which \<^verbatim>\<open>llama_decode_impl\<close> completes, sorts into runs of sequences and splits into
  micro-batches (\<^verbatim>\<open>llama-batch.cpp\<close>); each micro-batch is given a slot of the key/value cache
  (\<^verbatim>\<open>llama-kv-cache.cpp\<close>), whose layout depends on the hyper-parameters (\<^verbatim>\<open>llama-hparams.cpp\<close>), if necessary
  after a defragmentation (\<^verbatim>\<open>llama.cpp\<close>); the input tensors and masks of its graph are filled
  (\<^verbatim>\<open>llama-context.cpp\<close>), the graph is run, and the rows it computes are copied to the output buffer, where
  the client finds them by batch index. When the logits are there, the grammar (\<^verbatim>\<open>llama-grammar.cpp\<close>), parsed from a text, filters the candidates and
  follows the token that was chosen; the client moves, copies and removes sequences of the cache.

  \<^bold>\<open>Theories.\<close>
  \<^item> \<open>Prelude\<close>: faults (failed assertions, exceptions, out-of-bounds accesses, signed overflow), the
    result type \<open>'a res\<close> with \<open>rbind\<close>, loops over vectors, 32-bit arithmetic, searches in strings.
    A C++ integer is an \<open>int\<close> or \<open>nat\<close>; where it can leave its width, the wrap or the fault is written
    out.
  \<^item> \<open>Batch\<close>: \<open>llama_sbatch\<close> with \<open>from_batch\<close>, \<open>reserve_ubatch\<close>, \<open>add_seq_to_ubatch\<close> and the three
    splits, and \<open>llama_batch_allocr\<close>. \<open>BatchRun\<close>: the loop that drains a batch; every token is delivered
    once, in micro-batches of the promised shape.
  \<^item> \<open>Hparams\<close>: the accessors of \<open>llama_hparams\<close> that the cache uses.
  \<^item> \<open>KvCache\<close>: cells, the slot search for transformers and recurrent models, the sequence operations and
    the slot restorer. \<open>KvClient\<close>: what a client sees of them, the invariant over any sequence of
    operations, the context shift of the runner, construction and the debug view. \<open>KvDefrag\<close>: the
    pending updates of the cache (\<^verbatim>\<open>llama.cpp\<close>), defragmentation in particular; cells and the rows of
    the tensors are moved together.
  \<^item> \<open>Output\<close>: the output buffer, its reservation, the accessors of the client and the reordering of rows
    into batch order. \<open>Inputs\<close>: \<open>llama_set_inputs\<close>, which fills the input tensors; the causal mask shows
    a token exactly what its sequence holds up to its position. \<open>Decode\<close>: \<open>llama_prepare_sbatch\<close>,
    \<open>llama_prepare_ubatch\<close> and \<open>llama_decode_impl\<close>, which join batch, cache, defragmentation, inputs and
    outputs; every batch there is room for is evaluated.
  \<^item> \<open>Unicode\<close>: UTF-8 and the printable byte encoding with their round trips. \<open>UnicodeSplit\<close>: character
    categories, the splitters for GPT-2 and LLaMA-3, the regular-expression pass and
    \<open>unicode_regex_split\<close>; nothing of the input is lost.
  \<^item> \<open>Chat\<close>: detection and formatting of all built-in chat templates and the public entry point.
  \<^item> \<open>Grammar\<close>: the pushdown automaton, the candidate filter, the search for left recursion,
    construction, cloning, token decoding and lazy triggers. \<open>GrammarLang\<close>: the language of a grammar,
    defined by derivations, and the automaton as a refinement of it. \<open>GrammarInit\<close>: what the search for
    left recursion decides, and construction. \<open>GrammarFilter\<close>: the filter rejects exactly what the
    automaton could not follow. \<open>GrammarParser\<close>: the parser of the grammar notation. \<open>GrammarText\<close>: it
    returns for every text and its rules are well formed. \<open>GrammarRepeat\<close>: the meaning of repetitions.
  \<^item> This theory joins the parser, the construction and the automaton.

  \<^bold>\<open>State and operations.\<close> A struct of the code is a record with its fields, and an operation is a
  function from the state to a result with the new state; a fault ends it. A cache operation of the
  code is the definition of the same name, its loop bodies are definitions beside it. Pointers into
  vectors are indices: \<open>(r, i)\<close> stands for \<^verbatim>\<open>&rules[r][i]\<close>, a pointer into a C string is the rest of the
  string. Code outside the repository's own sources is a parameter: the vocabulary of the grammar is
  a record of functions, \<^verbatim>\<open>std::regex\<close> is a function with the contract of the standard as a hypothesis,
  the Unicode tables are a record with the properties the code relies on, and the backend that
  allocates the cache is a function. For the evaluation the tensor graph (its input tensors, its status
  and results), the rotation of keys, the allocator and \<^verbatim>\<open>std::sort\<close> are fields of \<open>decode_env\<close>.

  \<^bold>\<open>Bounds.\<close> Loops that may not end are \<open>partial_function (option)\<close> or take a bound, and the theorems
  state that they return. The slot search has no bound and is proved to return. The recursion of
  \<open>llama_grammar_advance_stack\<close> is bounded by its first argument; for grammars without left recursion
  some bound suffices and a larger one changes nothing, and \<open>hidden_left_recursion\<close> is a grammar for
  which none does. The search for left recursion returns with any bound above the number of rules. The
  filter needs one level per character of a token. The loop of \<open>llama_decode_impl\<close> takes at most one
  micro-batch per token. The parser uses the length of the text, which
  is enough because every item consumes a character and every group is nested in a shorter text.

  \<^bold>\<open>Interfaces.\<close> The cache of \<open>KvClient\<close>, the splits of \<open>BatchRun\<close>, the splitters of \<open>UnicodeSplit\<close>, the
  automaton of \<open>GrammarLang\<close> and the group parser of \<open>GrammarText\<close> are locales, interpreted on the
  definitions of the code; the properties rest on the interpreted facts.

  \<^bold>\<open>What fails.\<close> Some theorems record behaviour that differs from what the code or its comments intend:
  the slot restorer, the debug view of the cache, \<open>from_batch\<close> after an abandoned batch, code points
  above the Unicode range, the Granite template, left recursion through rules that are empty
  indirectly, and a root symbol without a rule.

  \<^bold>\<open>Not modelled.\<close> Graph construction, model loading, quantization, samplers and the tensor library
  compute with tensors, files or floating-point numbers. The tokenizers of the vocabulary, the state
  files and \<^verbatim>\<open>llama_encode_impl\<close> are own logic that is left out. Printers for debugging,
  third-party headers, generated tables and the programs in Go are outside.
\<close>

section \<open>From the text of a grammar to the automaton\<close>

text \<open>C6: The parser, the construction and the automaton together: when a text parses, its root symbol
  has a rule and the rules are not left recursive, the grammar made of the text accepts the characters
  of any word, and then allows exactly what completes the word to a word of the parsed rules.\<close>

theorem text_follows_language:
  assumes "parse src = ret (Some P)" and "map_of (symbol_ids P) ''root'' = Some start"
    and "start < length (prules P)" and "no_left_recursion (prules P)"
  shows "\<exists>n g g'. grammar_from_text n src ''root'' lz words tokens = ret (Some g) \<and>
    accept_all n g w = ret g' \<and> (\<forall>v. possible g' v \<longleftrightarrow> language (prules P) start (w @ v)) \<and>
    ([] \<in> set (stacks g') \<longleftrightarrow> language (prules P) start w)"
proof -
  have "wf_rules (prules P)" using parse_post [of src] assms(1) by (simp add: run_post_def)
  moreover have "grammar_from_text n src ''root'' lz words tokens = llama_grammar_init_impl n (prules P) start lz words tokens" for n
    using assms(1-3) by (auto simp: grammar_from_text_def)
  ultimately show ?thesis using init_follows [OF _ assms(4,3)] by simp
qed

theorem text_follows_language_witness:
  "\<exists>n g g'. grammar_from_text n (''root::='' @ [CHR 0x22] @ ''a'' @ [CHR 0x22] @ ''root|'' @ [CHR 0x22] @ ''b'' @ [CHR 0x22])
       ''root'' False [] [] = ret (Some g) \<and> accept_all n g [97] = ret g'"
proof -
  have "parse (''root::='' @ [CHR 0x22] @ ''a'' @ [CHR 0x22] @ ''root|'' @ [CHR 0x22] @ ''b'' @ [CHR 0x22]) =
      ret (Some \<lparr>symbol_ids = [(''root'', 0)], prules = example_rules\<rparr>)"
    unfolding example_rules_def by code_simp
  from text_follows_language [OF this, of 0 False "[]" "[]" "[97]"] example_rules_ok(2)
  show ?thesis by (auto simp: example_rules_def)
qed

end
